(* ===== verification/CBase.thy ===== *)
theory CBase
  imports Main "HOL-Library.Word"
begin

text \<open>
  The prelude of the development: how a C function ends, the command combinators in which the
  stateful functions are written, C's signed \<open>int\<close>, and the lemma collections the
  component theories share.

  A C function that returns gives \<open>Ok\<close> of its value.  A call of \<open>exit\<close> is
  \<open>Exit\<close> of the status, \<open>abort\<close> is \<open>Killed\<close> with its signal, a successful \<open>exec\<close> replaces the process image
  (\<open>Exec\<close> of the program and its arguments), and everything ISO C leaves undefined is
  \<open>Undef\<close> with the reason, so that no property can be proved of code that has already
  left the language.
\<close>

section \<open>How a C computation ends\<close>

datatype ub =
    Null_deref
  | Uninit_read
  | Out_of_bounds
  | Heap_overflow
  | Buffer_overflow
  | Signed_overflow
  | Div_by_zero
  | Bad_pointer

datatype 'a outcome =
    Ok 'a
  | Exit int
  | Exec string "string list"
  | Undef ub
  | Killed int

definition obind :: "'a outcome \<Rightarrow> ('a \<Rightarrow> 'b outcome) \<Rightarrow> 'b outcome" where
  "obind r f = (case r of Ok a \<Rightarrow> f a | Exit n \<Rightarrow> Exit n | Exec p as \<Rightarrow> Exec p as | Undef u \<Rightarrow> Undef u
     | Killed k \<Rightarrow> Killed k)"

lemma obind_simps [simp]:
  "obind (Ok a) f = f a"
  "obind (Exit n) f = Exit n"
  "obind (Exec p as) f = Exec p as"
  "obind (Undef u) f = Undef u"
  "obind (Killed k) f = Killed k"
  by (simp_all add: obind_def)

lemma obind_Ok_iff: "obind r f = Ok b \<longleftrightarrow> (\<exists>a. r = Ok a \<and> f a = Ok b)"
  by (cases r) auto

lemma obind_assoc: "obind (obind r f) g = obind r (\<lambda>a. obind (f a) g)"
  by (cases r) auto

section \<open>Commands: state in, outcome and state out\<close>

type_synonym ('a, 's) cmd = "'s \<Rightarrow> 'a outcome \<times> 's"

definition ret :: "'a \<Rightarrow> ('a, 's) cmd" where
  "ret a s = (Ok a, s)"

definition bindc :: "('a, 's) cmd \<Rightarrow> ('a \<Rightarrow> ('b, 's) cmd) \<Rightarrow> ('b, 's) cmd" where
  "bindc m f s = (case m s of (r, s') \<Rightarrow>
     (case r of Ok a \<Rightarrow> f a s' | Exit n \<Rightarrow> (Exit n, s') | Exec p as \<Rightarrow> (Exec p as, s')
        | Undef u \<Rightarrow> (Undef u, s') | Killed k \<Rightarrow> (Killed k, s')))"

definition seqc :: "('a, 's) cmd \<Rightarrow> ('b, 's) cmd \<Rightarrow> ('b, 's) cmd" where
  "seqc m n = bindc m (\<lambda>_. n)"

definition liftc :: "'a outcome \<Rightarrow> ('a, 's) cmd" where
  "liftc r s = (r, s)"

definition exitc :: "int \<Rightarrow> ('a, 's) cmd" where
  "exitc n s = (Exit n, s)"

definition killedc :: "int \<Rightarrow> ('a, 's) cmd" where
  "killedc k s = (Killed k, s)"

definition undefc :: "ub \<Rightarrow> ('a, 's) cmd" where
  "undefc u s = (Undef u, s)"

definition modifyc :: "('s \<Rightarrow> 's) \<Rightarrow> (unit, 's) cmd" where
  "modifyc f s = (Ok (), f s)"

named_theorems cmd_simps \<open>unfolding the command combinators on a state\<close>

lemma ret_app [simp, cmd_simps]: "ret a s = (Ok a, s)"
  by (simp add: ret_def)

lemma liftc_app [simp, cmd_simps]: "liftc r s = (r, s)"
  by (simp add: liftc_def)

lemma exitc_app [simp, cmd_simps]: "exitc n s = (Exit n, s)"
  by (simp add: exitc_def)

lemma killedc_app [simp, cmd_simps]: "killedc k s = (Killed k, s)"
  by (simp add: killedc_def)

lemma undefc_app [simp, cmd_simps]: "undefc u s = (Undef u, s)"
  by (simp add: undefc_def)

lemma modifyc_app [simp, cmd_simps]: "modifyc f s = (Ok (), f s)"
  by (simp add: modifyc_def)

lemma seqc_app [cmd_simps]: "seqc m n s = bindc m (\<lambda>_. n) s"
  by (simp add: seqc_def)

lemma bindc_Ok [simp]: "m s = (Ok a, s') \<Longrightarrow> bindc m f s = f a s'"
  by (simp add: bindc_def)

lemma bindc_Exit [simp]: "m s = (Exit n, s') \<Longrightarrow> bindc m f s = (Exit n, s')"
  by (simp add: bindc_def)

lemma bindc_Exec [simp]: "m s = (Exec p as, s') \<Longrightarrow> bindc m f s = (Exec p as, s')"
  by (simp add: bindc_def)

lemma bindc_Undef [simp]: "m s = (Undef u, s') \<Longrightarrow> bindc m f s = (Undef u, s')"
  by (simp add: bindc_def)

lemma bindc_Killed [simp]: "m s = (Killed k, s') \<Longrightarrow> bindc m f s = (Killed k, s')"
  by (simp add: bindc_def)

lemma seqc_Ok [simp]: "m s = (Ok a, s') \<Longrightarrow> seqc m n s = n s'"
  by (simp add: seqc_def)

lemma seqc_Exit [simp]: "m s = (Exit k, s') \<Longrightarrow> seqc m n s = (Exit k, s')"
  by (simp add: seqc_def)

lemma seqc_Undef [simp]: "m s = (Undef u, s') \<Longrightarrow> seqc m n s = (Undef u, s')"
  by (simp add: seqc_def)

lemma bindc_split:
  "P (bindc m f s) \<longleftrightarrow>
     (\<forall>a s'. m s = (Ok a, s') \<longrightarrow> P (f a s')) \<and>
     (\<forall>n s'. m s = (Exit n, s') \<longrightarrow> P (Exit n, s')) \<and>
     (\<forall>p as s'. m s = (Exec p as, s') \<longrightarrow> P (Exec p as, s')) \<and>
     (\<forall>u s'. m s = (Undef u, s') \<longrightarrow> P (Undef u, s')) \<and>
     (\<forall>k s'. m s = (Killed k, s') \<longrightarrow> P (Killed k, s'))"
  by (auto simp: bindc_def split: prod.splits outcome.splits)

lemma bindc_OkE:
  assumes "bindc m f s = (Ok b, t)"
  obtains a s' where "m s = (Ok a, s')" and "f a s' = (Ok b, t)"
  using assms by (auto simp: bindc_def split: prod.splits outcome.splits)

lemma bindc_eq_Ok:
  "bindc m f s = (Ok b, t) \<longleftrightarrow> (\<exists>a s'. m s = (Ok a, s') \<and> f a s' = (Ok b, t))"
  by (auto simp: bindc_def split: prod.splits outcome.splits)

lemma bindc_cong [fundef_cong]:
  assumes "m = m'" and "s = s'" and "\<And>a t. m' s' = (Ok a, t) \<Longrightarrow> f a t = f' a t"
  shows "bindc m f s = bindc m' f' s'"
  using assms by (auto simp: bindc_def split: prod.splits outcome.splits)

section \<open>Total correctness of a command\<close>

text \<open>
  Run on \<open>s\<close>, the command either returns with \<open>Q\<close> or exits with a status
  that \<open>E\<close> allows; it is never undefined.
\<close>

definition runs :: "('a, 's) cmd \<Rightarrow> ('a \<Rightarrow> 's \<Rightarrow> bool) \<Rightarrow> (int \<Rightarrow> bool) \<Rightarrow> 's \<Rightarrow> bool" where
  "runs m Q E s \<longleftrightarrow> (case m s of (r, s') \<Rightarrow>
     (case r of Ok a \<Rightarrow> Q a s' | Exit n \<Rightarrow> E n | Exec p as \<Rightarrow> False | Undef u \<Rightarrow> False | Killed k \<Rightarrow> False))"

lemma runs_bindc_iff: "runs (bindc m f) R E s \<longleftrightarrow> runs m (\<lambda>a t. runs (f a) R E t) E s"
  by (cases "m s", cases "fst (m s)") (simp_all add: runs_def)

lemma runs_conseq:
  "runs m Q E s \<Longrightarrow> (\<And>a t. Q a t \<Longrightarrow> R a t) \<Longrightarrow> runs m R E s"
  by (auto simp: runs_def split: prod.splits outcome.splits)

lemma runs_bindc:
  "runs m Q E s \<Longrightarrow> (\<And>a t. Q a t \<Longrightarrow> runs (f a) R E t) \<Longrightarrow> runs (bindc m f) R E s"
  unfolding runs_bindc_iff by (rule runs_conseq)

lemma runs_seqc:
  "runs m Q E s \<Longrightarrow> (\<And>a t. Q a t \<Longrightarrow> runs n R E t) \<Longrightarrow> runs (seqc m n) R E s"
  unfolding seqc_def by (rule runs_bindc)

lemma runs_ret [simp]: "runs (ret a) Q E s \<longleftrightarrow> Q a s"
  by (simp add: runs_def)

lemma runs_exitc [simp]: "runs (exitc n) Q E s \<longleftrightarrow> E n"
  by (simp add: runs_def)

lemma runs_modifyc [simp]: "runs (modifyc f) Q E s \<longleftrightarrow> Q () (f s)"
  by (simp add: runs_def)

lemma runs_eqD: "runs m Q E s \<Longrightarrow> m s = (Ok a, s') \<Longrightarrow> Q a s'"
  by (simp add: runs_def)

lemma runs_OkE:
  assumes "runs m Q (\<lambda>_. False) s"
  obtains a s' where "m s = (Ok a, s')" and "Q a s'"
  using assms by (auto simp: runs_def split: prod.splits outcome.splits)

section \<open>C's signed int\<close>

definition INT_MAX :: int where "INT_MAX = 2147483647"

definition INT_MIN :: int where "INT_MIN = - 2147483648"

definition int_range :: "int \<Rightarrow> bool" where
  "int_range x \<longleftrightarrow> INT_MIN \<le> x \<and> x \<le> INT_MAX"

text \<open>Signed addition: overflow is undefined behaviour, not a wrap.\<close>

definition int_add :: "int \<Rightarrow> int \<Rightarrow> int outcome" where
  "int_add a b = (if int_range (a + b) then Ok (a + b) else Undef Signed_overflow)"

text \<open>A conversion to \<open>int\<close> of a value out of range keeps the low 32 bits.\<close>

definition to_int32 :: "int \<Rightarrow> int" where
  "to_int32 x = sint (word_of_int x :: 32 word)"

lemma int_add_Ok_iff: "int_add a b = Ok c \<longleftrightarrow> int_range (a + b) \<and> c = a + b"
  by (auto simp: int_add_def)

lemma int_range_0 [simp]: "int_range 0" and int_range_1 [simp]: "int_range 1"
  by (simp_all add: int_range_def INT_MIN_def INT_MAX_def)

lemma to_int32_small: "int_range x \<Longrightarrow> to_int32 x = x"
  by (simp add: to_int32_def int_range_def INT_MIN_def INT_MAX_def int_word_sint)

lemma to_int32_range: "int_range (to_int32 x)"
proof -
  have "- (2 ^ 31) \<le> sint (word_of_int x :: 32 word)" "sint (word_of_int x :: 32 word) < 2 ^ 31"
    using sint_ge[of "word_of_int x :: 32 word"] sint_lt[of "word_of_int x :: 32 word"] by simp_all
  then show ?thesis by (simp add: to_int32_def int_range_def INT_MIN_def INT_MAX_def)
qed

section \<open>Lists\<close>

lemma takeWhile_neq_length:
  "length (takeWhile (\<lambda>x. x \<noteq> k) xs) \<le> length xs"
  by (simp add: length_takeWhile_le)

lemma nth_length_takeWhile_eq:
  "k \<in> set xs \<Longrightarrow> xs ! length (takeWhile (\<lambda>x. x \<noteq> k) xs) = k"
  by (induction xs) auto

lemma length_takeWhile_neq_iff:
  "length (takeWhile (\<lambda>x. x \<noteq> k) xs) < length xs \<longleftrightarrow> k \<in> set xs"
  by (induction xs) auto

lemma length_takeWhile_neq_eq:
  "k \<notin> set xs \<Longrightarrow> length (takeWhile (\<lambda>x. x \<noteq> k) xs) = length xs"
  by (induction xs) auto

lemma takeWhile_append_stop:
  "\<forall>x \<in> set xs. P x \<Longrightarrow> \<not> P y \<Longrightarrow> takeWhile P (xs @ y # ys) = xs"
  by (induction xs) auto

lemma takeWhile_neq_append [simp]:
  "k \<notin> set xs \<Longrightarrow> takeWhile (\<lambda>x. x \<noteq> k) (xs @ k # ys) = xs"
  by (induction xs) auto

lemma dropWhile_append_stop:
  "\<forall>x \<in> set xs. P x \<Longrightarrow> \<not> P y \<Longrightarrow> dropWhile P (xs @ y # ys) = y # ys"
  by (induction xs) auto

end
