(* ===== verification/CString.thy ===== *)
theory CString
  imports CBase
begin

text \<open>
  The C library's string functions, as far as the programs use them: \<open>strcmp\<close>,
  \<open>strncmp\<close>, \<open>strtok\<close>, \<open>strtol\<close>, \<open>atoi\<close>, \<open>fgets\<close> and decimal
  output.  A C string is the list of its characters without the terminating NUL; a buffer is
  the list of all its bytes, and \<open>cstr\<close> reads the string that starts at its front.
\<close>

abbreviation NUL :: char where "NUL \<equiv> CHR 0x00"

abbreviation newline :: char where "newline \<equiv> CHR 0x0A"

definition nul_free :: "string \<Rightarrow> bool" where
  "nul_free s \<longleftrightarrow> NUL \<notin> set s"

text \<open>The string at the front of a buffer; a buffer with no NUL is read past its end.\<close>

definition cstr :: "string \<Rightarrow> string outcome" where
  "cstr buf = (if NUL \<in> set buf then Ok (takeWhile (\<lambda>c. c \<noteq> NUL) buf) else Undef Out_of_bounds)"

lemma cstr_append: "nul_free s \<Longrightarrow> cstr (s @ NUL # rest) = Ok s"
  by (simp add: cstr_def nul_free_def)

lemma cstr_nul_free: "cstr buf = Ok s \<Longrightarrow> nul_free s"
  by (auto simp: cstr_def nul_free_def dest: set_takeWhileD split: if_splits)

lemma cstr_length: "cstr buf = Ok s \<Longrightarrow> length s < length buf"
  by (auto simp: cstr_def length_takeWhile_neq_iff split: if_splits)

section \<open>Comparison\<close>

fun strcmp :: "string \<Rightarrow> string \<Rightarrow> int" where
  "strcmp [] [] = 0"
| "strcmp [] (y # ys) = - 1"
| "strcmp (x # xs) [] = 1"
| "strcmp (x # xs) (y # ys) =
     (if x = y then strcmp xs ys else if (of_char x :: nat) < of_char y then - 1 else 1)"

lemma strcmp_eq_0 [simp]: "strcmp a b = 0 \<longleftrightarrow> a = b"
  by (induction a b rule: strcmp.induct) auto

lemma strcmp_refl: "strcmp a a = 0"
  by simp

lemma strcmp_antisym: "strcmp b a = - strcmp a b"
proof (induction a b rule: strcmp.induct)
  case (4 x xs y ys)
  have "(of_char x :: nat) = of_char y \<longleftrightarrow> x = y" by simp
  with 4 show ?case by (auto simp: not_less_iff_gr_or_eq)
qed auto

lemma strcmp_less_trans: "strcmp a b < 0 \<Longrightarrow> strcmp b c < 0 \<Longrightarrow> strcmp a c < 0"
proof (induction a b arbitrary: c rule: strcmp.induct)
  case (4 x xs y ys)
  then show ?case by (cases c) (auto split: if_splits)
next
  case (2 y ys)
  then show ?case by (cases c) auto
qed auto

lemma strcmp_neq_cases: "a \<noteq> b \<Longrightarrow> strcmp a b < 0 \<or> strcmp b a < 0"
  using strcmp_antisym[of a b] strcmp_eq_0[of a b] by linarith

text \<open>\<open>strncmp\<close>: the comparison stops after \<open>n\<close> characters.\<close>

definition strncmp :: "string \<Rightarrow> string \<Rightarrow> nat \<Rightarrow> int" where
  "strncmp a b n = strcmp (take n a) (take n b)"

lemma strncmp_prefix: "strncmp line w (length w) = 0 \<longleftrightarrow> take (length w) line = w"
  by (simp add: strncmp_def)

section \<open>Tokens\<close>

text \<open>
  One call of \<open>strtok\<close>: skip the delimiters, take the characters up to the next one,
  which it overwrites, and remember the position behind it.  The position is the rest of the
  string still to be scanned.
\<close>

definition strtok :: "string \<Rightarrow> string \<Rightarrow> (string \<times> string) option" where
  "strtok delim rest =
     (let s = dropWhile (\<lambda>c. c \<in> set delim) rest in
      if s = [] then None
      else Some (takeWhile (\<lambda>c. c \<notin> set delim) s, drop 1 (dropWhile (\<lambda>c. c \<notin> set delim) s)))"

lemma strtok_shorter: "strtok delim rest = Some (tok, rest') \<Longrightarrow> length rest' < length rest"
proof -
  assume a: "strtok delim rest = Some (tok, rest')"
  define s where "s = dropWhile (\<lambda>c. c \<in> set delim) rest"
  from a have s: "s \<noteq> []" and r: "rest' = drop 1 (dropWhile (\<lambda>c. c \<notin> set delim) s)"
    by (auto simp: strtok_def s_def Let_def split: if_splits)
  from s have "hd s \<notin> set delim"
    using hd_dropWhile[of "\<lambda>c. c \<in> set delim" rest] by (auto simp: s_def)
  with s have "length rest' < length s"
    using length_dropWhile_le[of "\<lambda>c. c \<notin> set delim" "tl s"] by (cases s) (auto simp: r)
  also have "length s \<le> length rest" by (simp add: s_def length_dropWhile_le)
  finally show ?thesis .
qed

lemma strtok_token:
  "strtok delim rest = Some (tok, rest') \<Longrightarrow> tok \<noteq> [] \<and> set tok \<inter> set delim = {} \<and> set tok \<subseteq> set rest"
proof -
  assume a: "strtok delim rest = Some (tok, rest')"
  define s where "s = dropWhile (\<lambda>c. c \<in> set delim) rest"
  from a have s: "s \<noteq> []" and t: "tok = takeWhile (\<lambda>c. c \<notin> set delim) s"
    by (auto simp: strtok_def s_def Let_def split: if_splits)
  from s have h: "hd s \<notin> set delim"
    using hd_dropWhile[of "\<lambda>c. c \<in> set delim" rest] by (auto simp: s_def)
  then have "tok \<noteq> []" using s by (cases s) (auto simp: t)
  moreover have "set tok \<subseteq> set rest"
    using set_takeWhileD[of _ _ s] set_dropWhileD[of _ _ rest] by (fastforce simp: t s_def)
  moreover have "set tok \<inter> set delim = {}" by (auto simp: t dest: set_takeWhileD)
  ultimately show ?thesis by simp
qed

text \<open>All tokens that successive calls return.\<close>

function tokens :: "string \<Rightarrow> string \<Rightarrow> string list" where
  "tokens delim rest =
     (case strtok delim rest of None \<Rightarrow> [] | Some (tok, rest') \<Rightarrow> tok # tokens delim rest')"
  by pat_completeness auto
termination
  by (relation "measure (\<lambda>(_, rest). length rest)") (auto dest: strtok_shorter)

declare tokens.simps [simp del]

lemma tokens_None: "strtok delim rest = None \<Longrightarrow> tokens delim rest = []"
  by (subst tokens.simps) simp

lemma tokens_Some: "strtok delim rest = Some (tok, rest') \<Longrightarrow> tokens delim rest = tok # tokens delim rest'"
  by (subst tokens.simps) simp

text \<open>What splitting a line into words means, with no reference to a scanning position.\<close>

fun split_on :: "char set \<Rightarrow> string \<Rightarrow> string list" where
  "split_on D [] = [[]]"
| "split_on D (c # cs) =
     (if c \<in> D then [] # split_on D cs
      else (c # hd (split_on D cs)) # tl (split_on D cs))"

definition words_of :: "char set \<Rightarrow> string \<Rightarrow> string list" where
  "words_of D s = filter (\<lambda>w. w \<noteq> []) (split_on D s)"

lemma split_on_nonempty [simp]: "split_on D s \<noteq> []"
  by (induction s) auto

lemma split_on_append_stop:
  "set w \<inter> D = {} \<Longrightarrow> d \<in> D \<Longrightarrow> split_on D (w @ d # rest) = w # split_on D rest"
  by (induction w) auto

lemma split_on_word: "set w \<inter> D = {} \<Longrightarrow> split_on D w = [w]"
  by (induction w) auto

lemma words_of_delim: "d \<in> D \<Longrightarrow> words_of D (d # rest) = words_of D rest"
  by (simp add: words_of_def)

lemma words_of_dropWhile: "words_of D (dropWhile (\<lambda>c. c \<in> D) s) = words_of D s"
  by (induction s) (auto simp: words_of_delim)

lemma words_of_word_delim:
  "w \<noteq> [] \<Longrightarrow> set w \<inter> D = {} \<Longrightarrow> d \<in> D \<Longrightarrow> words_of D (w @ d # rest) = w # words_of D rest"
  by (simp add: words_of_def split_on_append_stop)

lemma words_of_word: "w \<noteq> [] \<Longrightarrow> set w \<inter> D = {} \<Longrightarrow> words_of D w = [w]"
  by (simp add: words_of_def split_on_word)

lemma words_of_Nil [simp]: "words_of D [] = []"
  by (simp add: words_of_def)

lemma words_of_step:
  assumes "s = dropWhile (\<lambda>c. c \<in> D) rest" and "s \<noteq> []"
  shows "words_of D rest = takeWhile (\<lambda>c. c \<notin> D) s # words_of D (drop 1 (dropWhile (\<lambda>c. c \<notin> D) s))"
proof -
  let ?w = "takeWhile (\<lambda>c. c \<notin> D) s" and ?r = "dropWhile (\<lambda>c. c \<notin> D) s"
  have h: "hd s \<notin> D" using assms hd_dropWhile[of "\<lambda>c. c \<in> D" rest] by auto
  then have w: "?w \<noteq> []" using assms(2) by (cases s) auto
  have d: "set ?w \<inter> D = {}" by (auto dest: set_takeWhileD)
  have "words_of D rest = words_of D (?w @ ?r)"
    using words_of_dropWhile[of D rest] assms(1) by simp
  also have "\<dots> = ?w # words_of D (drop 1 ?r)"
  proof (cases ?r)
    case Nil
    then have "takeWhile (\<lambda>c. c \<notin> D) s = s" by (simp add: takeWhile_eq_all_conv dropWhile_eq_Nil_conv)
    then show ?thesis using words_of_word[OF w d] Nil by (simp del: dropWhile_eq_Nil_conv)
  next
    case (Cons c cs)
    then have "c \<in> D" using hd_dropWhile[of "\<lambda>c. c \<notin> D" s] by auto
    then show ?thesis using words_of_word_delim[OF w d] Cons by simp
  qed
  finally show ?thesis .
qed

lemma tokens_eq_words: "tokens delim s = words_of (set delim) s"
proof (induction s rule: length_induct)
  case (1 s)
  let ?t = "dropWhile (\<lambda>c. c \<in> set delim) s"
  show ?case
  proof (cases "?t = []")
    case True
    then have "strtok delim s = None" by (simp add: strtok_def)
    moreover have "words_of (set delim) s = []"
      using words_of_dropWhile[of "set delim" s] by (simp add: True del: dropWhile_eq_Nil_conv)
    ultimately show ?thesis by (simp add: tokens_None)
  next
    case False
    let ?r = "drop 1 (dropWhile (\<lambda>c. c \<notin> set delim) ?t)"
    have st: "strtok delim s = Some (takeWhile (\<lambda>c. c \<notin> set delim) ?t, ?r)"
      using False by (simp add: strtok_def Let_def)
    have "tokens delim ?r = words_of (set delim) ?r"
      using 1 strtok_shorter[OF st] by blast
    then show ?thesis using tokens_Some[OF st] words_of_step[OF refl False] by simp
  qed
qed

lemma tokens_are_words:
  "w \<in> set (tokens delim s) \<Longrightarrow> w \<noteq> [] \<and> set w \<inter> set delim = {} \<and> set w \<subseteq> set s"
proof (induction s rule: length_induct)
  case (1 s)
  show ?case
  proof (cases "strtok delim s")
    case None
    with 1 show ?thesis by (simp add: tokens_None)
  next
    case (Some p)
    obtain tok rest' where p: "p = (tok, rest')" by (cases p)
    with Some have st: "strtok delim s = Some (tok, rest')" by simp
    have sub: "set rest' \<subseteq> set s"
      using st set_dropWhileD set_drop_subset
      by (fastforce simp: strtok_def Let_def split: if_splits dest: in_set_dropD set_dropWhileD)
    from 1 tokens_Some[OF st] consider "w = tok" | "w \<in> set (tokens delim rest')" by auto
    then show ?thesis
    proof cases
      case 1
      with strtok_token[OF st] show ?thesis by simp
    next
      case 2
      with "1.IH" strtok_shorter[OF st] sub show ?thesis by blast
    qed
  qed
qed

end
