(* ===== verification/CNum.thy ===== *)
theory CNum
  imports CString
begin

text \<open>
  Numbers and streams of the C library: \<open>strtol\<close> with its saturation, \<open>errno\<close>
  and end pointer, \<open>atoi\<close> as glibc computes it (\<open>strtol\<close> narrowed to
  \<open>int\<close>), decimal output as \<open>printf\<close> of \<open>%d\<close> writes it, and
  \<open>fgets\<close> on the unread rest of a stream.
\<close>

section \<open>strtol and atoi\<close>

definition LONG_MAX :: int where "LONG_MAX = 9223372036854775807"

definition LONG_MIN :: int where "LONG_MIN = - 9223372036854775808"

definition is_space :: "char \<Rightarrow> bool" where
  "is_space c \<longleftrightarrow> c = CHR '' '' \<or> (9 \<le> (of_char c :: nat) \<and> (of_char c :: nat) \<le> 13)"

text \<open>The value of a digit or letter; \<open>None\<close> for any other character.\<close>

definition digit_val :: "char \<Rightarrow> nat option" where
  "digit_val c = (let n = of_char c :: nat in
     if 48 \<le> n \<and> n \<le> 57 then Some (n - 48)
     else if 97 \<le> n \<and> n \<le> 122 then Some (n - 87)
     else if 65 \<le> n \<and> n \<le> 90 then Some (n - 55)
     else None)"

definition is_digit_in :: "nat \<Rightarrow> char \<Rightarrow> bool" where
  "is_digit_in b c = (case digit_val c of None \<Rightarrow> False | Some d \<Rightarrow> d < b)"

fun digits_value :: "nat \<Rightarrow> nat \<Rightarrow> string \<Rightarrow> nat" where
  "digits_value b acc [] = acc"
| "digits_value b acc (c # cs) =
     digits_value b (acc * b + (case digit_val c of None \<Rightarrow> 0 | Some d \<Rightarrow> d)) cs"

definition strip_sign :: "string \<Rightarrow> bool \<times> string" where
  "strip_sign s = (case s of
       [] \<Rightarrow> (False, [])
     | c # cs \<Rightarrow> if c = CHR ''-'' then (True, cs) else if c = CHR ''+'' then (False, cs) else (False, s))"

definition hex_prefix :: "string \<Rightarrow> bool" where
  "hex_prefix s = (case s of
       a # b # c # _ \<Rightarrow> a = CHR ''0'' \<and> (b = CHR ''x'' \<or> b = CHR ''X'') \<and> is_digit_in 16 c
     | _ \<Rightarrow> False)"

definition base_and_rest :: "nat \<Rightarrow> string \<Rightarrow> nat \<times> string" where
  "base_and_rest base s =
     (if (base = 0 \<or> base = 16) \<and> hex_prefix s then (16, drop 2 s)
      else if base = 0 then (if s \<noteq> [] \<and> hd s = CHR ''0'' then 8 else 10, s)
      else (base, s))"

record strtol_result =
  sl_value :: int
  sl_end :: string
  sl_erange :: bool

definition strtol :: "string \<Rightarrow> nat \<Rightarrow> strtol_result" where
  "strtol s base =
     (let (neg, s2) = strip_sign (dropWhile is_space s);
          (b, s3) = base_and_rest base s2;
          ds = takeWhile (is_digit_in b) s3
      in if ds = [] then \<lparr>sl_value = 0, sl_end = s, sl_erange = False\<rparr>
         else let v = (if neg then - int (digits_value b 0 ds) else int (digits_value b 0 ds));
                  e = dropWhile (is_digit_in b) s3
              in if v > LONG_MAX then \<lparr>sl_value = LONG_MAX, sl_end = e, sl_erange = True\<rparr>
                 else if v < LONG_MIN then \<lparr>sl_value = LONG_MIN, sl_end = e, sl_erange = True\<rparr>
                 else \<lparr>sl_value = v, sl_end = e, sl_erange = False\<rparr>)"

definition atoi :: "string \<Rightarrow> int" where
  "atoi s = to_int32 (sl_value (strtol s 10))"

lemma strtol_range: "LONG_MIN \<le> sl_value (strtol s b) \<and> sl_value (strtol s b) \<le> LONG_MAX"
  by (simp add: strtol_def Let_def LONG_MAX_def LONG_MIN_def split: prod.splits)

lemma atoi_range: "int_range (atoi s)"
  by (simp add: atoi_def to_int32_range)

section \<open>Decimal output\<close>

definition digit_char :: "nat \<Rightarrow> char" where
  "digit_char d = char_of (48 + d)"

fun dec_nat :: "nat \<Rightarrow> string" where
  "dec_nat n = (if n < 10 then [digit_char n] else dec_nat (n div 10) @ [digit_char (n mod 10)])"

declare dec_nat.simps [simp del]

definition dec :: "int \<Rightarrow> string" where
  "dec x = (if x < 0 then CHR ''-'' # dec_nat (nat (- x)) else dec_nat (nat x))"

lemma digit_val_digit_char: "d < 10 \<Longrightarrow> digit_val (digit_char d) = Some d"
  by (simp add: digit_val_def digit_char_def Let_def)

lemma digits_value_append:
  "digits_value b acc (xs @ [c]) =
     digits_value b acc xs * b + (case digit_val c of None \<Rightarrow> 0 | Some d \<Rightarrow> d)"
  by (induction xs arbitrary: acc) auto

lemma dec_nat_digits: "\<forall>c \<in> set (dec_nat n). is_digit_in 10 c"
proof (induction n rule: dec_nat.induct)
  case (1 n)
  then show ?case
    by (subst dec_nat.simps) (auto simp: is_digit_in_def digit_val_digit_char)
qed

lemma dec_nat_nonempty: "dec_nat n \<noteq> []"
  by (subst dec_nat.simps) simp

lemma digits_value_dec_nat: "digits_value 10 0 (dec_nat n) = n"
proof (induction n rule: dec_nat.induct)
  case (1 n)
  show ?case
  proof (cases "n < 10")
    case True
    then show ?thesis by (subst dec_nat.simps) (simp add: digit_val_digit_char)
  next
    case False
    then have "dec_nat n = dec_nat (n div 10) @ [digit_char (n mod 10)]"
      by (subst dec_nat.simps) simp
    then show ?thesis using 1 False
      by (simp add: digits_value_append digit_val_digit_char)
  qed
qed

lemma digit_not_space_sign:
  assumes "is_digit_in 10 c"
  shows "\<not> is_space c \<and> c \<noteq> CHR ''-'' \<and> c \<noteq> CHR ''+''"
proof -
  from assms have "48 \<le> (of_char c :: nat)"
    by (auto simp: is_digit_in_def digit_val_def Let_def split: if_splits)
  then show ?thesis by (auto simp: is_space_def)
qed

text \<open>What \<open>printf\<close> writes, \<open>strtol\<close> reads back.\<close>

lemma strtol_dec_nat:
  assumes "int n \<le> LONG_MAX" and "\<not> (\<exists>c cs. rest = c # cs \<and> is_digit_in 10 c)"
  shows "strtol (dec_nat n @ rest) 10 = \<lparr>sl_value = int n, sl_end = rest, sl_erange = False\<rparr>"
proof -
  obtain c cs where d: "dec_nat n = c # cs" using dec_nat_nonempty[of n] by (cases "dec_nat n") auto
  have all: "\<forall>x \<in> set (dec_nat n). is_digit_in 10 x" by (rule dec_nat_digits)
  then have c: "is_digit_in 10 c" by (simp add: d)
  have sp: "dropWhile is_space (dec_nat n @ rest) = dec_nat n @ rest"
    using digit_not_space_sign[OF c] by (simp add: d)
  have sg: "strip_sign (dec_nat n @ rest) = (False, dec_nat n @ rest)"
    using digit_not_space_sign[OF c] by (simp add: d strip_sign_def)
  have tk: "takeWhile (is_digit_in 10) (dec_nat n @ rest) = dec_nat n"
    and dr: "dropWhile (is_digit_in 10) (dec_nat n @ rest) = rest"
    using all assms(2) by (cases rest; simp add: takeWhile_append dropWhile_append)+
  show ?thesis
    using assms(1) dec_nat_nonempty[of n]
    by (simp add: strtol_def sp sg base_and_rest_def tk dr digits_value_dec_nat LONG_MIN_def Let_def)
qed

lemma strtol_dec:
  assumes "LONG_MIN < x" and "x \<le> LONG_MAX"
  shows "strtol (dec x) 10 = \<lparr>sl_value = x, sl_end = [], sl_erange = False\<rparr>"
proof (cases "x < 0")
  case False
  then show ?thesis using strtol_dec_nat[of "nat x" "[]"] assms by (simp add: dec_def)
next
  case True
  let ?n = "nat (- x)"
  have all: "\<forall>c \<in> set (dec_nat ?n). is_digit_in 10 c" by (rule dec_nat_digits)
  have tk: "takeWhile (is_digit_in 10) (dec_nat ?n) = dec_nat ?n"
    and dr: "dropWhile (is_digit_in 10) (dec_nat ?n) = []"
    using all by (simp_all add: takeWhile_eq_all_conv)
  have sp: "dropWhile is_space (CHR ''-'' # dec_nat ?n) = CHR ''-'' # dec_nat ?n"
    by (simp add: is_space_def)
  have sg: "strip_sign (CHR ''-'' # dec_nat ?n) = (True, dec_nat ?n)"
    by (simp add: strip_sign_def)
  show ?thesis
    using True assms dec_nat_nonempty[of ?n]
    by (simp add: dec_def strtol_def sp sg base_and_rest_def tk dr digits_value_dec_nat LONG_MAX_def
        LONG_MIN_def Let_def del: dropWhile.simps)
qed

lemma atoi_dec: "int_range x \<Longrightarrow> atoi (dec x) = x"
  by (simp add: atoi_def strtol_dec int_range_def INT_MIN_def INT_MAX_def LONG_MIN_def LONG_MAX_def
      to_int32_small)

section \<open>fgets\<close>

text \<open>
  \<open>fgets (buf, n, stream)\<close> with the unread rest of the stream: \<open>None\<close> at end of
  file, otherwise at most \<open>n - 1\<close> characters, up to and including the first newline.
\<close>

definition fgets_line :: "string \<Rightarrow> string" where
  "fgets_line s = takeWhile (\<lambda>c. c \<noteq> newline) s
     @ (if newline \<in> set s then [newline] else [])"

definition fgets :: "nat \<Rightarrow> string \<Rightarrow> (string \<times> string) option" where
  "fgets n s = (if s = [] then None
     else let got = take (n - 1) (fgets_line s) in Some (got, drop (length got) s))"

lemma fgets_line_prefix: "fgets_line s = take (length (fgets_line s)) s"
proof (induction s)
  case (Cons c s)
  then show ?case by (auto simp: fgets_line_def)
qed (simp add: fgets_line_def)

lemma fgets_line_nonempty: "s \<noteq> [] \<Longrightarrow> fgets_line s \<noteq> []"
  by (cases s) (auto simp: fgets_line_def)

lemma fgets_split: "fgets n s = Some (got, rest) \<Longrightarrow> s = got @ rest"
proof -
  assume "fgets n s = Some (got, rest)"
  then have g: "got = take (n - 1) (fgets_line s)" and r: "rest = drop (length got) s"
    by (auto simp: fgets_def Let_def split: if_splits)
  have "got = take (min (n - 1) (length (fgets_line s))) s"
    using g fgets_line_prefix[of s] by (metis take_take)
  then have "got = take (length got) s" by (metis append_take_drop_id append_eq_conv_conj)
  then show ?thesis using r by (metis append_take_drop_id)
qed

lemma fgets_shorter: "fgets n s = Some (got, rest) \<Longrightarrow> 1 < n \<Longrightarrow> length rest < length s"
proof -
  assume a: "fgets n s = Some (got, rest)" and n: "1 < n"
  then have "got \<noteq> []" using fgets_line_nonempty[of s]
    by (auto simp: fgets_def Let_def split: if_splits)
  then show ?thesis using fgets_split[OF a] by simp
qed

lemma fgets_bound: "fgets n s = Some (got, rest) \<Longrightarrow> length got \<le> n - 1"
  by (auto simp: fgets_def Let_def split: if_splits)

text \<open>A line that fits is read whole.\<close>

lemma fgets_whole_line:
  "newline \<notin> set l \<Longrightarrow> length l < n - 1 \<Longrightarrow> fgets n (l @ newline # rest) = Some (l @ [newline], rest)"
  by (auto simp: fgets_def fgets_line_def Let_def)

text \<open>A text file as the list of its lines.\<close>

definition unlines :: "string list \<Rightarrow> string" where
  "unlines ls = concat (map (\<lambda>l. l @ [newline]) ls)"

lemma unlines_simps [simp]:
  "unlines [] = []" "unlines (l # ls) = l @ newline # unlines ls" "unlines (ls @ ms) = unlines ls @ unlines ms"
  by (simp_all add: unlines_def)

text \<open>
  \<open>while (fgets (buf, n, stream) != NULL) printf ("%s", buf)\<close>: what is written of the rest of
  the stream.
\<close>

function show_lines :: "nat \<Rightarrow> string \<Rightarrow> string" where
  "show_lines n s = (if n \<le> 1 then [] else case fgets n s of
       None \<Rightarrow> []
     | Some (got, rest) \<Rightarrow> takeWhile (\<lambda>c. c \<noteq> NUL) got @ show_lines n rest)"
  by pat_completeness auto
termination
  by (relation "measure (\<lambda>(n, s). length s)") (auto dest: fgets_shorter)

declare show_lines.simps [simp del]

lemma show_lines_all: "1 < n \<Longrightarrow> NUL \<notin> set s \<Longrightarrow> show_lines n s = s"
proof (induction n s rule: show_lines.induct)
  case (1 n s)
  show ?case
  proof (cases "fgets n s")
    case None
    then have "s = []" by (simp add: fgets_def Let_def split: if_splits)
    then show ?thesis using None by (simp add: show_lines.simps)
  next
    case (Some gr)
    then obtain got rest where g: "fgets n s = Some (got, rest)" by (cases gr) auto
    have o: "s = got @ rest" by (rule fgets_split[OF g])
    have "takeWhile (\<lambda>c. c \<noteq> NUL) got = got" using 1(3) by (auto simp: o takeWhile_eq_all_conv)
    then show ?thesis using 1 g o by (subst show_lines.simps) auto
  qed
qed

lemma take_NUL_free: "NUL \<notin> set s \<Longrightarrow> takeWhile (\<lambda>c. c \<noteq> NUL) (take n (fgets_line s)) = take n (fgets_line s)"
  using set_take_subset[of n "fgets_line s"] set_take_subset[of "length (fgets_line s)" s] fgets_line_prefix[of s]
  by (intro takeWhile_eq_all_conv[THEN iffD2]) auto

end
