(* ===== verification/CProc.thy ===== *)
theory CProc
  imports CNum
begin

text \<open>
  A Unix process as the programs see it: its streams, its \<open>errno\<close>, its descriptor
  table, the heap blocks it holds and the calls it has made.  What the kernel and the C library
  decide (whether an allocation succeeds and how many bytes it really gives, the pid a
  \<open>fork\<close> returns, whether a file opens, ...) is a parameter, the record \<open>os\<close>,
  whose fields are indexed by the number of calls the process has made so far, so that the same
  call may succeed once and fail the next time.
\<close>

section \<open>Pointers to strings\<close>

text \<open>
  One element of a \<open>char **\<close> vector: a string, the null pointer, or a slot the program
  has not written yet.
\<close>

datatype slot = Str string | Null | Uninit

definition slot_at :: "slot list \<Rightarrow> nat \<Rightarrow> slot outcome" where
  "slot_at v i = (if i < length v
     then (if v ! i = Uninit then Undef Uninit_read else Ok (v ! i))
     else Undef Out_of_bounds)"

definition strcmp_slot :: "slot \<Rightarrow> string \<Rightarrow> int outcome" where
  "strcmp_slot p w = (case p of Str x \<Rightarrow> Ok (strcmp x w) | Null \<Rightarrow> Undef Null_deref
     | Uninit \<Rightarrow> Undef Uninit_read)"

definition the_string :: "slot \<Rightarrow> string outcome" where
  "the_string p = (case p of Str x \<Rightarrow> Ok x | Null \<Rightarrow> Undef Null_deref | Uninit \<Rightarrow> Undef Uninit_read)"

text \<open>A null-terminated vector of the given strings, with anything behind the terminator.\<close>

definition argv_of :: "string list \<Rightarrow> slot list \<Rightarrow> bool" where
  "argv_of ws v \<longleftrightarrow> (\<exists>junk. v = map Str ws @ Null # junk)"

text \<open>The first \<open>length ws\<close> slots hold the given strings.\<close>

definition vec_holds :: "slot list \<Rightarrow> string list \<Rightarrow> bool" where
  "vec_holds v ws \<longleftrightarrow> (\<exists>junk. v = map Str ws @ junk)"

lemma argv_ofI [intro]: "argv_of ws (map Str ws @ Null # junk)"
  by (auto simp: argv_of_def)

lemma argv_of_length: "argv_of ws v \<Longrightarrow> length ws < length v"
  by (auto simp: argv_of_def)

lemma argv_of_nth: "argv_of ws v \<Longrightarrow> i < length ws \<Longrightarrow> v ! i = Str (ws ! i)"
  by (auto simp: argv_of_def nth_append)

lemma argv_of_end: "argv_of ws v \<Longrightarrow> v ! length ws = Null"
  by (auto simp: argv_of_def nth_append)

lemma slot_at_argv [simp]: "argv_of ws v \<Longrightarrow> i < length ws \<Longrightarrow> slot_at v i = Ok (Str (ws ! i))"
  using argv_of_length[of ws v] argv_of_nth[of ws v i] by (auto simp: slot_at_def)

lemma slot_at_argv_end [simp]: "argv_of ws v \<Longrightarrow> slot_at v (length ws) = Ok Null"
  using argv_of_length[of ws v] argv_of_end[of ws v] by (auto simp: slot_at_def)

lemma strcmp_slot_Str [simp]: "strcmp_slot (Str x) w = Ok (strcmp x w)"
  by (simp add: strcmp_slot_def)

lemma strcmp_slot_Null [simp]: "strcmp_slot Null w = Undef Null_deref"
  by (simp add: strcmp_slot_def)

lemma the_string_simps [simp]: "the_string (Str x) = Ok x" "the_string Null = Undef Null_deref"
  by (simp_all add: the_string_def)

lemma vec_holds_length: "vec_holds v ws \<Longrightarrow> length ws \<le> length v"
  by (auto simp: vec_holds_def)

lemma vec_holds_Nil [simp]: "vec_holds v []"
  by (simp add: vec_holds_def)

lemma vec_holds_store:
  assumes "vec_holds v ws" and "length ws < length v"
  shows "vec_holds (v[length ws := Str w]) (ws @ [w])"
proof -
  obtain junk where v: "v = map Str ws @ junk" using assms(1) by (auto simp: vec_holds_def)
  with assms(2) obtain j js where "junk = j # js" by (cases junk) auto
  with v show ?thesis by (auto simp: vec_holds_def list_update_append)
qed

lemma vec_holds_terminate:
  assumes "vec_holds v ws" and "length ws < length v"
  shows "argv_of ws (v[length ws := Null])"
proof -
  obtain junk where v: "v = map Str ws @ junk" using assms(1) by (auto simp: vec_holds_def)
  with assms(2) obtain j js where "junk = j # js" by (cases junk) auto
  with v show ?thesis by (auto simp: argv_of_def list_update_append)
qed

lemma vec_holds_grow:
  "vec_holds v ws \<Longrightarrow> length ws \<le> n \<Longrightarrow> vec_holds (take n v @ rest) ws"
  by (auto simp: vec_holds_def)

text \<open>
  The loop \<open>while (v[i] != NULL) { if (strcmp (v[i], key) == 0) ...; i++; }\<close>: the index
  where it stops and whether the key was found there.
\<close>

function scan :: "slot list \<Rightarrow> string \<Rightarrow> nat \<Rightarrow> (nat \<times> bool) outcome" where
  "scan v key i =
     (if i < length v
      then (case v ! i of
          Null \<Rightarrow> Ok (i, False)
        | Uninit \<Rightarrow> Undef Uninit_read
        | Str w \<Rightarrow> if strcmp w key = 0 then Ok (i, True) else scan v key (Suc i))
      else Undef Out_of_bounds)"
  by pat_completeness auto
termination
  by (relation "measure (\<lambda>(v, _, i). length v - i)") auto

declare scan.simps [simp del]

text \<open>Where a key first occurs in a list, its length if it does not.\<close>

definition first_index :: "'a \<Rightarrow> 'a list \<Rightarrow> nat" where
  "first_index k ws = length (takeWhile (\<lambda>w. w \<noteq> k) ws)"

lemma first_index_less_iff: "first_index k ws < length ws \<longleftrightarrow> k \<in> set ws"
  by (simp add: first_index_def length_takeWhile_neq_iff)

lemma first_index_le: "first_index k ws \<le> length ws"
  by (simp add: first_index_def length_takeWhile_le)

lemma first_index_nth: "k \<in> set ws \<Longrightarrow> ws ! first_index k ws = k"
  by (simp add: first_index_def nth_length_takeWhile_eq)

lemma first_index_not_before: "j < first_index k ws \<Longrightarrow> ws ! j \<noteq> k"
proof -
  assume j: "j < first_index k ws"
  then have "takeWhile (\<lambda>w. w \<noteq> k) ws ! j \<in> set (takeWhile (\<lambda>w. w \<noteq> k) ws)"
    by (simp add: first_index_def)
  then have "takeWhile (\<lambda>w. w \<noteq> k) ws ! j \<noteq> k" by (auto dest: set_takeWhileD)
  then show ?thesis using j by (simp add: first_index_def takeWhile_nth)
qed

lemma first_index_Nil [simp]: "first_index k [] = 0"
  by (simp add: first_index_def)

lemma first_index_Cons [simp]:
  "first_index k (w # ws) = (if w = k then 0 else Suc (first_index k ws))"
  by (simp add: first_index_def)

lemma scan_argv:
  assumes "argv_of ws v" and "i \<le> length ws"
  shows "scan v key i = Ok (i + first_index key (drop i ws), key \<in> set (drop i ws))"
  using assms
proof (induction "length ws - i" arbitrary: i)
  case 0
  with 0(3) have i: "i = length ws" by simp
  show ?case using argv_of_length[OF 0(2)] argv_of_end[OF 0(2)]
    by (subst scan.simps) (simp add: i)
next
  case (Suc n)
  then have i: "i < length ws" by simp
  then obtain w us where d: "drop i ws = w # us" by (cases "drop i ws") auto
  then have w: "ws ! i = w" and us: "drop (Suc i) ws = us"
    by (metis nth_via_drop, metis drop_Suc list.sel(3) tl_drop)
  have v: "v ! i = Str w" "i < length v"
    using argv_of_nth[of ws v i] argv_of_length[of ws v] Suc.prems i w by auto
  have IH: "scan v key (Suc i) = Ok (Suc i + first_index key us, key \<in> set us)"
    using Suc i us by auto
  have "scan v key i = (if strcmp w key = 0 then Ok (i, True) else scan v key (Suc i))"
    using v by (subst scan.simps) simp
  then show ?case by (auto simp: IH d)
qed

section \<open>The process and its environment\<close>

datatype stream = Terminal | FileR string | FileW string | PipeR nat | PipeW nat

datatype wstatus = Exited int | Signaled int | Stopped int | Continued

datatype event =
    EvOpen string bool  \<comment> \<open>path; for writing\<close>
  | EvChdir string
  | EvWait int

record os =
  os_malloc :: "nat \<Rightarrow> nat \<Rightarrow> nat option"
  os_strerror :: "int \<Rightarrow> string"
  os_strsignal :: "int \<Rightarrow> string"
  os_errno :: "nat \<Rightarrow> int"
  os_fork :: "nat \<Rightarrow> int"
  os_wait :: "nat \<Rightarrow> wstatus option"
  os_open :: "nat \<Rightarrow> string \<Rightarrow> bool"
  os_pipe :: "nat \<Rightarrow> bool"
  os_exec :: "nat \<Rightarrow> string \<Rightarrow> bool"
  os_chdir :: "nat \<Rightarrow> string \<Rightarrow> bool"
  os_hostname :: "nat \<Rightarrow> string option"
  os_getcwd :: "nat \<Rightarrow> string option"
  os_uid :: int
  os_pwuid :: "int \<Rightarrow> (string \<times> int) option"
  os_getenv :: "string \<Rightarrow> string option"

record proc =
  ticks :: nat
  pin :: string
  pout :: string
  perr :: string
  perrno :: int
  pfds :: "nat \<Rightarrow> stream option"
  plive :: nat
  pevents :: "event list"

text \<open>A freshly started program: the terminal on the three standard descriptors.\<close>

definition std_fds :: "nat \<Rightarrow> stream option" where
  "std_fds n = (if n < 3 then Some Terminal else None)"

definition start_proc :: "string \<Rightarrow> proc" where
  "start_proc input = \<lparr>ticks = 0, pin = input, pout = [], perr = [], perrno = 0,
     pfds = std_fds, plive = 0, pevents = []\<rparr>"

text \<open>What \<open>malloc\<close> promises: a block it returns has at least the size asked for.\<close>

definition malloc_ok :: "os \<Rightarrow> bool" where
  "malloc_ok os \<longleftrightarrow> (\<forall>t n c. os_malloc os t n = Some c \<longrightarrow> n \<le> c)"

definition malloc_total :: "os \<Rightarrow> bool" where
  "malloc_total os \<longleftrightarrow> (\<forall>t n. os_malloc os t n \<noteq> None)"

text \<open>
  A concrete environment for the witnesses: \<open>malloc\<close> gives exactly the bytes asked for,
  every call succeeds, and children end with status 0.
\<close>

definition exact_os :: os where
  "exact_os = \<lparr>os_malloc = (\<lambda>t n. Some n), os_strerror = (\<lambda>e. ''error '' @ dec e),
     os_strsignal = (\<lambda>n. ''signal '' @ dec n), os_errno = (\<lambda>t. 2), os_fork = (\<lambda>t. 4711),
     os_wait = (\<lambda>t. Some (Exited 0)), os_open = (\<lambda>t p. True), os_pipe = (\<lambda>t. True),
     os_exec = (\<lambda>t p. True), os_chdir = (\<lambda>t p. True), os_hostname = (\<lambda>t. Some ''host''),
     os_getcwd = (\<lambda>t. Some ''/home''), os_uid = 1000, os_pwuid = (\<lambda>u. Some (''user'', 1000)),
     os_getenv = (\<lambda>v. None)\<rparr>"

lemma exact_os_malloc [simp]: "os_malloc exact_os t n = Some n"
  by (simp add: exact_os_def)

lemma malloc_ok_exact [simp]: "malloc_ok exact_os"
  by (simp add: malloc_ok_def)

lemma malloc_total_exact [simp]: "malloc_total exact_os"
  by (simp add: malloc_total_def)

definition tick :: "(nat, proc) cmd" where
  "tick s = (Ok (ticks s), s\<lparr>ticks := Suc (ticks s)\<rparr>)"

definition set_errno :: "os \<Rightarrow> nat \<Rightarrow> (unit, proc) cmd" where
  "set_errno os t = modifyc (\<lambda>s. s\<lparr>perrno := os_errno os t\<rparr>)"

definition printf :: "string \<Rightarrow> (unit, proc) cmd" where
  "printf str = modifyc (\<lambda>s. s\<lparr>pout := pout s @ str\<rparr>)"

definition eprintf :: "string \<Rightarrow> (unit, proc) cmd" where
  "eprintf str = modifyc (\<lambda>s. s\<lparr>perr := perr s @ str\<rparr>)"

definition perror :: "os \<Rightarrow> string \<Rightarrow> (unit, proc) cmd" where
  "perror os msg s = eprintf (msg @ '': '' @ os_strerror os (perrno s) @ [newline]) s"

definition event :: "event \<Rightarrow> (unit, proc) cmd" where
  "event e = modifyc (\<lambda>s. s\<lparr>pevents := pevents s @ [e]\<rparr>)"

lemma runs_printf [simp]: "runs (printf str) Q E s \<longleftrightarrow> Q () (s\<lparr>pout := pout s @ str\<rparr>)"
  by (simp add: printf_def)

lemma runs_eprintf [simp]: "runs (eprintf str) Q E s \<longleftrightarrow> Q () (s\<lparr>perr := perr s @ str\<rparr>)"
  by (simp add: eprintf_def)

lemma runs_perror [simp]:
  "runs (perror os msg) Q E s \<longleftrightarrow>
     Q () (s\<lparr>perr := perr s @ msg @ '': '' @ os_strerror os (perrno s) @ [newline]\<rparr>)"
  by (simp add: runs_def perror_def eprintf_def)

lemma runs_fail_exit [simp]:
  "runs (seqc (perror os msg) (exitc n)) Q E s \<longleftrightarrow> E n"
  "runs (seqc (printf str) (exitc n)) Q E s \<longleftrightarrow> E n"
  by (simp_all add: runs_def seqc_def bindc_def perror_def eprintf_def printf_def)

lemma tick_app [simp, cmd_simps]: "tick s = (Ok (ticks s), s\<lparr>ticks := Suc (ticks s)\<rparr>)"
  by (simp add: tick_def)

lemma printf_app [simp, cmd_simps]: "printf str s = (Ok (), s\<lparr>pout := pout s @ str\<rparr>)"
  by (simp add: printf_def)

lemma eprintf_app [simp, cmd_simps]: "eprintf str s = (Ok (), s\<lparr>perr := perr s @ str\<rparr>)"
  by (simp add: eprintf_def)

lemma perror_app [simp, cmd_simps]:
  "perror os msg s = (Ok (), s\<lparr>perr := perr s @ msg @ '': '' @ os_strerror os (perrno s) @ [newline]\<rparr>)"
  by (simp add: perror_def)

lemma event_app [simp, cmd_simps]: "event e s = (Ok (), s\<lparr>pevents := pevents s @ [e]\<rparr>)"
  by (simp add: event_def)

lemma fail_exit_not_Ok [simp]:
  "seqc (perror os msg) (exitc n) s \<noteq> (Ok a, t)" "seqc (printf str) (exitc n) s \<noteq> (Ok a, t)"
  by (simp_all add: seqc_def)

lemma set_errno_app [simp, cmd_simps]: "set_errno os t s = (Ok (), s\<lparr>perrno := os_errno os t\<rparr>)"
  by (simp add: set_errno_def)

section \<open>System calls in a row\<close>

text \<open>
  \<open>if (call == -1) { perror (msg); exit (1); }\<close>, one call after the other: for each the
  message, and the \<open>errno\<close> it sets if it fails.  \<open>warned\<close> is the same without the \<open>exit\<close>.
\<close>

type_synonym syscall = "string \<times> int option"

definition fails_with :: "os \<Rightarrow> string \<Rightarrow> int \<Rightarrow> (unit, proc) cmd" where
  "fails_with os msg e = seqc (modifyc (\<lambda>s. s\<lparr>perrno := e\<rparr>)) (perror os msg)"

fun checked :: "os \<Rightarrow> syscall list \<Rightarrow> (unit, proc) cmd" where
  "checked os [] = ret ()"
| "checked os ((msg, r) # cs) = (case r of None \<Rightarrow> checked os cs | Some e \<Rightarrow> seqc (fails_with os msg e) (exitc 1))"

fun warned :: "os \<Rightarrow> syscall list \<Rightarrow> (unit, proc) cmd" where
  "warned os [] = ret ()"
| "warned os ((msg, r) # cs) = seqc (case r of None \<Rightarrow> ret () | Some e \<Rightarrow> fails_with os msg e) (warned os cs)"

lemma fails_with_app [simp, cmd_simps]:
  "fails_with os msg e s = (Ok (), s\<lparr>perrno := e, perr := perr s @ msg @ '': '' @ os_strerror os e @ [newline]\<rparr>)"
  by (simp add: fails_with_def seqc_def)

text \<open>The calls all succeed, or the first that fails is reported and ends the program.\<close>

lemma checked_all: "\<forall>c \<in> set cs. snd c = None \<Longrightarrow> checked os cs s = (Ok (), s)"
  by (induction cs) auto

lemma checked_fails:
  "\<forall>c \<in> set cs. snd c = None \<Longrightarrow> checked os (cs @ (msg, Some e) # ds) s =
     (Exit 1, s\<lparr>perrno := e, perr := perr s @ msg @ '': '' @ os_strerror os e @ [newline]\<rparr>)"
  by (induction cs) (auto simp: seqc_def)

lemma checked_Ok_iff: "checked os cs s = (Ok (), t) \<longleftrightarrow> (\<forall>c \<in> set cs. snd c = None) \<and> t = s"
proof (induction cs)
  case (Cons c cs)
  then show ?case by (cases c) (auto simp: seqc_def split: option.splits)
qed auto

lemma checked_continues: "seqc (checked os cs) f s = (Ok a, t) \<Longrightarrow> f s = (Ok a, t)"
proof (induction cs)
  case (Cons c cs)
  then show ?case by (cases c) (auto simp: seqc_def bindc_def fails_with_def split: option.splits)
qed (simp add: seqc_def)

lemma warned_all: "\<forall>c \<in> set cs. snd c = None \<Longrightarrow> warned os cs s = (Ok (), s)"
  by (induction cs) (auto simp: seqc_def)

lemma warned_runs: "\<exists>t. warned os cs s = (Ok (), t) \<and> pout t = pout s"
proof (induction cs arbitrary: s)
  case (Cons c cs)
  show ?case
  proof (cases "snd c")
    case None
    then show ?thesis using Cons by (cases c) (simp add: seqc_def)
  next
    case (Some e)
    then show ?thesis
      using Cons[of "s\<lparr>perrno := e, perr := perr s @ fst c @ '': '' @ os_strerror os e @ [newline]\<rparr>"]
      by (cases c) (simp add: seqc_def)
  qed
qed simp

lemma warned_exit:
  assumes "pout s = out"
  shows "\<exists>t. seqc (warned os cs) (exitc n) s = (Exit n, t) \<and> pout t = out"
  using warned_runs[of os cs s] assms by (auto simp: seqc_def)

section \<open>The heap\<close>

text \<open>
  \<open>malloc\<close> gives the number of usable bytes of the new block; \<open>realloc\<close> of a
  vector keeps what fits; a pointer has eight bytes.
\<close>

definition malloc :: "os \<Rightarrow> nat \<Rightarrow> (nat option, proc) cmd" where
  "malloc os n = bindc tick (\<lambda>t s. case os_malloc os t n of
       None \<Rightarrow> (Ok None, s\<lparr>perrno := os_errno os t\<rparr>)
     | Some c \<Rightarrow> (Ok (Some c), s\<lparr>plive := Suc (plive s)\<rparr>))"

definition malloc_vec :: "os \<Rightarrow> nat \<Rightarrow> (slot list option, proc) cmd" where
  "malloc_vec os n = bindc (malloc os n) (\<lambda>r. ret (map_option (\<lambda>c. replicate (c div 8) Uninit) r))"

definition realloc_vec :: "os \<Rightarrow> slot list \<Rightarrow> nat \<Rightarrow> (slot list option, proc) cmd" where
  "realloc_vec os v n = bindc tick (\<lambda>t s. case os_malloc os t n of
       None \<Rightarrow> (Ok None, s\<lparr>perrno := os_errno os t\<rparr>)
     | Some c \<Rightarrow> (Ok (Some (take (c div 8) v @ replicate (c div 8 - length v) Uninit)), s))"

definition store :: "slot list \<Rightarrow> nat \<Rightarrow> slot \<Rightarrow> (slot list, proc) cmd" where
  "store v i p = liftc (if i < length v then Ok (v[i := p]) else Undef Heap_overflow)"

text \<open>
  \<open>p = malloc (n); if (p == NULL) { fail; exit (1); } strcpy (p, str);\<close> : the copy
  needs one byte more than the string has characters.
\<close>

definition malloc_strcpy :: "os \<Rightarrow> nat \<Rightarrow> string \<Rightarrow> (unit, proc) cmd \<Rightarrow> (slot, proc) cmd" where
  "malloc_strcpy os n str fail = bindc (malloc os n) (\<lambda>r. case r of
       None \<Rightarrow> seqc fail (exitc 1)
     | Some c \<Rightarrow> if length str < c then ret (Str str) else undefc Heap_overflow)"

definition free :: "(unit, proc) cmd" where
  "free = modifyc (\<lambda>s. s\<lparr>plive := plive s - 1\<rparr>)"

lemma free_app [simp, cmd_simps]: "free s = (Ok (), s\<lparr>plive := plive s - 1\<rparr>)"
  by (simp add: free_def)

lemma store_app [cmd_simps]:
  "store v i p s = (if i < length v then Ok (v[i := p]) else Undef Heap_overflow, s)"
  by (simp add: store_def)

lemma malloc_app [cmd_simps]:
  "malloc os n s = (case os_malloc os (ticks s) n of
       None \<Rightarrow> (Ok None, s\<lparr>ticks := Suc (ticks s), perrno := os_errno os (ticks s)\<rparr>)
     | Some c \<Rightarrow> (Ok (Some c), s\<lparr>ticks := Suc (ticks s), plive := Suc (plive s)\<rparr>))"
  by (simp add: malloc_def split: option.split)

end
