(* ===== verification/ShellParse.thy ===== *)
theory ShellParse
  imports CProc
begin

text \<open>
  \<open>parse\<close> and \<open>free_argv\<close> of the two shells (SP_HW3/parse.c and
  SP_HW5/Part2/parse.c): the command line is cut into words with \<open>strtok\<close> and the words
  are copied into a growing vector.  The names of SP_HW3 end in 3, those of SP_HW5/Part2 in 5.
  Both use the allocator of \<open>CProc\<close>, so a copy that does not fit its block is
  \<open>Undef Heap_overflow\<close>.
\<close>

section \<open>The definitions\<close>

definition delim :: string where
  "delim = [CHR '' '', CHR 0x09, newline]"

text \<open>
  The body of \<open>while (token)\<close>, the same in both shells: make room for one more pointer,
  copy the token into a block of its own and install it at \<open>count\<close>.
\<close>

definition add_token :: "os \<Rightarrow> string \<Rightarrow> slot list \<Rightarrow> nat \<Rightarrow> (slot list, proc) cmd" where
  "add_token os token newArgv count =
     bindc (realloc_vec os newArgv ((count + 1) * 8)) (\<lambda>v. case v of
         None \<Rightarrow> seqc (perror os ''realloc newArgv failed'') (exitc 1)
       | Some newArgv \<Rightarrow>
           bindc (malloc_strcpy os (length token + 1) token
                    (printf (''malloc newArgv['' @ dec (int count) @ ''] failed''))) (\<lambda>p.
           store newArgv count p))"

text \<open>
  The end of \<open>parse\<close>, the same in both shells: room for the terminator, a block that is
  allocated for it and then lost, and the null pointer over it.
\<close>

definition terminate_argv :: "os \<Rightarrow> slot list \<Rightarrow> nat \<Rightarrow> (slot list option, proc) cmd" where
  "terminate_argv os newArgv count =
     bindc (realloc_vec os newArgv ((count + 1) * 8)) (\<lambda>v. case v of
         None \<Rightarrow> seqc (perror os ''realloc newArgv failed'') (exitc 1)
       | Some newArgv \<Rightarrow>
           bindc (malloc os 8) (\<lambda>r. case r of
               None \<Rightarrow> seqc (printf (''malloc newArgv['' @ dec (int count) @ ''] failed'')) (exitc 1)
             | Some _ \<Rightarrow> bindc (store newArgv count Null) (\<lambda>newArgv. ret (Some newArgv))))"

text \<open>SP_HW5/Part2/parse.c.  The scanner's position is the rest of the line.\<close>

function parse5_loop :: "os \<Rightarrow> string \<Rightarrow> slot list \<Rightarrow> nat \<Rightarrow> (slot list \<times> nat, proc) cmd" where
  "parse5_loop os rest newArgv count s =
     (case strtok delim rest of
        None \<Rightarrow> (Ok (newArgv, count), s)
      | Some (token, rest') \<Rightarrow>
          bindc (add_token os token newArgv count) (\<lambda>newArgv.
          parse5_loop os rest' newArgv (count + 1)) s)"
  by pat_completeness auto
termination
  by (relation "measure (\<lambda>(_, rest, _, _, _). length rest)") (auto dest: strtok_shorter)

declare parse5_loop.simps [simp del]

definition parse5 :: "os \<Rightarrow> string option \<Rightarrow> (slot list option, proc) cmd" where
  "parse5 os line = (case line of
       None \<Rightarrow> ret None
     | Some l \<Rightarrow> if strcmp l [newline] = 0 then ret None
     else (case strtok delim l of
       None \<Rightarrow> ret None
     | Some (token, rest) \<Rightarrow>
         bindc (malloc_vec os (1 * 8)) (\<lambda>v. case v of
             None \<Rightarrow> seqc (perror os ''malloc newArgv failed'') (exitc 1)
           | Some newArgv \<Rightarrow>
               bindc (malloc_strcpy os (length token + 1) token (perror os ''malloc newArgv[0] failed'')) (\<lambda>p.
               bindc (store newArgv 0 p) (\<lambda>newArgv.
               bindc (parse5_loop os rest newArgv 1) (\<lambda>(newArgv, count).
               terminate_argv os newArgv count))))))"

text \<open>
  SP_HW3/parse.c differs in three places: only a null line is rejected up front, the block of the
  first token has no room for its terminator, and every token is printed.
\<close>

definition show_token :: "nat \<Rightarrow> string \<Rightarrow> string" where
  "show_token i tok = ''['' @ dec (int i) @ ''] : '' @ tok @ [newline]"

function parse3_loop :: "os \<Rightarrow> string \<Rightarrow> slot list \<Rightarrow> nat \<Rightarrow> (slot list \<times> nat, proc) cmd" where
  "parse3_loop os rest newArgv count s =
     (case strtok delim rest of
        None \<Rightarrow> (Ok (newArgv, count), s)
      | Some (token, rest') \<Rightarrow>
          bindc (add_token os token newArgv count) (\<lambda>newArgv.
          bindc (printf (show_token count token)) (\<lambda>_.
          parse3_loop os rest' newArgv (count + 1))) s)"
  by pat_completeness auto
termination
  by (relation "measure (\<lambda>(_, rest, _, _, _). length rest)") (auto dest: strtok_shorter)

declare parse3_loop.simps [simp del]

definition parse3 :: "os \<Rightarrow> string option \<Rightarrow> (slot list option, proc) cmd" where
  "parse3 os line = (case line of
       None \<Rightarrow> ret None
     | Some l \<Rightarrow> (case strtok delim l of
       None \<Rightarrow> ret None
     | Some (token, rest) \<Rightarrow>
         bindc (malloc_vec os (1 * 8)) (\<lambda>v. case v of
             None \<Rightarrow> seqc (perror os ''malloc newArgv failed'') (exitc 1)
           | Some newArgv \<Rightarrow>
               bindc (malloc os (length token * 1)) (\<lambda>r. case r of
                   None \<Rightarrow> seqc (perror os ''malloc newArgv[0] failed'') (exitc 1)
                 | Some cap \<Rightarrow>
               seqc (printf (show_token 0 token))
               (bindc (if length token < cap then ret (Str token) else undefc Heap_overflow) (\<lambda>p.
               bindc (store newArgv 0 p) (\<lambda>newArgv.
               bindc (parse3_loop os rest newArgv 1) (\<lambda>(newArgv, count).
               terminate_argv os newArgv count))))))))"

text \<open>
  \<open>free_argv\<close>, the same loop in both shells: every string up to the null pointer, then the
  vector itself.
\<close>

function free_argv_loop :: "slot list \<Rightarrow> nat \<Rightarrow> (unit, proc) cmd" where
  "free_argv_loop oldArgv i s =
     (if i < length oldArgv
      then (case oldArgv ! i of
          Null \<Rightarrow> (Ok (), s)
        | Uninit \<Rightarrow> (Undef Uninit_read, s)
        | Str _ \<Rightarrow> seqc free (free_argv_loop oldArgv (Suc i)) s)
      else (Undef Out_of_bounds, s))"
  by pat_completeness auto
termination
  by (relation "measure (\<lambda>(v, i, _). length v - i)") auto

declare free_argv_loop.simps [simp del]

definition free_argv :: "slot list \<Rightarrow> (unit, proc) cmd" where
  "free_argv oldArgv = seqc (free_argv_loop oldArgv 0) free"

section \<open>The steps of a parse\<close>

text \<open>
  The outcomes a parse may have: a command vector of exactly the given words, or the exit an
  allocation failure leads to.
\<close>

definition parsed :: "string list \<Rightarrow> slot list option outcome \<Rightarrow> bool" where
  "parsed ws r \<longleftrightarrow> (case r of
       Ok None \<Rightarrow> ws = []
     | Ok (Some v) \<Rightarrow> ws \<noteq> [] \<and> argv_of ws v
     | Exit n \<Rightarrow> n = 1
     | _ \<Rightarrow> False)"

lemma parsed_simps [simp]:
  "parsed ws (Ok None) \<longleftrightarrow> ws = []"
  "parsed ws (Ok (Some v)) \<longleftrightarrow> ws \<noteq> [] \<and> argv_of ws v"
  "parsed ws (Exit k) \<longleftrightarrow> k = 1"
  by (auto simp: parsed_def)

text \<open>A failed allocation is the only way out: the parse then exits with status 1.\<close>

abbreviation no_memory :: "os \<Rightarrow> int \<Rightarrow> bool" where
  "no_memory os n \<equiv> n = 1 \<and> \<not> malloc_total os"

text \<open>The state after a step that took \<open>n\<close> more blocks and printed \<open>str\<close>.\<close>

definition grew :: "proc \<Rightarrow> nat \<Rightarrow> string \<Rightarrow> proc \<Rightarrow> bool" where
  "grew s n str t \<longleftrightarrow> plive t = plive s + n \<and> pout t = pout s @ str"

lemma grew_trans: "grew s m a t \<Longrightarrow> grew t n b u \<Longrightarrow> grew s (m + n) (a @ b) u"
  by (simp add: grew_def)

lemma grew_refl [simp]: "grew s 0 [] s"
  by (simp add: grew_def)

lemma realloc_vec_runs:
  assumes "malloc_ok os" and "vec_holds v ws" and "length ws \<le> n"
  shows "runs (realloc_vec os v (n * 8))
    (\<lambda>r t. grew s 0 [] t \<and> (case r of None \<Rightarrow> \<not> malloc_total os
       | Some v' \<Rightarrow> vec_holds v' ws \<and> n \<le> length v')) E s"
proof (cases "os_malloc os (ticks s) (n * 8)")
  case None
  then show ?thesis by (auto simp: runs_def realloc_vec_def malloc_total_def grew_def)
next
  case (Some c)
  then have "n * 8 \<le> c" using assms(1) by (auto simp: malloc_ok_def)
  then have n: "n \<le> c div 8" by simp
  let ?v = "take (c div 8) v @ replicate (c div 8 - length v) Uninit"
  have "vec_holds ?v ws" using vec_holds_grow[OF assms(2)] assms(3) n by simp
  moreover have "n \<le> length ?v" using n by simp
  ultimately show ?thesis using Some by (simp add: runs_def realloc_vec_def grew_def)
qed

lemma malloc_strcpy_runs:
  assumes "malloc_ok os" and "\<And>t. \<exists>t'. seqc fail (exitc 1 :: (slot, proc) cmd) t = (Exit 1, t')"
  shows "runs (malloc_strcpy os (length str + 1) str fail)
    (\<lambda>p t. p = Str str \<and> grew s 1 [] t) (no_memory os) s"
proof (cases "os_malloc os (ticks s) (length str + 1)")
  case None
  then show ?thesis
    using assms(2)[of "s\<lparr>ticks := Suc (ticks s), perrno := os_errno os (ticks s)\<rparr>"]
    by (auto simp: runs_def malloc_strcpy_def malloc_app malloc_total_def split: prod.splits outcome.splits)
next
  case (Some c)
  then have "length str < c" using assms unfolding malloc_ok_def by fastforce
  with Some show ?thesis by (simp add: runs_def malloc_strcpy_def malloc_app grew_def)
qed

lemma store_runs:
  "vec_holds v ws \<Longrightarrow> length ws < length v \<Longrightarrow> Q (v[length ws := p]) s \<Longrightarrow> runs (store v (length ws) p) Q E s"
  by (simp add: runs_def store_app)

lemma add_token_runs:
  assumes "malloc_ok os" and "vec_holds v ws"
  shows "runs (add_token os tok v (length ws))
    (\<lambda>v' t. vec_holds v' (ws @ [tok]) \<and> grew s 1 [] t) (no_memory os) s"
  unfolding add_token_def
proof (rule runs_bindc[OF realloc_vec_runs[OF assms le_add1]], goal_cases)
  case (1 r t)
  show ?case
  proof (cases r)
    case (Some v')
    with 1 have v': "vec_holds v' ws" "length ws < length v'" "grew s 0 [] t" by auto
    show ?thesis
      by (simp only: Some option.case, rule runs_bindc[OF malloc_strcpy_runs[OF assms(1)]])
        (auto intro!: store_runs[OF v'(1,2)] vec_holds_store[OF v'(1,2)] dest: grew_trans[OF v'(3)])
  qed (use 1 in simp)
qed

lemma terminate_argv_runs:
  assumes "malloc_ok os" and "vec_holds v ws"
  shows "runs (terminate_argv os v (length ws))
    (\<lambda>r t. (\<exists>v'. r = Some v' \<and> argv_of ws v') \<and> grew s 1 [] t) (no_memory os) s"
  unfolding terminate_argv_def
proof (rule runs_bindc[OF realloc_vec_runs[OF assms le_add1]], goal_cases)
  case (1 r t)
  show ?case
  proof (cases r)
    case (Some v')
    with 1 have v': "vec_holds v' ws" "length ws < length v'" "grew s 0 [] t" by auto
    show ?thesis
      by (cases "os_malloc os (ticks t) 8")
        (use v' vec_holds_terminate[OF v'(1,2)] in
          \<open>auto simp: Some runs_def bindc_def seqc_def malloc_app store_app malloc_total_def grew_def\<close>)
  qed (use 1 in simp)
qed

section \<open>The whole parse\<close>

lemma parse5_loop_runs:
  assumes "malloc_ok os" and "vec_holds v ws"
  shows "runs (parse5_loop os rest v (length ws))
    (\<lambda>(v', n) t. vec_holds v' (ws @ tokens delim rest) \<and> n = length (ws @ tokens delim rest)
       \<and> grew s (length (tokens delim rest)) [] t) (no_memory os) s"
  using assms(2)
proof (induction "length rest" arbitrary: rest v ws s rule: less_induct)
  case less
  show ?case
  proof (cases "strtok delim rest")
    case None
    then show ?thesis using less.prems by (simp add: runs_def parse5_loop.simps tokens_None)
  next
    case (Some p)
    then obtain tok rest' where st: "strtok delim rest = Some (tok, rest')" by (cases p) auto
    have eq: "runs (parse5_loop os rest v (length ws)) R E s =
      runs (bindc (add_token os tok v (length ws)) (\<lambda>v. parse5_loop os rest' v (length ws + 1))) R E s" for R E
      by (simp add: runs_def parse5_loop.simps[of os rest v] st)
    show ?thesis
      unfolding eq
    proof (rule runs_bindc[OF add_token_runs[OF assms(1) less.prems]], goal_cases)
      case (1 v' t)
      with less.hyps[OF strtok_shorter[OF st], of v' "ws @ [tok]" t] show ?case
        by (auto simp: tokens_Some[OF st] elim!: runs_conseq dest: grew_trans)
    qed
  qed
qed

lemma malloc_vec_one_runs:
  assumes "malloc_ok os"
  shows "runs (malloc_vec os (1 * 8))
    (\<lambda>r t. (case r of None \<Rightarrow> \<not> malloc_total os | Some v \<Rightarrow> grew s 1 [] t \<and> 0 < length v)) E s"
proof (cases "os_malloc os (ticks s) 8")
  case None
  then show ?thesis by (auto simp: runs_def malloc_vec_def malloc_app malloc_total_def)
next
  case (Some c)
  then have "8 \<le> c" using assms by (auto simp: malloc_ok_def)
  then show ?thesis using Some by (simp add: runs_def malloc_vec_def malloc_app grew_def)
qed

lemma words_of_strtok:
  "strtok delim l = Some (tok, rest) \<Longrightarrow> words_of (set delim) l = tok # tokens delim rest"
  using tokens_eq_words[of delim l] by (simp add: tokens_Some)

lemma words_of_strtok_None: "strtok delim l = None \<Longrightarrow> words_of (set delim) l = []"
  using tokens_eq_words[of delim l] by (simp add: tokens_None)

lemma words_of_newline [simp]: "words_of (set delim) [newline] = []"
  by (simp add: words_of_def delim_def)

text \<open>What the first word, once stored, is followed by: the rest of the parse.\<close>

lemma parse_rest_runs:
  assumes "malloc_ok os" and "vec_holds v ws"
    and "\<And>s. runs (loop v (length ws))
      (\<lambda>(v', n) t. vec_holds v' us \<and> n = length us \<and> grew s k (out us) t) (no_memory os) s"
  shows "runs (bindc (loop v (length ws)) (\<lambda>(newArgv, count). terminate_argv os newArgv count))
    (\<lambda>r t. (\<exists>v'. r = Some v' \<and> argv_of us v') \<and> grew s (k + 1) (out us) t) (no_memory os) s"
proof (rule runs_bindc[OF assms(3)], goal_cases)
  case (1 p t)
  then obtain v' where p: "p = (v', length us)" "vec_holds v' us" "grew s k (out us) t" by (cases p) auto
  show ?case
    unfolding p prod.case
    by (rule runs_conseq[OF terminate_argv_runs[OF assms(1) p(2)]]) (use grew_trans[OF p(3)] in fastforce)
qed

lemma parse5_runs:
  assumes "malloc_ok os"
  shows "runs (parse5 os (Some l))
    (\<lambda>r t. (case r of
        None \<Rightarrow> words_of (set delim) l = [] \<and> grew s 0 [] t
      | Some v \<Rightarrow> words_of (set delim) l \<noteq> [] \<and> argv_of (words_of (set delim) l) v
          \<and> grew s (length (words_of (set delim) l) + 2) [] t)) (no_memory os) s"
proof (cases "l = [newline]")
  case True
  then show ?thesis by (simp add: parse5_def)
next
  case nl: False
  show ?thesis
  proof (cases "strtok delim l")
    case None
    then show ?thesis using nl by (simp add: parse5_def words_of_strtok_None)
  next
    case (Some p)
    then obtain tok rest where st: "strtok delim l = Some (tok, rest)" by (cases p) auto
    note ws = words_of_strtok[OF st]
    have eq: "parse5 os (Some l) = bindc (malloc_vec os (1 * 8)) (\<lambda>v. case v of
             None \<Rightarrow> seqc (perror os ''malloc newArgv failed'') (exitc 1)
           | Some newArgv \<Rightarrow>
               bindc (malloc_strcpy os (length tok + 1) tok (perror os ''malloc newArgv[0] failed'')) (\<lambda>p.
               bindc (store newArgv 0 p) (\<lambda>newArgv.
               bindc (parse5_loop os rest newArgv 1) (\<lambda>(newArgv, count).
               terminate_argv os newArgv count))))"
      by (simp only: parse5_def st option.case prod.case strcmp_eq_0 nl if_False)
    show ?thesis
      unfolding eq
    proof (rule runs_bindc[OF malloc_vec_one_runs[OF assms]], goal_cases)
      case (1 r t)
      show ?case
      proof (cases r)
        case (Some v)
        with 1 have v: "length [] < length v" "grew s 1 [] t" by auto
        show ?thesis
          unfolding Some option.case
        proof (rule runs_bindc[OF malloc_strcpy_runs[OF assms]], goal_cases)
          case (2 p u)
          have h: "vec_holds (v[0 := Str tok]) [tok]"
            using vec_holds_store[OF vec_holds_Nil v(1), of tok] by simp
          have "runs (bindc (parse5_loop os rest (v[0 := Str tok]) (length [tok]))
                   (\<lambda>(newArgv, count). terminate_argv os newArgv count))
             (\<lambda>r t. (\<exists>v'. r = Some v' \<and> argv_of ([tok] @ tokens delim rest) v')
                \<and> grew u (length (tokens delim rest) + 1) [] t) (no_memory os) u"
            by (rule parse_rest_runs[OF assms h, where out = "\<lambda>_. []"]) (rule parse5_loop_runs[OF assms h])
          then have "runs (bindc (parse5_loop os rest (v[0 := Str tok]) 1)
                   (\<lambda>(newArgv, count). terminate_argv os newArgv count))
             (\<lambda>r t. case r of None \<Rightarrow> words_of (set delim) l = [] \<and> grew s 0 [] t
               | Some v \<Rightarrow> words_of (set delim) l \<noteq> [] \<and> argv_of (words_of (set delim) l) v
                  \<and> grew s (length (words_of (set delim) l) + 2) [] t) (no_memory os) u"
            using 2 v(2) by (auto simp: ws grew_def elim!: runs_conseq)
          then show ?case using 2 v(1) by (simp add: runs_bindc_iff runs_def[of "store _ _ _"] store_app)
        qed simp
      qed (use 1 in simp)
    qed
  qed
qed

text \<open>The same for SP_HW3, whose loop also prints.\<close>

fun shown :: "nat \<Rightarrow> string list \<Rightarrow> string" where
  "shown i [] = []"
| "shown i (w # ws) = show_token i w @ shown (Suc i) ws"

lemma parse3_loop_runs:
  assumes "malloc_ok os" and "vec_holds v ws"
  shows "runs (parse3_loop os rest v (length ws))
    (\<lambda>(v', n) t. vec_holds v' (ws @ tokens delim rest) \<and> n = length (ws @ tokens delim rest)
       \<and> grew s (length (tokens delim rest)) (shown (length ws) (tokens delim rest)) t) (no_memory os) s"
  using assms(2)
proof (induction "length rest" arbitrary: rest v ws s rule: less_induct)
  case less
  show ?case
  proof (cases "strtok delim rest")
    case None
    then show ?thesis using less.prems by (simp add: runs_def parse3_loop.simps tokens_None)
  next
    case (Some p)
    then obtain tok rest' where st: "strtok delim rest = Some (tok, rest')" by (cases p) auto
    have eq: "runs (parse3_loop os rest v (length ws)) R E s =
      runs (bindc (add_token os tok v (length ws)) (\<lambda>v. bindc (printf (show_token (length ws) tok))
        (\<lambda>_. parse3_loop os rest' v (length ws + 1)))) R E s" for R E
      by (simp add: runs_def parse3_loop.simps[of os rest v] st)
    show ?thesis
      unfolding eq
    proof (rule runs_bindc[OF add_token_runs[OF assms(1) less.prems]], goal_cases)
      case (1 v' t)
      let ?t = "t\<lparr>pout := pout t @ show_token (length ws) tok\<rparr>"
      have g: "grew s 1 (show_token (length ws) tok) ?t" using 1 by (simp add: grew_def)
      have "runs (parse3_loop os rest' v' (length (ws @ [tok])))
        (\<lambda>(v', n) t. vec_holds v' (ws @ tokens delim rest) \<and> n = length (ws @ tokens delim rest)
          \<and> grew s (length (tokens delim rest)) (shown (length ws) (tokens delim rest)) t) (no_memory os) ?t"
        using 1 less.hyps[OF strtok_shorter[OF st], of v' "ws @ [tok]" ?t]
        by (auto simp: tokens_Some[OF st] elim!: runs_conseq dest: grew_trans[OF g])
      then show ?case by (simp add: runs_bindc_iff)
    qed
  qed
qed

lemma parse3_runs:
  assumes "malloc_ok os" and "malloc_total os" and st: "strtok delim l = Some (tok, rest)"
    and cap: "os_malloc os (Suc (ticks s)) (length tok) = Some cap"
  shows "if length tok < cap
    then runs (parse3 os (Some l)) (\<lambda>r t. (\<exists>v. r = Some v \<and> argv_of (tok # tokens delim rest) v)
        \<and> pout t = pout s @ shown 0 (tok # tokens delim rest)) (\<lambda>_. False) s
    else fst (parse3 os (Some l) s) = Undef Heap_overflow"
proof -
  obtain c where c: "os_malloc os (ticks s) 8 = Some c" "8 \<le> c"
    using assms(1,2) unfolding malloc_ok_def malloc_total_def by (metis option.exhaust)
  let ?v = "replicate (c div 8) Uninit"
  let ?s1 = "s\<lparr>ticks := Suc (ticks s), plive := Suc (plive s)\<rparr>"
  let ?s2 = "?s1\<lparr>ticks := Suc (Suc (ticks s)), plive := Suc (Suc (plive s)), pout := pout s @ show_token 0 tok\<rparr>"
  have v: "length [] < length ?v" using c by auto
  let ?k = "\<lambda>p. bindc (store ?v 0 p) (\<lambda>newArgv. bindc (parse3_loop os rest newArgv 1)
       (\<lambda>(newArgv, count). terminate_argv os newArgv count))"
  have eq: "parse3 os (Some l) s =
      bindc (if length tok < cap then ret (Str tok) else undefc Heap_overflow) ?k ?s2"
    by (simp add: parse3_def st malloc_vec_def malloc_app c cap)
  have h: "vec_holds (?v[0 := Str tok]) [tok]"
    using vec_holds_store[OF vec_holds_Nil v, of tok] by simp
  have "runs (bindc (parse3_loop os rest (?v[0 := Str tok]) (length [tok]))
           (\<lambda>(newArgv, count). terminate_argv os newArgv count))
     (\<lambda>r t. (\<exists>v'. r = Some v' \<and> argv_of ([tok] @ tokens delim rest) v')
        \<and> grew ?s2 (length (tokens delim rest) + 1) (shown 1 (tokens delim rest)) t) (no_memory os) ?s2"
    using parse_rest_runs[OF assms(1) h, where us = "[tok] @ tokens delim rest" and
        out = "\<lambda>us. shown 1 (tl us)" and k = "length (tokens delim rest)" and
        loop = "parse3_loop os rest" and s = ?s2]
      parse3_loop_runs[OF assms(1) h, where rest = rest] by simp
  then have "runs (?k (Str tok)) (\<lambda>r t. (\<exists>v. r = Some v \<and> argv_of (tok # tokens delim rest) v)
        \<and> pout t = pout s @ shown 0 (tok # tokens delim rest)) (\<lambda>_. False) ?s2"
    using v assms(2)
    by (auto simp: runs_bindc_iff runs_def[of "store _ _ _"] store_app grew_def elim!: runs_conseq)
  then show ?thesis by (simp add: runs_def eq)
qed

lemma words_of_Cons_strtok:
  assumes "words_of (set delim) l = w # ws"
  obtains rest where "strtok delim l = Some (w, rest)" and "ws = tokens delim rest"
proof (cases "strtok delim l")
  case None
  then show ?thesis using assms words_of_strtok_None by auto
next
  case (Some p)
  then obtain tok rest where "strtok delim l = Some (tok, rest)" by (cases p) auto
  then show ?thesis using that assms words_of_strtok[of l tok rest] by simp
qed

section \<open>Freeing the vector\<close>

lemma free_argv_loop_argv:
  assumes "argv_of ws v" and "i \<le> length ws"
  shows "free_argv_loop v i s = (Ok (), s\<lparr>plive := plive s - (length ws - i)\<rparr>)"
  using assms(2)
proof (induction "length ws - i" arbitrary: i s)
  case 0
  with 0(2) have i: "i = length ws" by simp
  show ?case using argv_of_length[OF assms(1)] argv_of_end[OF assms(1)]
    by (simp add: i free_argv_loop.simps[of v "length ws"])
next
  case (Suc n)
  then have i: "i < length ws" by simp
  have v: "v ! i = Str (ws ! i)" "i < length v"
    using argv_of_nth[OF assms(1) i] argv_of_length[OF assms(1)] i by auto
  have "free_argv_loop v (Suc i) (s\<lparr>plive := plive s - 1\<rparr>) =
     (Ok (), s\<lparr>plive := plive s - 1\<rparr>\<lparr>plive := plive (s\<lparr>plive := plive s - 1\<rparr>) - (length ws - Suc i)\<rparr>)"
    using Suc i by auto
  with v i show ?case
    by (simp add: free_argv_loop.simps[of v i] Suc_diff_Suc)
qed

lemma free_argv_argv:
  "argv_of ws v \<Longrightarrow> free_argv v s = (Ok (), s\<lparr>plive := plive s - (length ws + 1)\<rparr>)"
  by (simp add: free_argv_def free_argv_loop_argv[of ws v 0])

section \<open>Properties\<close>



text \<open>A line written from words with the gaps behind them.\<close>

definition render :: "(string \<times> char \<times> string) list \<Rightarrow> string" where
  "render ps = concat (map (\<lambda>(w, d, gap). w @ d # gap) ps)"

lemma words_of_gap: "set gap \<subseteq> D \<Longrightarrow> words_of D (gap @ rest) = words_of D rest"
  by (induction gap) (auto simp: words_of_delim)

lemma words_of_render:
  assumes "\<forall>(w, d, gap) \<in> set ps. w \<noteq> [] \<and> set w \<inter> D = {} \<and> insert d (set gap) \<subseteq> D"
  shows "words_of D (render ps) = map fst ps"
  using assms
proof (induction ps)
  case (Cons p ps)
  obtain w d gap where p: "p = (w, d, gap)" by (cases p)
  then have "words_of D (render (p # ps)) = w # words_of D (gap @ render ps)"
    using Cons.prems words_of_word_delim[of w D d "gap @ render ps"] by (auto simp: render_def)
  then show ?case using Cons p words_of_gap[of gap D "render ps"] by auto
qed (simp add: render_def)

text \<open>
  Round trip: a line made of words (non-empty, without delimiters), each followed by at least
  one delimiter, is parsed back into the same words, when memory does not run out.
\<close>

theorem parse5_roundtrip:
  assumes "malloc_ok os" and "malloc_total os" and "ps \<noteq> []"
    and "\<forall>(w, d, gap) \<in> set ps. w \<noteq> [] \<and> set w \<inter> set delim = {} \<and> insert d (set gap) \<subseteq> set delim"
  shows "\<exists>v s'. parse5 os (Some (render ps)) s = (Ok (Some v), s') \<and> argv_of (map fst ps) v"
  using parse5_runs[OF assms(1), of "render ps" s] words_of_render[OF assms(4)] assms(2,3)
  by (auto simp: runs_def split: prod.splits outcome.splits option.splits)

theorem parse5_roundtrip_witness:
  "\<exists>v s'. parse5 exact_os (Some (render [(''cat'', CHR '' '', '' ''), (''f'', newline, [])])) (start_proc [])
     = (Ok (Some v), s') \<and> argv_of [''cat'', ''f''] v"
  using parse5_roundtrip[OF malloc_ok_exact malloc_total_exact,
      of "[(''cat'', CHR '' '', '' ''), (''f'', newline, [])]" "start_proc []"]
  by (simp add: delim_def)

text \<open>
  A memory leak in SP_HW5/Part2 (the same code is in SP_HW3): parsing a line with at least one
  word and freeing the result with \<open>free_argv\<close> leaves exactly one heap block behind, the one
  allocated for the terminator and overwritten by the null pointer.
\<close>

theorem parse5_free_leaks_one:
  assumes "malloc_ok os" and "malloc_total os" and "words_of (set delim) l \<noteq> []"
  shows "\<exists>s'. bindc (parse5 os (Some l)) (\<lambda>r. case r of None \<Rightarrow> ret () | Some v \<Rightarrow> free_argv v) s = (Ok (), s')
    \<and> plive s' = plive s + 1"
proof -
  have "runs (parse5 os (Some l)) (\<lambda>r t. \<exists>v. r = Some v \<and> argv_of (words_of (set delim) l) v
      \<and> plive t = plive s + (length (words_of (set delim) l) + 2)) (\<lambda>_. False) s"
    using parse5_runs[OF assms(1), of l s] assms(2,3)
    by (auto simp: runs_def grew_def split: prod.splits outcome.splits option.splits)
  then obtain r t where "parse5 os (Some l) s = (Ok r, t)" and "\<exists>v. r = Some v \<and> argv_of (words_of (set delim) l) v
      \<and> plive t = plive s + (length (words_of (set delim) l) + 2)"
    by (rule runs_OkE)
  then show ?thesis by (auto simp: free_argv_argv)
qed

theorem parse5_free_leaks_one_witness:
  "\<exists>s'. bindc (parse5 exact_os (Some ''ls'')) (\<lambda>r. case r of None \<Rightarrow> ret () | Some v \<Rightarrow> free_argv v) (start_proc [])
     = (Ok (), s') \<and> plive s' = 1"
  using parse5_free_leaks_one[OF malloc_ok_exact malloc_total_exact, of "''ls''" "start_proc []"]
  by (simp add: words_of_def delim_def start_proc_def)

text \<open>
  C3: SP_HW3/parse.c copies the first word into a block of \<open>strlen (token)\<close> bytes, one too
  few.  For a line with at least one word, and memory that does not run out, the call overflows that
  block exactly when the allocator gives it no more bytes than asked for; otherwise the slack of the
  allocator hides the error and the vector holds the words of the line.
\<close>

theorem parse3_overflows_iff:
  assumes "malloc_ok os" and "malloc_total os" and "words_of (set delim) l = w # ws"
  shows "if os_malloc os (Suc (ticks s)) (length w) = Some (length w)
    then fst (parse3 os (Some l) s) = Undef Heap_overflow
    else \<exists>v. fst (parse3 os (Some l) s) = Ok (Some v) \<and> argv_of (w # ws) v"
proof -
  obtain rest where st: "strtok delim l = Some (w, rest)" and ws: "ws = tokens delim rest"
    using words_of_Cons_strtok[OF assms(3)] .
  obtain cap where cap: "os_malloc os (Suc (ticks s)) (length w) = Some cap" "length w \<le> cap"
    using assms(1,2) unfolding malloc_ok_def malloc_total_def by (metis option.exhaust)
  show ?thesis
    using parse3_runs[OF assms(1,2) st cap(1)] cap ws
    by (auto simp: runs_def split: if_splits prod.splits outcome.splits)
qed

theorem parse3_overflows_iff_witness:
  "fst (parse3 exact_os (Some ''ls -l'') (start_proc [])) = Undef Heap_overflow"
  using parse3_overflows_iff[OF malloc_ok_exact malloc_total_exact, of "''ls -l''" "''ls''" "[''-l'']" "start_proc []"]
  by (simp add: words_of_def delim_def)

end
