(* ===== verification/ShellBuiltin.thy ===== *)
theory ShellBuiltin
  imports CProc
begin

text \<open>
  The built-in commands of the two shells (SP_HW3/builtin.c and SP_HW5/Part2/builtin.c): the lookup
  table, \<open>is_builtin\<close> with the handle it keeps for \<open>do_builtin\<close>, and the commands
  themselves.  Names of SP_HW3 end in 3, those of SP_HW5/Part2 in 5.
\<close>

section \<open>Loops over the argument vector\<close>

text \<open>\<open>for (i = 0; argv[i] != NULL; i++) len++;\<close>\<close>

function count_args :: "slot list \<Rightarrow> nat \<Rightarrow> nat outcome" where
  "count_args argv i =
     (if i < length argv
      then (case argv ! i of Null \<Rightarrow> Ok i | Uninit \<Rightarrow> Undef Uninit_read | Str _ \<Rightarrow> count_args argv (Suc i))
      else Undef Out_of_bounds)"
  by pat_completeness auto
termination
  by (relation "measure (\<lambda>(v, i). length v - i)") auto

declare count_args.simps [simp del]

text \<open>\<open>for (i = k; argv[i] != NULL; i++) { if (i != k) printf (" "); printf ("%s", argv[i]); }\<close>\<close>

function echo_loop :: "slot list \<Rightarrow> nat \<Rightarrow> nat \<Rightarrow> (unit, proc) cmd" where
  "echo_loop argv k i s =
     (if i < length argv
      then (case argv ! i of
          Null \<Rightarrow> (Ok (), s)
        | Uninit \<Rightarrow> (Undef Uninit_read, s)
        | Str w \<Rightarrow> bindc (if i \<noteq> k then printf '' '' else ret ()) (\<lambda>_.
                   bindc (printf w) (\<lambda>_.
                   echo_loop argv k (Suc i))) s)
      else (Undef Out_of_bounds, s))"
  by pat_completeness auto
termination
  by (relation "measure (\<lambda>(v, _, i, _). length v - i)") auto

declare echo_loop.simps [simp del]

section \<open>echo\<close>

text \<open>
  Both shells: with \<open>-n num\<close> the \<open>num\<close>-th of the following words is printed,
  otherwise all words.  \<open>k\<close> is the C variable of that name; \<open>n\<close> is only set, and only
  used, with \<open>-n\<close>.
\<close>

definition echo_body :: "os \<Rightarrow> slot list \<Rightarrow> slot \<Rightarrow> (unit, proc) cmd" where
  "echo_body os argv a1 =
     bindc (liftc (strcmp_slot a1 ''-n'')) (\<lambda>c.
     bindc (if c = 0
            then bindc (liftc (slot_at argv 2)) (\<lambda>a2.
                 bindc (liftc (the_string a2)) (\<lambda>t.
                 bindc (liftc (int_add (atoi t) 2)) (\<lambda>n. ret (n, 3))))
            else ret (0, 1)) (\<lambda>(n, k).
     if k = (1 :: nat)
     then seqc (echo_loop argv k k) (printf [newline])
     else bindc (liftc (count_args argv 0)) (\<lambda>len.
          if n \<le> 2 then seqc (perror os (''-n num, num is too small'' @ [newline])) (exitc 1)
          else if n \<ge> int len then seqc (perror os (''-n num, num is too big'' @ [newline])) (exitc 1)
          else bindc (liftc (slot_at argv (nat n))) (\<lambda>p.
               bindc (liftc (the_string p)) (\<lambda>t. printf (t @ [newline]))))))"

text \<open>SP_HW5/Part2 checks for a missing argument first, SP_HW3 does not.\<close>

definition bi_echo5 :: "os \<Rightarrow> slot list \<Rightarrow> (unit, proc) cmd" where
  "bi_echo5 os argv = bindc (liftc (slot_at argv 1)) (\<lambda>a1.
     if a1 = Null then printf (''at least one arguement for echo to copy.'' @ [newline])
     else echo_body os argv a1)"

definition bi_echo3 :: "os \<Rightarrow> slot list \<Rightarrow> (unit, proc) cmd" where
  "bi_echo3 os argv = bindc (liftc (slot_at argv 1)) (\<lambda>a1. echo_body os argv a1)"

section \<open>The other commands of SP_HW5/Part2\<close>

datatype builtin5 = Bi_builtin | Bi_echo | Bi_quit | Bi_cd | Bi_pwd | Bi_id | Bi_hostname

definition inbuilts5 :: "(string \<times> builtin5) list" where
  "inbuilts5 = [(''builtin'', Bi_builtin), (''echo'', Bi_echo), (''quit'', Bi_quit), (''exit'', Bi_quit),
     (''bye'', Bi_quit), (''logout'', Bi_quit), (''cd'', Bi_cd), (''pwd'', Bi_pwd), (''id'', Bi_id),
     (''hostname'', Bi_hostname)]"

text \<open>
  The search through a table, up to the entry with a null keyword (the end of the list here): the
  function of the first entry whose keyword equals the word.
\<close>

fun find_cmd :: "(string \<times> 'b) list \<Rightarrow> slot \<Rightarrow> 'b option outcome" where
  "find_cmd [] cmd = Ok None"
| "find_cmd ((keyword, do_it) # table) cmd =
     obind (strcmp_slot cmd keyword) (\<lambda>c. if c = 0 then Ok (Some do_it) else find_cmd table cmd)"

definition bi_builtin :: "slot list \<Rightarrow> (unit, proc) cmd" where
  "bi_builtin argv =
     bindc (liftc (slot_at argv 1)) (\<lambda>a1.
     bindc (liftc (find_cmd inbuilts5 a1)) (\<lambda>found.
     bindc (liftc (the_string a1)) (\<lambda>w.
     if found \<noteq> None then printf (w @ '' is a builtin feature.'' @ [newline])
     else printf (w @ '' is NOT a builtin feature.'' @ [newline]))))"

text \<open>\<open>chdir (NULL)\<close> fails with \<open>EFAULT\<close>.\<close>

definition bi_cd :: "os \<Rightarrow> slot list \<Rightarrow> (unit, proc) cmd" where
  "bi_cd os argv =
     bindc (liftc (slot_at argv 1)) (\<lambda>a1.
     bindc tick (\<lambda>t.
     case a1 of
       Str d \<Rightarrow> if os_chdir os t d then event (EvChdir d)
                else seqc (set_errno os t) (seqc (perror os ''chdir'') (exitc 1))
     | _ \<Rightarrow> seqc (set_errno os t) (seqc (perror os ''chdir'') (exitc 1))))"

definition bi_hostname :: "os \<Rightarrow> slot list \<Rightarrow> (unit, proc) cmd" where
  "bi_hostname os argv = bindc tick (\<lambda>t. case os_hostname os t of
       None \<Rightarrow> seqc (printf ''gethostname'') (exitc 1)
     | Some h \<Rightarrow> printf (''hostname: '' @ h @ [newline]))"

definition bi_id :: "os \<Rightarrow> slot list \<Rightarrow> (unit, proc) cmd" where
  "bi_id os argv = (case os_pwuid os (os_uid os) of
       None \<Rightarrow> seqc (printf (''getpwnam'' @ [newline])) (exitc 1)
     | Some (pw_name, pw_gid) \<Rightarrow>
         printf (''UserID: '' @ dec (os_uid os) @ ''('' @ pw_name @ ''), GroupID: '' @ dec pw_gid
           @ ''('' @ pw_name @ '')'' @ [newline]))"

definition bi_pwd :: "os \<Rightarrow> slot list \<Rightarrow> (unit, proc) cmd" where
  "bi_pwd os argv = bindc tick (\<lambda>t. case os_getcwd os t of
       None \<Rightarrow> seqc (printf (''getpwd'' @ [newline])) (exitc 1)
     | Some d \<Rightarrow> printf (d @ [newline]))"

definition bi_quit :: "slot list \<Rightarrow> (unit, proc) cmd" where
  "bi_quit argv = exitc 0"

fun run_builtin5 :: "os \<Rightarrow> builtin5 \<Rightarrow> slot list \<Rightarrow> (unit, proc) cmd" where
  "run_builtin5 os Bi_builtin argv = bi_builtin argv"
| "run_builtin5 os Bi_echo argv = bi_echo5 os argv"
| "run_builtin5 os Bi_quit argv = bi_quit argv"
| "run_builtin5 os Bi_cd argv = bi_cd os argv"
| "run_builtin5 os Bi_pwd argv = bi_pwd os argv"
| "run_builtin5 os Bi_id argv = bi_id os argv"
| "run_builtin5 os Bi_hostname argv = bi_hostname os argv"

section \<open>is_builtin and do_builtin\<close>

text \<open>
  The static pointer \<open>this\<close> couples the two: \<open>is_builtin\<close> returns 1 and sets it, or 0
  and leaves it; \<open>do_builtin\<close> calls through it.
\<close>

definition is_builtin5 :: "slot \<Rightarrow> builtin5 option \<Rightarrow> (int \<times> builtin5 option) outcome" where
  "is_builtin5 cmd this = obind (find_cmd inbuilts5 cmd) (\<lambda>r. case r of
       Some tableCommand \<Rightarrow> Ok (1, Some tableCommand)
     | None \<Rightarrow> Ok (0, this))"

definition do_builtin5 :: "os \<Rightarrow> builtin5 option \<Rightarrow> slot list \<Rightarrow> (unit, proc) cmd" where
  "do_builtin5 os this argv = (case this of
       None \<Rightarrow> undefc Null_deref
     | Some b \<Rightarrow> run_builtin5 os b argv)"

datatype builtin3 = Bi_exit3 | Bi_echo3

definition inbuilts3 :: "(string \<times> builtin3) list" where
  "inbuilts3 = [(''exit'', Bi_exit3), (''quit'', Bi_exit3), (''logout'', Bi_exit3), (''bye'', Bi_exit3),
     (''echo'', Bi_echo3)]"

definition bi_exit3 :: "slot list \<Rightarrow> (unit, proc) cmd" where
  "bi_exit3 argv = exitc 1"

fun run_builtin3 :: "os \<Rightarrow> builtin3 \<Rightarrow> slot list \<Rightarrow> (unit, proc) cmd" where
  "run_builtin3 os Bi_exit3 argv = bi_exit3 argv"
| "run_builtin3 os Bi_echo3 argv = bi_echo3 os argv"

definition is_builtin3 :: "slot \<Rightarrow> builtin3 option \<Rightarrow> (int \<times> builtin3 option) outcome" where
  "is_builtin3 cmd this = obind (find_cmd inbuilts3 cmd) (\<lambda>r. case r of
       Some tableCommand \<Rightarrow> Ok (1, Some tableCommand)
     | None \<Rightarrow> Ok (0, this))"

definition do_builtin3 :: "os \<Rightarrow> builtin3 option \<Rightarrow> slot list \<Rightarrow> (unit, proc) cmd" where
  "do_builtin3 os this argv = (case this of
       None \<Rightarrow> undefc Null_deref
     | Some b \<Rightarrow> run_builtin3 os b argv)"

section \<open>Facts about the loops and the tables\<close>

lemma find_cmd_Str: "find_cmd table (Str w) = Ok (map_of table w)"
  by (induction table) auto

lemma count_args_argv:
  assumes "argv_of ws v" and "i \<le> length ws"
  shows "count_args v i = Ok (length ws)"
  using assms(2)
proof (induction "length ws - i" arbitrary: i)
  case 0
  with 0(2) have i: "i = length ws" by simp
  show ?case using argv_of_length[OF assms(1)] argv_of_end[OF assms(1)]
    by (simp add: i count_args.simps[of v "length ws"])
next
  case (Suc n)
  then have i: "i < length ws" by simp
  then have "count_args v (Suc i) = Ok (length ws)" using Suc by auto
  then show ?case using argv_of_nth[OF assms(1) i] argv_of_length[OF assms(1)] i
    by (simp add: count_args.simps[of v i])
qed

text \<open>The words with a blank between them.\<close>

fun join :: "string list \<Rightarrow> string" where
  "join [] = []"
| "join [w] = w"
| "join (w # ws) = w @ '' '' @ join ws"

lemma join_Cons: "join (w # ws) = w @ concat (map ((#) CHR '' '') ws)"
  by (induction ws arbitrary: w) auto

lemma echo_loop_tail:
  assumes "argv_of ws v" and "k < i" and "i \<le> length ws"
  shows "echo_loop v k i s = (Ok (), s\<lparr>pout := pout s @ concat (map ((#) CHR '' '') (drop i ws))\<rparr>)"
  using assms(2,3)
proof (induction "length ws - i" arbitrary: i s)
  case 0
  with 0(3) have i: "i = length ws" by simp
  show ?case using argv_of_length[OF assms(1)] argv_of_end[OF assms(1)]
    by (simp add: i echo_loop.simps[of v k "length ws"])
next
  case (Suc n)
  then have i: "i < length ws" by simp
  let ?s = "s\<lparr>pout := (pout s @ '' '') @ ws ! i\<rparr>"
  have IH: "echo_loop v k (Suc i) ?s = (Ok (), ?s\<lparr>pout := pout ?s @ concat (map ((#) CHR '' '') (drop (Suc i) ws))\<rparr>)"
    using Suc i by auto
  have "drop i ws = ws ! i # drop (Suc i) ws" using Cons_nth_drop_Suc[OF i] by simp
  then have "concat (map ((#) CHR '' '') (drop i ws)) = CHR '' '' # ws ! i @ concat (map ((#) CHR '' '') (drop (Suc i) ws))"
    by simp
  then show ?case using argv_of_nth[OF assms(1) i] argv_of_length[OF assms(1)] i Suc.prems IH
    by (simp add: echo_loop.simps[of v k i])
qed

lemma echo_loop_all:
  assumes "argv_of (w # u # us) v"
  shows "echo_loop v 1 1 s = (Ok (), s\<lparr>pout := pout s @ join (u # us)\<rparr>)"
  using assms argv_of_length[OF assms] argv_of_nth[OF assms, of 1]
    echo_loop_tail[OF assms, of 1 2 "s\<lparr>pout := pout s @ u\<rparr>"]
  by (simp add: echo_loop.simps[of v "Suc 0" "Suc 0"] join_Cons numeral_2_eq_2)

section \<open>Properties\<close>

text \<open>What \<open>echo\<close> should print for its arguments, or how it ends.\<close>

definition echo_spec :: "string list \<Rightarrow> string outcome" where
  "echo_spec args =
     (if args = [] then Ok (''at least one arguement for echo to copy.'' @ [newline])
      else if hd args \<noteq> ''-n'' then Ok (join args @ [newline])
      else if tl args = [] then Undef Null_deref
      else let n = atoi (args ! 1) in
           if n > INT_MAX - 2 then Undef Signed_overflow
           else if 1 \<le> n \<and> n \<le> int (length args) - 2 then Ok (args ! (nat n + 1) @ [newline])
           else Exit 1)"

lemma echo_nth:
  assumes "argv_of (''echo'' # ''-n'' # num # us) v"
  shows "fst (bi_echo5 os v s) = (case echo_spec (''-n'' # num # us) of
        Ok _ \<Rightarrow> Ok () | Exit k \<Rightarrow> Exit k | Exec p as \<Rightarrow> Exec p as | Undef u \<Rightarrow> Undef u | Killed k \<Rightarrow> Killed k)
    \<and> (\<forall>out. echo_spec (''-n'' # num # us) = Ok out \<longrightarrow> snd (bi_echo5 os v s) = s\<lparr>pout := pout s @ out\<rparr>)"
proof -
  have a1: "slot_at v (Suc 0) = Ok (Str ''-n'')" using slot_at_argv[OF assms, of 1] by simp
  have a2: "slot_at v 2 = Ok (Str num)" using slot_at_argv[OF assms, of 2] by simp
  have cnt: "count_args v 0 = Ok (length us + 3)" using count_args_argv[OF assms, of 0] by simp
  have lo: "INT_MIN \<le> atoi num" using atoi_range[of num] by (simp add: int_range_def)
  let ?n = "atoi num"
  consider "?n > INT_MAX - 2" | "?n < 1" | "int (length us) < ?n" "1 \<le> ?n" "?n \<le> INT_MAX - 2"
    | "1 \<le> ?n" "?n \<le> int (length us)" "?n \<le> INT_MAX - 2" by linarith
  then show ?thesis
  proof cases
    case 1
    then show ?thesis
      by (simp add: bi_echo5_def echo_body_def a1 a2 int_add_def int_range_def echo_spec_def Let_def)
  next
    case 2
    then show ?thesis using lo
      by (simp add: bi_echo5_def echo_body_def a1 a2 cnt int_add_def int_range_def echo_spec_def Let_def
          INT_MIN_def INT_MAX_def)
  next
    case 3
    then show ?thesis
      by (simp add: bi_echo5_def echo_body_def a1 a2 cnt int_add_def int_range_def echo_spec_def Let_def
          INT_MIN_def INT_MAX_def)
  next
    case 4
    have n: "nat (?n + 2) = Suc (nat ?n + 1)" using 4 by simp
    have p: "slot_at v (Suc (nat ?n + 1)) = Ok (Str ((''-n'' # num # us) ! (nat ?n + 1)))"
      using slot_at_argv[OF assms, of "Suc (nat ?n + 1)"] 4 by simp
    show ?thesis using 4 p
      by (simp add: bi_echo5_def echo_body_def a1 a2 cnt int_add_def int_range_def echo_spec_def Let_def
          INT_MIN_def INT_MAX_def n)
  qed
qed

text \<open>
  The \<open>echo\<close> built-in of SP_HW5/Part2 on every command line \<open>echo u1 ... uk\<close>.
  Without arguments it prints its message; unless the first argument is \<open>-n\<close> it prints the
  arguments with single blanks and a newline; \<open>-n\<close> alone dereferences the null pointer; with
  \<open>-n num u1 ... uk\<close> it prints the word number \<open>num\<close> and a newline when
  \<open>1 \<le> num \<le> k\<close>, and otherwise terminates the whole shell with status 1 (unless
  \<open>num + 2\<close> overflows).
\<close>

theorem bi_echo5_behaviour:
  assumes "argv_of (''echo'' # args) v"
  shows "case echo_spec args of
      Ok out \<Rightarrow> bi_echo5 os v s = (Ok (), s\<lparr>pout := pout s @ out\<rparr>)
    | Exit k \<Rightarrow> fst (bi_echo5 os v s) = Exit k
    | Undef u \<Rightarrow> fst (bi_echo5 os v s) = Undef u
    | Exec p as \<Rightarrow> False
    | Killed k \<Rightarrow> False"
proof (cases args)
  case Nil
  then show ?thesis using assms slot_at_argv_end[OF assms] by (simp add: bi_echo5_def echo_spec_def)
next
  case (Cons a rest)
  have a1: "slot_at v (Suc 0) = Ok (Str a)" using slot_at_argv[OF assms, of 1] Cons by simp
  show ?thesis
  proof (cases "a = ''-n''")
    case False
    then show ?thesis using Cons echo_loop_all[of "''echo''" a rest v s] assms
      by (simp add: bi_echo5_def echo_body_def a1 echo_spec_def)
  next
    case n: True
    show ?thesis
    proof (cases rest)
      case Nil
      then show ?thesis using Cons n a1 slot_at_argv_end[OF assms]
        by (simp add: bi_echo5_def echo_body_def numeral_2_eq_2 echo_spec_def)
    next
      case (Cons num us)
      then have args: "args = ''-n'' # num # us" using \<open>args = a # rest\<close> n by simp
      have "echo_spec args \<noteq> Exec p as" "echo_spec args \<noteq> Killed k" for p as k by (simp_all add: echo_spec_def Let_def)
      then show ?thesis using echo_nth[of num us v os s] assms unfolding args
        by (cases "bi_echo5 os v s") (auto split: outcome.splits)
    qed
  qed
qed

theorem bi_echo5_behaviour_witness:
  "bi_echo5 exact_os (map Str [''echo'', ''-n'', ''2'', ''a'', ''b''] @ [Null]) (start_proc [])
     = (Ok (), (start_proc [])\<lparr>pout := ''b'' @ [newline]\<rparr>)"
proof -
  have a: "atoi ''2'' = 2"
    by (simp add: atoi_def strtol_def is_space_def strip_sign_def base_and_rest_def is_digit_in_def
        digit_val_def LONG_MAX_def LONG_MIN_def to_int32_def)
  have e: "echo_spec [''-n'', ''2'', ''a'', ''b''] = Ok (''b'' @ [newline])"
    by (simp add: echo_spec_def a INT_MAX_def Let_def)
  show ?thesis
    using bi_echo5_behaviour[OF argv_ofI[of "[''echo'', ''-n'', ''2'', ''a'', ''b'']" "[]"], of exact_os "start_proc []"]
    unfolding e by (simp add: start_proc_def)
qed

text \<open>
  Dispatch: for any command word, \<open>is_builtin\<close> of SP_HW5/Part2 followed, when it returns
  1, by \<open>do_builtin\<close> runs the command the table gives for that word, whatever the pointer
  \<open>this\<close> was before; it returns 0 exactly for the words that are not in the table.
\<close>

theorem builtin5_dispatch:
  "(case is_builtin5 (Str w) this of
      Ok (r, this') \<Rightarrow> (case map_of inbuilts5 w of
          Some b \<Rightarrow> r = 1 \<and> do_builtin5 os this' argv s = run_builtin5 os b argv s
        | None \<Rightarrow> r = 0 \<and> this' = this \<and> w \<notin> fst ` set inbuilts5)
    | _ \<Rightarrow> False)"
proof (cases "map_of inbuilts5 w")
  case None
  then have "w \<notin> fst ` set inbuilts5" by (simp add: map_of_eq_None_iff)
  then show ?thesis using None by (simp add: is_builtin5_def find_cmd_Str)
qed (simp add: is_builtin5_def find_cmd_Str do_builtin5_def)

text \<open>
  In SP_HW3 the command \<open>echo\<close> without arguments compares a null pointer: undefined
  behaviour, where SP_HW5/Part2 prints a message.
\<close>

theorem bi_echo3_without_arguments:
  assumes "argv_of [''echo''] v"
  shows "fst (bi_echo3 os v s) = Undef Null_deref \<and> fst (bi_echo5 os v s) = Ok ()"
  using slot_at_argv_end[OF assms] by (simp add: bi_echo3_def bi_echo5_def echo_body_def)

theorem bi_echo3_without_arguments_witness:
  "fst (bi_echo3 exact_os [Str ''echo'', Null] (start_proc [])) = Undef Null_deref"
  using bi_echo3_without_arguments[of "[Str ''echo'', Null]" exact_os "start_proc []"]
  by (auto simp: argv_of_def)

end
