(* ===== verification/ShellExec.thy ===== *)
theory ShellExec
  imports CProc
begin

text \<open>
  Running commands: \<open>is_background\<close>, \<open>run_command\<close> of both shells, and the
  redirections and pipelines of SP_HW5/Part2 (pipe_present.c, redirect_in.c, redirect_out.c,
  pipe_command.c).  A \<open>fork\<close> gives two processes that start from the same state; the
  functions that fork return how each process they started ends.
\<close>

section \<open>Descriptors and exec\<close>

definition free_fd :: "(nat \<Rightarrow> stream option) \<Rightarrow> nat option" where
  "free_fd fds = List.find (\<lambda>n. fds n = None) [0..<1024]"

text \<open>\<open>open\<close>: the lowest free descriptor, or \<open>None\<close> for -1.  A null path fails.\<close>

definition sys_open :: "os \<Rightarrow> slot \<Rightarrow> bool \<Rightarrow> (nat option, proc) cmd" where
  "sys_open os path wr = bindc tick (\<lambda>t s.
     case path of
       Str p \<Rightarrow> (case free_fd (pfds s) of
           Some fd \<Rightarrow> if os_open os t p
             then (Ok (Some fd), s\<lparr>pfds := (pfds s)(fd := Some (if wr then FileW p else FileR p)),
                                   pevents := pevents s @ [EvOpen p wr]\<rparr>)
             else (Ok None, s\<lparr>perrno := os_errno os t\<rparr>)
         | None \<Rightarrow> (Ok None, s\<lparr>perrno := os_errno os t\<rparr>))
     | _ \<Rightarrow> (Ok None, s\<lparr>perrno := os_errno os t\<rparr>))"

definition dup2 :: "nat \<Rightarrow> nat \<Rightarrow> (unit, proc) cmd" where
  "dup2 fd target = modifyc (\<lambda>s. if pfds s fd = None then s else s\<lparr>pfds := (pfds s)(target := pfds s fd)\<rparr>)"

text \<open>\<open>close\<close>: whether it succeeded.\<close>

definition sys_close :: "nat \<Rightarrow> (bool, proc) cmd" where
  "sys_close fd s = (Ok (pfds s fd \<noteq> None), s\<lparr>pfds := (pfds s)(fd := None)\<rparr>)"

definition sys_pipe :: "os \<Rightarrow> ((nat \<times> nat) option, proc) cmd" where
  "sys_pipe os = bindc tick (\<lambda>t s.
     if os_pipe os t
     then (case free_fd (pfds s) of
         Some r \<Rightarrow> (let fds = (pfds s)(r := Some (PipeR t)) in
           case free_fd fds of
             Some w \<Rightarrow> (Ok (Some (r, w)), s\<lparr>pfds := fds(w := Some (PipeW t))\<rparr>)
           | None \<Rightarrow> (Ok None, s\<lparr>perrno := os_errno os t\<rparr>))
       | None \<Rightarrow> (Ok None, s\<lparr>perrno := os_errno os t\<rparr>))
     else (Ok None, s\<lparr>perrno := os_errno os t\<rparr>))"

text \<open>The strings of a vector up to the null pointer, as \<open>exec\<close> copies them.\<close>

function args_of :: "slot list \<Rightarrow> nat \<Rightarrow> string list outcome" where
  "args_of v i =
     (if i < length v
      then (case v ! i of Null \<Rightarrow> Ok [] | Uninit \<Rightarrow> Undef Uninit_read
          | Str w \<Rightarrow> obind (args_of v (Suc i)) (\<lambda>ws. Ok (w # ws)))
      else Undef Out_of_bounds)"
  by pat_completeness auto
termination
  by (relation "measure (\<lambda>(v, i). length v - i)") auto

declare args_of.simps [simp del]

text \<open>
  \<open>execvp (v[0], v)\<close>: on success the process image is replaced, otherwise it sets
  \<open>errno\<close> and returns.
\<close>

definition execvp :: "os \<Rightarrow> slot list \<Rightarrow> (unit, proc) cmd" where
  "execvp os v =
     bindc (liftc (slot_at v 0)) (\<lambda>p0.
     bindc (liftc (the_string p0)) (\<lambda>f.
     bindc tick (\<lambda>t.
     if os_exec os t f then bindc (liftc (args_of v 0)) (\<lambda>as. liftc (Exec f as))
     else set_errno os t)))"

definition exit_errno :: "('a, proc) cmd" where
  "exit_errno s = (Exit (perrno s), s)"

lemma args_of_argv:
  assumes "argv_of ws v" and "i \<le> length ws"
  shows "args_of v i = Ok (drop i ws)"
  using assms(2)
proof (induction "length ws - i" arbitrary: i)
  case 0
  with 0(2) have i: "i = length ws" by simp
  show ?case using argv_of_length[OF assms(1)] argv_of_end[OF assms(1)]
    by (simp add: i args_of.simps[of v "length ws"])
next
  case (Suc n)
  then have i: "i < length ws" by simp
  have "args_of v (Suc i) = Ok (drop (Suc i) ws)" using Suc i by auto
  moreover have "drop i ws = ws ! i # drop (Suc i) ws" using Cons_nth_drop_Suc[OF i] by simp
  ultimately show ?case using argv_of_nth[OF assms(1) i] argv_of_length[OF assms(1)] i
    by (subst args_of.simps) simp
qed

lemma args_of_uninit:
  assumes "v = map Str ws @ Uninit # junk" and "i \<le> length ws"
  shows "args_of v i = Undef Uninit_read"
  using assms(2)
proof (induction "length ws - i" arbitrary: i)
  case 0
  with 0(2) have i: "i = length ws" by simp
  show ?case by (simp add: assms(1) i args_of.simps[of _ "length ws"] nth_append)
next
  case (Suc n)
  then have i: "i < length ws" by simp
  have "args_of v (Suc i) = Undef Uninit_read" using Suc i by auto
  then show ?case using i
    by (subst args_of.simps) (simp add: assms(1) nth_append)
qed

lemma execvp_argv:
  assumes "argv_of (w # ws) v"
  shows "execvp os v s = (if os_exec os (ticks s) w then (Exec w (w # ws), s\<lparr>ticks := Suc (ticks s)\<rparr>)
    else (Ok (), s\<lparr>ticks := Suc (ticks s), perrno := os_errno os (ticks s)\<rparr>))"
  using slot_at_argv[OF assms, of 0] args_of_argv[OF assms, of 0] by (simp add: execvp_def)

section \<open>Background and pipe symbols\<close>

text \<open>SP_HW3 looks for the symbol from the second word on, SP_HW5/Part2 from the first.\<close>

definition is_background3 :: "slot list \<Rightarrow> bool outcome" where
  "is_background3 myArgv = obind (slot_at myArgv 0) (\<lambda>p.
     if p = Null then Ok False
     else obind (scan myArgv ''&'' 1) (\<lambda>(i, found). Ok found))"

definition is_background5 :: "slot list \<Rightarrow> bool outcome" where
  "is_background5 myArgv = obind (slot_at myArgv 0) (\<lambda>p.
     if p = Null then Ok False
     else obind (scan myArgv ''&'' 0) (\<lambda>(i, found). Ok found))"

definition pipe_present :: "slot list \<Rightarrow> int outcome" where
  "pipe_present myCurrentArgv =
     obind (scan myCurrentArgv ''|'' 0) (\<lambda>(index, found).
     if index = 0 then Ok (- 1)
     else if found
     then obind (slot_at myCurrentArgv (index + 1)) (\<lambda>p. if p = Null then Ok (- 1) else Ok (int index))
     else Ok 0)"

section \<open>Redirection\<close>

text \<open>\<open>while (myArgv[i] != NULL) myArgv[i++] = NULL;\<close>\<close>

function null_from :: "slot list \<Rightarrow> nat \<Rightarrow> slot list outcome" where
  "null_from v i =
     (if i < length v
      then (case v ! i of Null \<Rightarrow> Ok v | Uninit \<Rightarrow> Undef Uninit_read
          | Str _ \<Rightarrow> null_from (v[i := Null]) (Suc i))
      else Undef Out_of_bounds)"
  by pat_completeness auto
termination
  by (relation "measure (\<lambda>(v, i). length v - i)") auto

declare null_from.simps [simp del]

text \<open>The result of the C function and the vector as it leaves it.\<close>

definition redirect_in :: "os \<Rightarrow> slot list \<Rightarrow> (int \<times> slot list, proc) cmd" where
  "redirect_in os myArgv =
     bindc (liftc (scan myArgv ''<'' 0)) (\<lambda>(i, found).
     if found
     then bindc (liftc (slot_at myArgv (i + 1))) (\<lambda>path.
          bindc (sys_open os path False) (\<lambda>fd. case fd of
              None \<Rightarrow> seqc (printf (''open'' @ [newline])) (exitc 1)
            | Some fd \<Rightarrow>
                seqc (dup2 fd 0)
                (seqc (sys_close fd)
                (bindc (liftc (null_from myArgv i)) (\<lambda>myArgv. ret (0, myArgv))))))
     else ret (- 1, myArgv))"

definition redirect_out :: "os \<Rightarrow> slot list \<Rightarrow> (int \<times> slot list, proc) cmd" where
  "redirect_out os myArgv =
     bindc (liftc (scan myArgv ''>'' 0)) (\<lambda>(i, found).
     if found
     then bindc (liftc (slot_at myArgv (i + 1))) (\<lambda>path.
          bindc (sys_open os path True) (\<lambda>fd. case fd of
              None \<Rightarrow> seqc (printf (''open'' @ [newline])) (exitc 1)
            | Some fd \<Rightarrow>
                seqc (dup2 fd 1)
                (seqc (sys_close fd)
                (bindc (liftc (null_from myArgv i)) (\<lambda>myArgv. ret (0, myArgv))))))
     else (\<lambda>s. seqc (printf (''redirect_in, errno: '' @ dec (perrno s))) (ret (- 1, myArgv)) s))"

section \<open>Pipelines\<close>

type_synonym ended = "unit outcome \<times> proc"

text \<open>
  The copy of the words before the pipe symbol: each word gets a block of \<open>strlen\<close> bytes.
\<close>

function copy_left :: "os \<Rightarrow> slot list \<Rightarrow> nat \<Rightarrow> slot list \<Rightarrow> nat \<Rightarrow> (slot list, proc) cmd" where
  "copy_left os myArgv idx left_argv i s =
     (if i < idx
      then bindc (liftc (slot_at myArgv i)) (\<lambda>p.
           bindc (liftc (the_string p)) (\<lambda>w.
           bindc (malloc_strcpy os (length w) w
                    (printf (''malloc left_argv['' @ dec (int i) @ ''] failed''))) (\<lambda>q.
           bindc (store left_argv i q) (\<lambda>left_argv.
           copy_left os myArgv idx left_argv (Suc i))))) s
      else (Ok left_argv, s))"
  by pat_completeness auto
termination
  by (relation "measure (\<lambda>(_, _, idx, _, i, _). idx - i)") auto

declare copy_left.simps [simp del]

text \<open>The copy of the words behind it, in a vector that grows with them.\<close>

function copy_right :: "os \<Rightarrow> slot list \<Rightarrow> nat \<Rightarrow> slot list \<Rightarrow> nat \<Rightarrow> (slot list \<times> nat, proc) cmd" where
  "copy_right os myArgv idx right_argv i s =
     (if i + idx + 1 < length myArgv
      then (case myArgv ! (i + idx + 1) of
          Null \<Rightarrow> (Ok (right_argv, i), s)
        | Uninit \<Rightarrow> (Undef Uninit_read, s)
        | Str w \<Rightarrow>
            bindc (realloc_vec os right_argv ((i + 1) * 8)) (\<lambda>v. case v of
                None \<Rightarrow> seqc (printf ''realloc right_argv failed'') (exitc 1)
              | Some right_argv \<Rightarrow>
                  bindc (malloc_strcpy os (length w) w
                           (printf (''malloc left_argv['' @ dec (int i) @ ''] failed''))) (\<lambda>q.
                  bindc (store right_argv i q) (\<lambda>right_argv.
                  copy_right os myArgv idx right_argv (Suc i)))) s)
      else (Undef Out_of_bounds, s))"
  by pat_completeness auto
termination
  by (relation "measure (\<lambda>(_, v, idx, _, i, _). length v - i)") auto

declare copy_right.simps [simp del]

text \<open>The two halves of the vector; the null pointers go one slot behind the terminator's place.\<close>

definition split_right :: "os \<Rightarrow> slot list \<Rightarrow> nat \<Rightarrow> slot list \<Rightarrow> (slot list \<times> slot list, proc) cmd" where
  "split_right os myArgv idx left_argv =
     bindc (malloc_vec os (1 * 8)) (\<lambda>v. case v of
         None \<Rightarrow> seqc (printf ''malloc right_argv failed'') (exitc 1)
       | Some right_argv \<Rightarrow>
           bindc (copy_right os myArgv idx right_argv 0) (\<lambda>(right_argv, i).
           bindc (store right_argv (i + 1) Null) (\<lambda>right_argv.
           ret (left_argv, right_argv))))"

definition split_argv :: "os \<Rightarrow> slot list \<Rightarrow> nat \<Rightarrow> (slot list \<times> slot list, proc) cmd" where
  "split_argv os myArgv idx =
     bindc (malloc_vec os (idx * 8)) (\<lambda>v. case v of
         None \<Rightarrow> seqc (printf ''malloc left_argv failed'') (exitc 1)
       | Some left_argv \<Rightarrow>
           bindc (copy_left os myArgv idx left_argv 0) (\<lambda>left_argv.
           bindc (store left_argv (idx + 1) Null) (split_right os myArgv idx)))"

text \<open>The end of \<open>pipe_and_exec\<close>, reached when nothing replaced the process.\<close>

definition give_up :: "os \<Rightarrow> (unit, proc) cmd" where
  "give_up os = seqc (perror os ''Couldn't fork or exec child process'') exit_errno"

text \<open>The talking parent and, up to the return of a failed \<open>execvp\<close>, the listening child.\<close>

definition left_side :: "os \<Rightarrow> nat \<Rightarrow> nat \<Rightarrow> slot list \<Rightarrow> (unit, proc) cmd" where
  "left_side os r w left_argv =
     bindc (sys_close r) (\<lambda>ok. if \<not> ok then seqc (printf ''close 1'') (exitc 1) else
     seqc (dup2 w 1)
     (bindc (sys_close w) (\<lambda>ok. if \<not> ok then seqc (printf ''close 2'') (exitc 1) else
     seqc (execvp os left_argv) (give_up os))))"

definition right_side :: "os \<Rightarrow> nat \<Rightarrow> nat \<Rightarrow> slot list \<Rightarrow> (unit, proc) cmd" where
  "right_side os r w right_argv =
     bindc (sys_close w) (\<lambda>ok. if \<not> ok then seqc (printf ''close 2'') (exitc 1) else
     seqc (dup2 r 0)
     (bindc (sys_close r) (\<lambda>ok. if \<not> ok then seqc (printf ''close 1'') (exitc 1) else
     execvp os right_argv)))"

lemma scan_Ok_bound: "scan v key i = Ok (j, b) \<Longrightarrow> j < length v"
proof (induction v key i rule: scan.induct)
  case (1 v key i)
  then show ?case
    by (auto simp: scan.simps[of v key i] split: if_splits slot.splits)
qed

lemma pipe_present_index:
  "pipe_present v = Ok n \<Longrightarrow> n \<noteq> - 1 \<Longrightarrow> n \<noteq> 0 \<Longrightarrow> 0 < n \<and> nat n < length v"
  by (auto simp: pipe_present_def obind_Ok_iff split: if_splits dest!: scan_Ok_bound)

function pipe_and_exec :: "os \<Rightarrow> slot list \<Rightarrow> proc \<Rightarrow> ended list" where
  "pipe_and_exec os myArgv s =
     (case pipe_present myArgv of
        Ok n \<Rightarrow>
          if n = - 1 then
            [seqc (eprintf (''Missing command next to pipe in commandline.'' @ [newline]))
               (seqc (modifyc (\<lambda>s. s\<lparr>perrno := 22\<rparr>)) (give_up os)) s]
          else if n = 0 then [seqc (execvp os myArgv) (give_up os) s]
          else (case bindc (split_argv os myArgv (nat n)) (\<lambda>(l, r).
                       bindc (sys_pipe os) (\<lambda>p. case p of
                           None \<Rightarrow> seqc (perror os ''pipe'') (exitc 1)
                         | Some (rfd, wfd) \<Rightarrow> bindc tick (\<lambda>t. ret (l, r, rfd, wfd, t)))) s of
              (Ok (l, r, rfd, wfd, t), s1) \<Rightarrow>
                if os_fork os t = - 1 then [seqc (set_errno os t) (give_up os) s1]
                else left_side os rfd wfd l s1
                  # (case right_side os rfd wfd r s1 of
                       (Ok (), s2) \<Rightarrow> pipe_and_exec os (drop (nat n + 1) myArgv) s2
                     | (e, s2) \<Rightarrow> [(e, s2)])
            | (e, s1) \<Rightarrow> [(obind e (\<lambda>_. Ok ()), s1)])
      | e \<Rightarrow> [(obind e (\<lambda>_. Ok ()), s)])"
  by pat_completeness auto
termination
  by (relation "measure (\<lambda>(_, v, _). length v)") (auto dest: pipe_present_index)

declare pipe_and_exec.simps [simp del]

section \<open>run_command\<close>

text \<open>SP_HW5/Part2: the child, from the \<open>fork\<close> on.\<close>

definition child5 :: "os \<Rightarrow> slot list \<Rightarrow> proc \<Rightarrow> ended list" where
  "child5 os myArgv s =
     (case bindc (redirect_in os myArgv) (\<lambda>(_, myArgv).
           bindc (redirect_out os myArgv) (\<lambda>(_, myArgv). ret myArgv)) s of
        (Ok myArgv, s') \<Rightarrow> pipe_and_exec os myArgv s'
      | (e, s') \<Rightarrow> [(obind e (\<lambda>_. Ok ()), s')])"

text \<open>The parent: wait for a foreground child and report an abnormal end.\<close>

definition waitpid :: "os \<Rightarrow> int \<Rightarrow> (wstatus option, proc) cmd" where
  "waitpid os pid = bindc tick (\<lambda>t. seqc (event (EvWait pid)) (case os_wait os t of
       None \<Rightarrow> seqc (set_errno os t) (ret None)
     | Some st \<Rightarrow> ret (Some st)))"

definition parent5 :: "os \<Rightarrow> bool \<Rightarrow> int \<Rightarrow> (unit, proc) cmd" where
  "parent5 os run_in_background pid =
     (if run_in_background then ret ()
      else bindc (waitpid os pid) (\<lambda>st. case st of
          None \<Rightarrow> undefc Uninit_read
        | Some (Exited n) \<Rightarrow>
            if n \<noteq> 0 then eprintf (''Child '' @ dec pid @ '' exited with error status '' @ dec n @ '': ''
              @ os_strerror os n @ [newline]) else ret ()
        | Some (Signaled n) \<Rightarrow>
            if n \<noteq> 0 then eprintf (''Child '' @ dec pid @ '' exited due to signal '' @ dec n @ '': ''
              @ os_strsignal os n @ [newline]) else ret ()
        | Some _ \<Rightarrow> ret ()))"

definition run_command5 :: "os \<Rightarrow> slot list \<Rightarrow> proc \<Rightarrow> ended \<times> ended list" where
  "run_command5 os myArgv s =
     (case is_background5 myArgv of
        Ok bg \<Rightarrow>
          (let t = ticks s; s' = s\<lparr>ticks := Suc t\<rparr>; pid = os_fork os t in
           if pid = - 1 then (seqc (set_errno os t) (seqc (perror os ''fork'') exit_errno) s', [])
           else (parent5 os bg pid s', child5 os myArgv s'))
      | e \<Rightarrow> ((obind e (\<lambda>_. Ok ()), s), []))"

text \<open>
  SP_HW3: the child cuts the vector at the background symbol, which it searches for from the first
  word on.
\<close>

definition child3 :: "os \<Rightarrow> slot list \<Rightarrow> (unit, proc) cmd" where
  "child3 os myArgv =
     bindc (liftc (is_background3 myArgv)) (\<lambda>bg.
     bindc (if bg
            then bindc (liftc (scan myArgv ''&'' 0)) (\<lambda>(i, found).
                 if found then store myArgv i Null else undefc Null_deref)
            else ret myArgv) (\<lambda>myArgv.
     seqc (execvp os myArgv) exit_errno))"

definition parent3 :: "os \<Rightarrow> slot list \<Rightarrow> int \<Rightarrow> (unit, proc) cmd" where
  "parent3 os myArgv pid =
     bindc (liftc (is_background3 myArgv)) (\<lambda>bg.
     if bg then ret ()
     else bindc (waitpid os pid) (\<lambda>st. case st of
         None \<Rightarrow> seqc (perror os ''waitpid'') (exitc 1)
       | Some (Exited n) \<Rightarrow> printf (''exited, status='' @ dec n @ [newline])
       | Some (Signaled n) \<Rightarrow> printf (''killed by signal '' @ dec n @ [newline])
       | Some (Stopped n) \<Rightarrow> printf (''stopped by signal '' @ dec n @ [newline])
       | Some Continued \<Rightarrow> printf (''continued'' @ [newline])))"

definition run_command3 :: "os \<Rightarrow> slot list \<Rightarrow> proc \<Rightarrow> ended \<times> ended list" where
  "run_command3 os myArgv s =
     (let t = ticks s; s' = s\<lparr>ticks := Suc t\<rparr>; pid = os_fork os t in
      if pid = - 1 then (seqc (set_errno os t) (seqc (perror os ''fork'') exit_errno) s', [])
      else (parent3 os myArgv pid s', [child3 os myArgv s']))"

end
