(* ===== verification/ShellExecFacts.thy ===== *)
theory ShellExecFacts
  imports ShellExec
begin

text \<open>
  What the functions of \<open>ShellExec\<close> do on null-terminated vectors: the symbols they find,
  the redirections, the descriptors of the two sides of a pipe and the programs that are run.
\<close>

section \<open>Searching the words\<close>


lemma is_background3_argv: "argv_of ws v \<Longrightarrow> is_background3 v = Ok (''&'' \<in> set (tl ws))"
  using scan_argv[of ws v 1 "''&''"] slot_at_argv_end[of ws v] slot_at_argv[of ws v 0]
  by (cases ws) (auto simp: is_background3_def)

text \<open>What \<open>pipe_present\<close> documents: -1 for a symbol in an illegal position, 0 for none.\<close>

definition pipe_spec :: "string list \<Rightarrow> int" where
  "pipe_spec ws =
     (if ws = [] then - 1
      else if ''|'' \<notin> set ws then 0
      else if hd ws = ''|'' \<or> Suc (first_index ''|'' ws) = length ws then - 1
      else int (first_index ''|'' ws))"

lemma pipe_present_argv:
  assumes "argv_of ws v"
  shows "pipe_present v = Ok (pipe_spec ws)"
proof -
  let ?i = "first_index ''|'' ws"
  have sc: "scan v ''|'' 0 = Ok (?i, ''|'' \<in> set ws)" using scan_argv[OF assms, of 0] by simp
  show ?thesis
  proof (cases "''|'' \<in> set ws")
    case True
    then have i: "?i < length ws" by (simp add: first_index_less_iff)
    have nx: "slot_at v (Suc ?i) = Ok (if Suc ?i = length ws then Null else Str (ws ! Suc ?i))"
      using i slot_at_argv_end[OF assms] slot_at_argv[OF assms, of "Suc ?i"] by auto
    have "?i = 0 \<longleftrightarrow> hd ws = ''|''" using True by (cases ws) auto
    then show ?thesis using True sc nx by (auto simp: pipe_present_def pipe_spec_def)
  next
    case False
    then have "?i = length ws" using first_index_less_iff[of "''|''" ws] first_index_le[of "''|''" ws] by simp
    then show ?thesis using False sc by (auto simp: pipe_present_def pipe_spec_def)
  qed
qed

section \<open>Cutting the vector\<close>

lemma null_from_nulls:
  "null_from (pre @ map Str rest @ Null # junk) (length pre)
    = Ok (pre @ replicate (length rest) Null @ Null # junk)"
proof (induction rest arbitrary: pre)
  case Nil
  then show ?case by (simp add: null_from.simps[of "pre @ Null # junk"] nth_append)
next
  case (Cons x xs)
  have "(pre @ Str x # map Str xs @ Null # junk)[length pre := Null] = (pre @ [Null]) @ map Str xs @ Null # junk"
    by (simp add: list_update_append)
  then show ?case using Cons[of "pre @ [Null]"]
    by (simp add: null_from.simps[of "pre @ Str x # map Str xs @ Null # junk"] nth_append)
qed

lemma null_from_argv:
  assumes "argv_of (us @ rest) v"
  shows "\<exists>v'. null_from v (length us) = Ok v' \<and> argv_of us v'"
proof -
  obtain junk where v: "v = map Str us @ map Str rest @ Null # junk"
    using assms by (auto simp: argv_of_def)
  have "null_from v (length us) = Ok (map Str us @ replicate (length rest) Null @ Null # junk)"
    using null_from_nulls[of "map Str us" rest junk] v by simp
  moreover have "argv_of us (map Str us @ replicate (length rest) Null @ Null # junk)"
    by (cases rest) (auto simp: argv_of_def)
  ultimately show ?thesis by blast
qed

section \<open>Descriptors\<close>

lemma free_fd_Some: "free_fd fds = Some n \<Longrightarrow> fds n = None"
  by (auto simp: free_fd_def find_Some_iff)

lemma sys_pipe_fds:
  assumes "sys_pipe os s = (Ok (Some (r, w)), s1)"
  shows "pfds s r = None" and "pfds s w = None" and "r \<noteq> w"
    and "pfds s1 = (pfds s)(r := Some (PipeR (ticks s)), w := Some (PipeW (ticks s)))"
proof -
  obtain r' where r': "free_fd (pfds s) = Some r'"
    using assms by (auto simp: sys_pipe_def Let_def split: if_splits option.splits)
  obtain w' where w': "free_fd ((pfds s)(r' := Some (PipeR (ticks s)))) = Some w'"
    using assms r' by (auto simp: sys_pipe_def Let_def split: if_splits option.splits)
  have eq: "r = r'" "w = w'" "pfds s1 = (pfds s)(r := Some (PipeR (ticks s)), w := Some (PipeW (ticks s)))"
    using assms r' w' by (auto simp: sys_pipe_def Let_def split: if_splits)
  have "((pfds s)(r' := Some (PipeR (ticks s)))) w' = None" using free_fd_Some[OF w'] .
  then have "w' \<noteq> r'" "pfds s w' = None" by (auto split: if_splits)
  then show "pfds s r = None" "pfds s w = None" "r \<noteq> w"
    and "pfds s1 = (pfds s)(r := Some (PipeR (ticks s)), w := Some (PipeW (ticks s)))"
    using free_fd_Some[OF r'] eq by auto
qed

lemma execvp_fds: "pfds (snd (execvp os v s)) = pfds s"
  by (auto simp: execvp_def bindc_def slot_at_def the_string_def set_errno_def modifyc_def split: outcome.splits slot.splits)

lemma give_up_fds: "pfds (snd (give_up os s)) = pfds s"
  by (simp add: give_up_def exit_errno_def)

lemma exec_or_give_up_fds: "pfds (snd (seqc (execvp os v) (give_up os) s)) = pfds s"
  using execvp_fds[of os v s] give_up_fds[of os]
  by (auto simp: seqc_def bindc_def split: prod.splits outcome.splits)

lemma left_side_fds:
  assumes "pfds s r \<noteq> None" and "pfds s w \<noteq> None" and "r \<noteq> w" and "1 < r" and "1 < w"
  shows "pfds (snd (left_side os r w l s)) = (pfds s)(r := None, 1 := pfds s w, w := None)"
  using assms exec_or_give_up_fds[of os l]
  by (auto simp: left_side_def sys_close_def dup2_def bindc_def seqc_def fun_upd_twist split: prod.splits outcome.splits)

lemma right_side_fds:
  assumes "pfds s r \<noteq> None" and "pfds s w \<noteq> None" and "r \<noteq> w" and "1 < r" and "1 < w"
  shows "pfds (snd (right_side os r w v s)) = (pfds s)(w := None, 0 := pfds s r, r := None)"
  using assms execvp_fds[of os v]
  by (auto simp: right_side_def sys_close_def dup2_def bindc_def seqc_def fun_upd_twist split: prod.splits outcome.splits)

section \<open>Redirections\<close>

lemma redirect_in_none: "argv_of ws v \<Longrightarrow> ''<'' \<notin> set ws \<Longrightarrow> redirect_in os v s = (Ok (- 1, v), s)"
  using scan_argv[of ws v 0 "''<''"] by (simp add: redirect_in_def)

lemma redirect_out_none:
  "argv_of ws v \<Longrightarrow> ''>'' \<notin> set ws \<Longrightarrow>
   redirect_out os v s = (Ok (- 1, v), s\<lparr>pout := pout s @ ''redirect_in, errno: '' @ dec (perrno s)\<rparr>)"
  using scan_argv[of ws v 0 "''>''"] by (simp add: redirect_out_def)

lemma first_index_append: "k \<notin> set us \<Longrightarrow> first_index k (us @ k # rest) = length us"
  by (simp add: first_index_def)

lemma redirect_in_file:
  assumes "argv_of (us @ ''<'' # f # rest) v" and "''<'' \<notin> set us"
    and "os_open os (ticks s) f" and "free_fd (pfds s) = Some fd" and "pfds s 0 \<noteq> None"
  shows "\<exists>v'. redirect_in os v s = (Ok (0, v'), s\<lparr>ticks := Suc (ticks s),
      pfds := (pfds s)(0 := Some (FileR f)), pevents := pevents s @ [EvOpen f False]\<rparr>) \<and> argv_of us v'"
proof -
  let ?ws = "us @ ''<'' # f # rest"
  have sc: "scan v ''<'' 0 = Ok (length us, True)"
    using scan_argv[OF assms(1), of 0 "''<''"] first_index_append[OF assms(2), of "f # rest"] by simp
  have path: "slot_at v (Suc (length us)) = Ok (Str f)"
    using slot_at_argv[OF assms(1), of "Suc (length us)"] by (simp add: nth_append)
  obtain v' where v': "null_from v (length us) = Ok v'" "argv_of us v'"
    using null_from_argv[OF assms(1)] by blast
  have fd: "pfds s fd = None" "fd \<noteq> 0" using free_fd_Some[OF assms(4)] assms(5) by (auto, metis option.distinct(1) gr0I)
  let ?s1 = "s\<lparr>ticks := Suc (ticks s), pfds := (pfds s)(fd := Some (FileR f)), pevents := pevents s @ [EvOpen f False]\<rparr>"
  have op: "sys_open os (Str f) False s = (Ok (Some fd), ?s1)"
    using assms(3,4) by (simp add: sys_open_def)
  have cl: "((pfds s)(fd := Some (FileR f), 0 := Some (FileR f), fd := None)) = (pfds s)(0 := Some (FileR f))"
    using fd by (auto simp: fun_eq_iff)
  show ?thesis using sc path op v' fd cl
    by (simp add: redirect_in_def dup2_def sys_close_def seqc_def bindc_def)
qed

text \<open>A command with no pipe symbol replaces the process, if the program exists.\<close>

lemma pipe_and_exec_plain:
  assumes "argv_of (c # cs) v" and "''|'' \<notin> set (c # cs)" and "os_exec os (ticks s) c"
  shows "pipe_and_exec os v s = [(Exec c (c # cs), s\<lparr>ticks := Suc (ticks s)\<rparr>)]"
proof -
  have "pipe_present v = Ok 0" using pipe_present_argv[OF assms(1)] assms(2) by (simp add: pipe_spec_def)
  then show ?thesis using execvp_argv[OF assms(1), of os s] assms(3)
    by (simp add: pipe_and_exec.simps[of os v s] seqc_def)
qed

section \<open>Pipelines\<close>

text \<open>Commands that cannot replace the process image.\<close>

definition never_exec :: "('a, 's) cmd \<Rightarrow> bool" where
  "never_exec m \<longleftrightarrow> (\<forall>s p as. fst (m s) \<noteq> Exec p as)"

lemma never_execD: "never_exec m \<Longrightarrow> fst (m s) \<noteq> Exec p as"
  by (simp add: never_exec_def)

lemma never_exec_bindc:
  assumes "never_exec m" and "\<And>a. never_exec (f a)"
  shows "never_exec (bindc m f)"
  unfolding never_exec_def
proof (intro allI)
  fix s p as
  show "fst (bindc m f s) \<noteq> Exec p as"
    using assms unfolding never_exec_def bindc_def
    by (auto split: prod.splits outcome.splits) (metis fst_conv)+
qed

lemma never_exec_seqc: "never_exec m \<Longrightarrow> never_exec n \<Longrightarrow> never_exec (seqc m n)"
  unfolding seqc_def by (rule never_exec_bindc)

lemma never_exec_basic:
  "never_exec (ret a)" "never_exec (exitc n)" "never_exec (undefc u)" "never_exec (modifyc f)"
  "never_exec (printf str)" "never_exec (eprintf str)" "never_exec (perror os str)" "never_exec tick"
  "never_exec exit_errno" "never_exec (set_errno os t)" "never_exec (sys_close fd)" "never_exec (dup2 x y)"
  by (simp_all add: never_exec_def exit_errno_def set_errno_def sys_close_def dup2_def)

lemma never_exec_heap:
  "never_exec (malloc os n)" "never_exec (malloc_vec os n)" "never_exec (realloc_vec os v n)"
  "never_exec (store v i p)" "never_exec (sys_pipe os)" "never_exec (liftc (slot_at v i))"
  "never_exec (liftc (the_string p))"
  by (auto simp: never_exec_def malloc_app malloc_vec_def realloc_vec_def store_app bindc_def sys_pipe_def Let_def
      slot_at_def the_string_def split: option.splits slot.splits)

lemmas never_exec_intros = never_exec_bindc never_exec_seqc never_exec_basic never_exec_heap

lemma never_exec_malloc_strcpy: "never_exec (malloc_strcpy os n str (printf msg))"
  unfolding malloc_strcpy_def
  by (intro never_exec_bindc never_exec_heap) (auto intro: never_exec_intros split: option.splits)

lemma never_exec_copy_left: "never_exec (copy_left os v idx l i)"
proof (induction "idx - i" arbitrary: l i)
  case 0
  then show ?case by (simp add: never_exec_def copy_left.simps)
next
  case (Suc n)
  then have "never_exec (bindc (liftc (slot_at v i)) (\<lambda>p.
           bindc (liftc (the_string p)) (\<lambda>w.
           bindc (malloc_strcpy os (length w) w
                    (printf (''malloc left_argv['' @ dec (int i) @ ''] failed''))) (\<lambda>q.
           bindc (store l i q) (\<lambda>left_argv.
           copy_left os v idx left_argv (Suc i))))))"
    by (intro never_exec_bindc never_exec_heap never_exec_malloc_strcpy Suc) simp
  then show ?case using Suc(2) unfolding never_exec_def by (subst copy_left.simps) simp
qed

lemma never_exec_copy_right: "never_exec (copy_right os v idx r i)"
proof (induction "length v - i" arbitrary: r i)
  case 0
  then show ?case by (simp add: never_exec_def copy_right.simps)
next
  case (Suc n)
  then have "never_exec (bindc (realloc_vec os r ((i + 1) * 8)) (\<lambda>v'. case v' of
                None \<Rightarrow> seqc (printf ''realloc right_argv failed'') (exitc 1)
              | Some right_argv \<Rightarrow>
                  bindc (malloc_strcpy os (length w) w
                           (printf (''malloc left_argv['' @ dec (int i) @ ''] failed''))) (\<lambda>q.
                  bindc (store right_argv i q) (\<lambda>right_argv.
                  copy_right os v idx right_argv (Suc i)))))" for w
    by (intro never_exec_bindc never_exec_heap)
      (auto intro!: never_exec_intros never_exec_malloc_strcpy split: option.splits)
  then show ?case unfolding never_exec_def by (subst copy_right.simps) (auto split: slot.splits)
qed

lemma never_exec_split_argv: "never_exec (split_argv os v idx)"
proof -
  have "never_exec (split_right os v idx l)" for l
    unfolding split_right_def
    by (intro never_exec_bindc never_exec_heap)
      (auto intro!: never_exec_intros never_exec_copy_right split: option.splits)
  then show ?thesis
    unfolding split_argv_def
    by (intro never_exec_bindc never_exec_heap)
      (auto intro!: never_exec_intros never_exec_copy_left split: option.splits)
qed

section \<open>The vectors of a pipeline\<close>

lemma malloc_vec_shape:
  assumes "malloc_ok os" and "malloc_vec os (n * 8) s = (Ok (Some v), t)"
  shows "\<exists>m. n \<le> m \<and> v = replicate m Uninit"
proof -
  obtain c where c: "os_malloc os (ticks s) (n * 8) = Some c" "v = replicate (c div 8) Uninit"
    using assms(2) by (auto simp: malloc_vec_def malloc_app bindc_def split: option.splits)
  then have "n * 8 \<le> c" using assms(1) by (auto simp: malloc_ok_def)
  then show ?thesis using c(2) by (intro exI[of _ "c div 8"]) auto
qed

lemma realloc_vec_shape:
  assumes "malloc_ok os" and "realloc_vec os (map Str us @ replicate m Uninit) (n * 8) s = (Ok (Some v), t)"
    and "length us < n"
  shows "\<exists>m'. 0 < m' \<and> v = map Str us @ replicate m' Uninit"
proof -
  let ?v = "map Str us @ replicate m Uninit"
  obtain c where c: "os_malloc os (ticks s) (n * 8) = Some c"
      "v = take (c div 8) ?v @ replicate (c div 8 - length ?v) Uninit"
    using assms(2) by (auto simp: realloc_vec_def split: option.splits)
  then have "n * 8 \<le> c" using assms(1) by (auto simp: malloc_ok_def)
  then have n: "length us < c div 8" using assms(3) by simp
  have "v = map Str us @ replicate (c div 8 - length us) Uninit"
    using c(2) n by (simp add: min_def replicate_add[symmetric])
  then show ?thesis using n by (intro exI[of _ "c div 8 - length us"]) auto
qed

lemma malloc_strcpy_result:
  "malloc_strcpy os n str (printf msg) s = (Ok p, t) \<Longrightarrow> p = Str str"
  by (auto simp: malloc_strcpy_def bindc_def seqc_def malloc_app split: option.splits if_splits)

lemma store_result: "store v i p s = (Ok v', t) \<longleftrightarrow> i < length v \<and> v' = v[i := p] \<and> t = s"
  by (auto simp: store_app)

lemma copy_left_shape:
  assumes "argv_of ws v" and "idx \<le> length ws" and "i \<le> idx"
    and "copy_left os v idx (map Str (take i ws) @ replicate m Uninit) i s = (Ok l, t)"
  shows "\<exists>m'. l = map Str (take idx ws) @ replicate m' Uninit"
  using assms(3,4)
proof (induction "idx - i" arbitrary: i m s)
  case 0
  then have "i = idx" by simp
  then show ?case using 0(3) by (auto simp: copy_left.simps[of os v idx _ idx])
next
  case (Suc n)
  then have i: "i < idx" by simp
  let ?l = "map Str (take i ws) @ replicate m Uninit"
  have p: "slot_at v i = Ok (Str (ws ! i))" using assms(1,2) i by simp
  obtain q u where q: "q = Str (ws ! i)" and st: "i < length ?l"
      and rec: "copy_left os v idx (?l[i := q]) (Suc i) u = (Ok l, t)"
    using Suc.prems(2) i p
    by (auto simp: copy_left.simps[of os v idx ?l i] store_result elim!: bindc_OkE dest: malloc_strcpy_result)
  obtain m' where m': "m = Suc m'" using st i assms(2) by (cases m) auto
  have "?l[i := q] = map Str (take (Suc i) ws) @ replicate m' Uninit"
    using i assms(2) q m' by (simp add: list_update_append take_Suc_conv_app_nth)
  then show ?case using Suc.hyps(1)[of "Suc i" m' u] rec i Suc.hyps(2) by auto
qed

lemma copy_right_shape:
  assumes "argv_of (us @ k # rs) v" and "i \<le> length rs" and "malloc_ok os"
    and "copy_right os v (length us) (map Str (take i rs) @ replicate m Uninit) i s = (Ok (r, j), t)"
  shows "j = length rs \<and> (\<exists>m'. r = map Str rs @ replicate m' Uninit)"
  using assms(2,4)
proof (induction "length rs - i" arbitrary: i m s)
  case 0
  then have "i = length rs" by simp
  moreover have "v ! (i + length us + 1) = Null" "i + length us + 1 < length v"
    using argv_of_end[OF assms(1)] argv_of_length[OF assms(1)] \<open>i = length rs\<close> by (simp_all add: add.commute)
  ultimately show ?case using 0(3) by (auto simp: copy_right.simps[of os v "length us" _ "length rs"] add.commute)
next
  case (Suc n)
  then have i: "i < length rs" by simp
  let ?r = "map Str (take i rs) @ replicate m Uninit"
  have v: "v ! (i + length us + 1) = Str (rs ! i)" "i + length us + 1 < length v"
    using argv_of_nth[OF assms(1), of "i + length us + 1"] argv_of_length[OF assms(1)] i
    by (simp_all add: nth_append)
  obtain r1 u1 where r1: "realloc_vec os ?r ((i + 1) * 8) s = (Ok (Some r1), u1)"
      and k: "bindc (malloc_strcpy os (length (rs ! i)) (rs ! i)
                (printf (''malloc left_argv['' @ dec (int i) @ ''] failed''))) (\<lambda>q.
              bindc (store r1 i q) (\<lambda>right_argv.
              copy_right os v (length us) right_argv (Suc i))) u1 = (Ok (r, j), t)"
    using Suc.prems(2) v
    by (auto simp: copy_right.simps[of os v "length us" ?r i] seqc_def bindc_def
        split: option.splits prod.splits outcome.splits)
  obtain m' where m': "0 < m'" "r1 = map Str (take i rs) @ replicate m' Uninit"
    using realloc_vec_shape[OF assms(3) r1] i by auto
  obtain u where rec: "copy_right os v (length us) (r1[i := Str (rs ! i)]) (Suc i) u = (Ok (r, j), t)"
    using k by (auto simp: store_result elim!: bindc_OkE dest: malloc_strcpy_result)
  obtain m'' where "m' = Suc m''" using m'(1) by (cases m') auto
  then have "r1[i := Str (rs ! i)] = map Str (take (Suc i) rs) @ replicate m'' Uninit"
    using m'(2) i by (simp add: list_update_append take_Suc_conv_app_nth)
  then show ?case using Suc.hyps(1)[of "Suc i" m'' u] rec i Suc.hyps(2) by auto
qed

lemma store_behind_gap:
  "store (map Str ws @ replicate m Uninit) (length ws + 1) Null s = (Ok v, t) \<Longrightarrow>
   \<exists>junk. v = map Str ws @ Uninit # Null # junk"
proof -
  assume "store (map Str ws @ replicate m Uninit) (length ws + 1) Null s = (Ok v, t)"
  then have m: "1 < m" and v: "v = (map Str ws @ replicate m Uninit)[length ws + 1 := Null]"
    by (auto simp: store_result)
  obtain m' where "m = Suc (Suc m')" using less_imp_Suc_add[OF m] by auto
  then show ?thesis using v by (simp add: list_update_append)
qed

lemma split_argv_shape:
  assumes "argv_of (us @ k # rs) v" and "malloc_ok os" and "split_argv os v (length us) s = (Ok (l, r), t)"
  shows "(\<exists>junk. l = map Str us @ Uninit # junk) \<and> (\<exists>junk. r = map Str rs @ Uninit # junk)"
proof -
  from assms(3) obtain v0 s0 where v0: "malloc_vec os (length us * 8) s = (Ok v0, s0)"
      and k0: "(case v0 of None \<Rightarrow> seqc (printf ''malloc left_argv failed'') (exitc 1)
       | Some left_argv \<Rightarrow>
           bindc (copy_left os v (length us) left_argv 0) (\<lambda>left_argv.
           bindc (store left_argv (length us + 1) Null) (split_right os v (length us)))) s0 = (Ok (l, r), t)"
    unfolding split_argv_def by (rule bindc_OkE)
  from k0 obtain l0 where l0: "v0 = Some l0" by (cases v0) auto
  from k0 obtain l1 s1 where l1: "copy_left os v (length us) l0 0 s0 = (Ok l1, s1)"
      and k1: "bindc (store l1 (length us + 1) Null) (split_right os v (length us)) s1 = (Ok (l, r), t)"
    unfolding l0 option.case by (rule bindc_OkE)
  from k1 obtain l2 s2 where l2: "store l1 (length us + 1) Null s1 = (Ok l2, s2)"
      and k2: "split_right os v (length us) l2 s2 = (Ok (l, r), t)"
    by (rule bindc_OkE)
  from k2 obtain v3 s3 where v3: "malloc_vec os (1 * 8) s2 = (Ok v3, s3)"
      and k3: "(case v3 of None \<Rightarrow> seqc (printf ''malloc right_argv failed'') (exitc 1)
       | Some right_argv \<Rightarrow>
           bindc (copy_right os v (length us) right_argv 0) (\<lambda>(right_argv, i).
           bindc (store right_argv (i + 1) Null) (\<lambda>right_argv.
           ret (l2, right_argv)))) s3 = (Ok (l, r), t)"
    unfolding split_right_def by (rule bindc_OkE)
  from k3 obtain r0 where r0: "v3 = Some r0" by (cases v3) auto
  from k3 obtain x s4 where x: "copy_right os v (length us) r0 0 s3 = (Ok x, s4)"
      and k4: "(case x of (right_argv, i) \<Rightarrow> bindc (store right_argv (i + 1) Null) (\<lambda>right_argv.
           ret (l2, right_argv))) s4 = (Ok (l, r), t)"
    unfolding r0 option.case by (rule bindc_OkE)
  obtain r1 j where r1: "x = (r1, j)" by (cases x)
  have l: "store l1 (length us + 1) Null s1 = (Ok l, s2)" and r: "store r1 (j + 1) Null s4 = (Ok r, t)"
    using k4 l2 by (auto simp: r1 bindc_eq_Ok)
  note x = x[unfolded r1]
  obtain m where m: "l0 = replicate m Uninit" using malloc_vec_shape[OF assms(2) v0[unfolded l0]] by auto
  obtain m1 where m1: "l1 = map Str us @ replicate m1 Uninit"
    using copy_left_shape[OF assms(1), of "length us" 0 os m s0 l1 s1] l1 m by auto
  obtain m2 where m2: "r0 = replicate m2 Uninit" using malloc_vec_shape[OF assms(2) v3[unfolded r0]] by auto
  obtain m3 where "j = length rs" "r1 = map Str rs @ replicate m3 Uninit"
    using copy_right_shape[OF assms(1) _ assms(2), of 0 m2 s3 r1 j s4] x m2 by auto
  then show ?thesis
    using store_behind_gap[of us m1 s1 l s2] l m1 store_behind_gap[of rs m3 s4 r t] r by auto
qed

text \<open>An unterminated vector: \<open>execvp\<close> fails or reads the missing slot.\<close>

lemma execvp_uninit:
  assumes "v = map Str (w # ws) @ Uninit # junk"
  shows "fst (execvp os v s) \<noteq> Exec p as"
    and "execvp os v s = (Ok (), t) \<Longrightarrow> \<not> os_exec os (ticks s) w"
  using args_of_uninit[OF assms, of 0] assms
  by (auto simp: execvp_def slot_at_def split: if_splits)

lemma never_exec_give_up: "never_exec (give_up os)"
  unfolding give_up_def by (intro never_exec_intros)

lemma left_side_uninit:
  assumes "l = map Str (w # ws) @ Uninit # junk"
  shows "never_exec (left_side os rfd wfd l)"
proof -
  have "never_exec (execvp os l)" using execvp_uninit(1)[OF assms] by (simp add: never_exec_def)
  then show ?thesis unfolding left_side_def
    by (auto intro!: never_exec_intros never_exec_give_up)
qed

lemma right_side_uninit:
  assumes "r = map Str (w # ws) @ Uninit # junk"
  shows "fst (right_side os rfd wfd r s) \<noteq> Exec p as"
    and "right_side os rfd wfd r s = (Ok (), t) \<Longrightarrow> \<exists>n. \<not> os_exec os n w"
proof -
  have ex: "never_exec (execvp os r)" using execvp_uninit(1)[OF assms] by (simp add: never_exec_def)
  have "never_exec (right_side os rfd wfd r)" unfolding right_side_def
    by (auto intro!: never_exec_intros ex)
  then show "fst (right_side os rfd wfd r s) \<noteq> Exec p as" by (rule never_execD)
  assume "right_side os rfd wfd r s = (Ok (), t)"
  then show "\<exists>n. \<not> os_exec os n w"
    using execvp_uninit(2)[OF assms] unfolding right_side_def seqc_def
    by (auto simp: bindc_eq_Ok split: if_splits)
qed

lemma pipe_spec_cases:
  obtains "pipe_spec ws = - 1"
    | "pipe_spec ws = 0" and "ws \<noteq> []" and "''|'' \<notin> set ws"
    | w us rs where "ws = (w # us) @ ''|'' # rs" and "rs \<noteq> []" and "pipe_spec ws = int (length (w # us))"
proof (cases "pipe_spec ws = - 1 \<or> ''|'' \<notin> set ws")
  case True
  then show ?thesis using that(1,2) by (auto simp: pipe_spec_def split: if_splits)
next
  case False
  then have "''|'' \<in> set ws" by simp
  then obtain us rs where ws: "ws = us @ ''|'' # rs" "''|'' \<notin> set us" by (meson split_list_first)
  then have i: "first_index ''|'' ws = length us" by (simp add: first_index_append)
  have "us \<noteq> []" "rs \<noteq> []" using False ws i by (auto simp: pipe_spec_def split: if_splits)
  then obtain w us' where "us = w # us'" by (cases us) auto
  then show ?thesis using that(3)[of w us' rs] ws i \<open>rs \<noteq> []\<close> by (auto simp: pipe_spec_def)
qed

lemma argv_of_drop: "argv_of (us @ k # rs) v \<Longrightarrow> argv_of rs (drop (length us + 1) v)"
  by (auto simp: argv_of_def)

lemma pipe_and_exec_never:
  assumes "malloc_ok os" and same: "\<And>t f. os_exec os t f = os_exec os 0 f"
  shows "argv_of ws v \<Longrightarrow> ''|'' \<in> set ws \<or> \<not> os_exec os 0 (hd ws) \<Longrightarrow>
    e \<in> set (pipe_and_exec os v s) \<Longrightarrow> fst e \<noteq> Exec p as"
proof (induction "length ws" arbitrary: ws v s e rule: less_induct)
  case less
  note pp = pipe_present_argv[OF less.prems(1)]
  show ?case
  proof (cases rule: pipe_spec_cases[of ws])
    case 1
    then show ?thesis using less.prems(3) pp never_execD[OF never_exec_give_up]
      by (auto simp: pipe_and_exec.simps[of os v s])
  next
    case 2
    obtain w us where ws: "ws = w # us" using 2(2) by (cases ws) auto
    have "\<not> os_exec os (ticks s) w" using less.prems(2) 2(3) ws same[of "ticks s" w] by simp
    then have "fst (seqc (execvp os v) (give_up os) s) \<noteq> Exec p as"
      using execvp_argv[of w us v os s] less.prems(1) ws never_execD[OF never_exec_give_up]
      by (simp add: seqc_def)
    then show ?thesis using less.prems(3) pp 2(1) by (simp add: pipe_and_exec.simps[of os v s])
  next
    case (3 w us rs)
    define n where n: "n = length (w # us)"
    have pn: "pipe_present v = Ok (int n)" "0 < n" using pp 3(3) n by simp_all
    let ?split = "bindc (split_argv os v n) (\<lambda>(l, r).
        bindc (sys_pipe os) (\<lambda>p. case p of
            None \<Rightarrow> seqc (perror os ''pipe'') (exitc 1)
          | Some (rfd, wfd) \<Rightarrow> bindc tick (\<lambda>t. ret (l, r, rfd, wfd, t))))"
    have ne: "never_exec ?split"
      by (intro never_exec_bindc never_exec_split_argv)
        (auto intro!: never_exec_intros split: option.splits)
    obtain x s1 where sp: "?split s = (x, s1)" by (cases "?split s")
    have unf: "pipe_and_exec os v s = (case (x, s1) of
              (Ok (l, r, rfd, wfd, t), s1) \<Rightarrow>
                if os_fork os t = - 1 then [seqc (set_errno os t) (give_up os) s1]
                else left_side os rfd wfd l s1
                  # (case right_side os rfd wfd r s1 of
                       (Ok (), s2) \<Rightarrow> pipe_and_exec os (drop (nat (int n) + 1) v) s2
                     | (e, s2) \<Rightarrow> [(e, s2)])
            | (e, s1) \<Rightarrow> [(obind e (\<lambda>_. Ok ()), s1)])"
      using pn sp by (simp add: pipe_and_exec.simps[of os v s])
    show ?thesis
    proof (cases x)
      case (Ok y)
      obtain l r rfd wfd t where y: "y = (l, r, rfd, wfd, t)" by (cases y)
      have av: "argv_of ((w # us) @ ''|'' # rs) v" using less.prems(1) 3(1) by simp
      obtain u where "split_argv os v (length (w # us)) s = (Ok (l, r), u)"
        using sp Ok y unfolding n by (auto simp: bindc_eq_Ok split: option.splits)
      then obtain j1 j2 where l: "l = map Str (w # us) @ Uninit # j1" and r: "r = map Str rs @ Uninit # j2"
        using split_argv_shape[OF av assms(1)] by blast
      obtain w' us' where rs: "rs = w' # us'" using 3(2) by (cases rs) auto
      have left: "fst (left_side os rfd wfd l s1) \<noteq> Exec p as" by (rule never_execD[OF left_side_uninit[OF l]])
      have right: "fst (right_side os rfd wfd r s1) \<noteq> Exec p as"
        using right_side_uninit(1) r rs by blast
      have rec: "e' \<in> set (pipe_and_exec os (drop (n + 1) v) s2) \<Longrightarrow> fst e' \<noteq> Exec p as"
        if rs2: "right_side os rfd wfd r s1 = (Ok (), s2)" for s2 e'
      proof -
        obtain k where "\<not> os_exec os k w'" using right_side_uninit(2)[OF r[unfolded rs] rs2] by blast
        then have "\<not> os_exec os 0 (hd rs)" using same[of k w'] rs by simp
        then show "e' \<in> set (pipe_and_exec os (drop (n + 1) v) s2) \<Longrightarrow> fst e' \<noteq> Exec p as"
          using less.hyps[of rs "drop (n + 1) v" e' s2] argv_of_drop[OF av] 3(1) n by simp
      qed
      have "fst (seqc (set_errno os t) (give_up os) s1) \<noteq> Exec p as"
        by (intro never_execD never_exec_intros never_exec_give_up)
      moreover obtain y2 s2 where y2: "right_side os rfd wfd r s1 = (y2, s2)"
        by (cases "right_side os rfd wfd r s1")
      ultimately show ?thesis using less.prems(3) left right rec[of s2 e]
        unfolding unf Ok y by (cases y2) (auto simp: y2 simp del: split_paired_All split: if_splits)
    next
      case (Exec p' as')
      then show ?thesis using never_execD[OF ne, of s p' as'] unfolding sp by simp
    qed (use less.prems(3) unf in auto)
  qed
qed

section \<open>Properties\<close>

text \<open>
  \<open>pipe_present\<close> on every command line: -1 when the line is empty or the first pipe
  symbol is its first or last word, 0 when there is none, and otherwise its index.
\<close>

theorem pipe_present_positions:
  assumes "argv_of ws v"
  shows "pipe_present v = Ok (
     if ws = [] then - 1
     else if ''|'' \<notin> set ws then 0
     else if hd ws = ''|'' \<or> Suc (first_index ''|'' ws) = length ws then - 1
     else int (first_index ''|'' ws))"
  using pipe_present_argv[OF assms] by (simp add: pipe_spec_def)

theorem pipe_present_positions_witness:
  "pipe_present (map Str [''ls'', ''|'', ''wc''] @ [Null]) = Ok 1"
  using pipe_present_positions[OF argv_ofI[of "[''ls'', ''|'', ''wc'']" "[]"]] by simp

text \<open>
  C5: The descriptors of a pipeline stage.  After \<open>pipe\<close>, the side that runs the words before
  the symbol ends with its standard output on the write end, the side for the words behind it with
  its standard input on the read end, and both have every other descriptor as before: no end of the
  pipe stays open, so the reader sees the end of its input.
\<close>

theorem pipe_ends_connected:
  assumes "sys_pipe os s = (Ok (Some (r, w)), s1)" and "pfds s 0 \<noteq> None" and "pfds s 1 \<noteq> None"
  shows "pfds (snd (left_side os r w l s1)) = (pfds s)(1 := Some (PipeW (ticks s)))
    \<and> pfds (snd (right_side os r w v s1)) = (pfds s)(0 := Some (PipeR (ticks s)))"
proof -
  note p = sys_pipe_fds[OF assms(1)]
  have "r \<noteq> 0" "r \<noteq> 1" "w \<noteq> 0" "w \<noteq> 1" using p(1,2) assms(2,3) by metis+
  then have "1 < r" "1 < w" by auto
  have "pfds s1 r \<noteq> None" "pfds s1 w \<noteq> None" using p(3,4) by auto
  then have "pfds (snd (left_side os r w l s1)) = (pfds s1)(r := None, 1 := pfds s1 w, w := None)"
    and "pfds (snd (right_side os r w v s1)) = (pfds s1)(w := None, 0 := pfds s1 r, r := None)"
    using p(3) \<open>1 < r\<close> \<open>1 < w\<close> left_side_fds right_side_fds by blast+
  then show ?thesis using p \<open>1 < r\<close> \<open>1 < w\<close> by (auto simp: fun_eq_iff)
qed

theorem pipe_ends_connected_witness:
  "pfds (snd (left_side exact_os 3 4 [Str ''ls'', Null] (snd (sys_pipe exact_os (start_proc [])))))
    = std_fds(1 := Some (PipeW 0))"
proof -
  have f3: "free_fd std_fds = Some 3"
    by (auto simp: free_fd_def find_Some_iff std_fds_def less_Suc_eq intro!: exI[of _ 3])
  have f4: "free_fd (std_fds(3 := Some (PipeR 0))) = Some 4"
    by (auto simp: free_fd_def find_Some_iff std_fds_def intro!: exI[of _ 4])
  have "fst (sys_pipe exact_os (start_proc [])) = Ok (Some (3, 4))"
    by (simp add: sys_pipe_def start_proc_def exact_os_def f3 f4 Let_def)
  then have p: "sys_pipe exact_os (start_proc []) = (Ok (Some (3, 4)), snd (sys_pipe exact_os (start_proc [])))"
    by (metis prod.collapse)
  show ?thesis using pipe_ends_connected[OF p, of "[Str ''ls'', Null]"]
    by (simp add: start_proc_def std_fds_def)
qed

text \<open>
  C4: The vectors \<open>pipe_and_exec\<close> builds for a pipeline are never terminated: the null pointer
  goes one slot behind its place.  So for every command line with a legal pipe symbol, whatever memory
  the allocator gives beyond what was asked for, no process of the pipeline starts a program: each
  one exits, fails, or reads or writes memory it must not.  (Which programs exist is taken not to
  change while the pipeline starts.)
\<close>

theorem pipeline_never_execs:
  assumes "argv_of ws v" and "malloc_ok os" and "pipe_present v = Ok n" and "0 < n"
    and "\<And>t f. os_exec os t f = os_exec os 0 f"
  shows "\<forall>e \<in> set (pipe_and_exec os v s). \<forall>p as. fst e \<noteq> Exec p as"
proof -
  have "''|'' \<in> set ws" using pipe_present_argv[OF assms(1)] assms(3,4) by (auto simp: pipe_spec_def split: if_splits)
  then show ?thesis using pipe_and_exec_never[OF assms(2,5,1)] by blast
qed

theorem pipeline_never_execs_witness:
  "fst ` set (pipe_and_exec (exact_os\<lparr>os_malloc := \<lambda>t n. Some (n + 24)\<rparr>)
      (map Str [''ls'', ''|'', ''wc''] @ [Null]) (start_proc [])) \<inter> {r. \<exists>p as. r = Exec p as} = {}"
proof -
  have "pipe_present (map Str [''ls'', ''|'', ''wc''] @ [Null]) = Ok 1"
    using pipe_present_argv[OF argv_ofI[of "[''ls'', ''|'', ''wc'']" "[]"]] by (simp add: pipe_spec_def)
  from pipeline_never_execs[OF argv_ofI _ this, of "exact_os\<lparr>os_malloc := \<lambda>t n. Some (n + 24)\<rparr>" "start_proc []"]
  show ?thesis by (auto simp: malloc_ok_def exact_os_def)
qed

text \<open>
  The background symbol in a command line \<open>c u1 ... uk &\<close> with no other symbol: the child of
  SP_HW3 removes it before it runs the program, the child of SP_HW5/Part2 passes it on as the
  program's last argument, although the comment in its run_command.c says it has been removed.
\<close>

theorem background_symbol_argument:
  assumes "argv_of (c # cs @ [''&'']) v" and "''&'' \<notin> set (c # cs)"
    and "set (c # cs) \<inter> {''<'', ''>'', ''|''} = {}" and "os_exec os (ticks s) c"
  shows "fst (child3 os v s) = Exec c (c # cs) \<and> map fst (child5 os v s) = [Exec c (c # cs @ [''&''])]"
proof
  let ?ws = "c # cs @ [''&'']"
  have "scan v ''&'' 0 = Ok (Suc (length cs), True)"
    using scan_argv[OF assms(1), of 0 "''&''"] first_index_append[OF assms(2), of "[]"] by simp
  moreover have "argv_of (c # cs) (v[Suc (length cs) := Null])" and len: "Suc (length cs) < length v"
    using assms(1) by (auto simp: argv_of_def list_update_append)
  ultimately show "fst (child3 os v s) = Exec c (c # cs)"
    using is_background3_argv[OF assms(1)] execvp_argv[of c cs "v[Suc (length cs) := Null]" os s] assms(4)
    by (simp add: child3_def store_app seqc_def)
  have "redirect_in os v s = (Ok (- 1, v), s)" using redirect_in_none[OF assms(1)] assms(3) by auto
  moreover have "redirect_out os v s = (Ok (- 1, v), s\<lparr>pout := pout s @ ''redirect_in, errno: '' @ dec (perrno s)\<rparr>)"
    using redirect_out_none[OF assms(1)] assms(3) by auto
  ultimately show "map fst (child5 os v s) = [Exec c (c # cs @ [''&''])]"
    using pipe_and_exec_plain[OF assms(1), of os "s\<lparr>pout := pout s @ ''redirect_in, errno: '' @ dec (perrno s)\<rparr>"] assms(3,4)
    by (simp add: child5_def)
qed

theorem background_symbol_argument_witness:
  "fst (child3 exact_os (map Str [''sleep'', ''9'', ''&''] @ [Null]) (start_proc [])) = Exec ''sleep'' [''sleep'', ''9'']"
  using background_symbol_argument[of "''sleep''" "[''9'']" "map Str [''sleep'', ''9'', ''&''] @ [Null]" exact_os "start_proc []"]
    argv_ofI[of "[''sleep'', ''9'', ''&'']" "[]"] by (simp add: exact_os_def)

text \<open>
  C6: Input redirection in SP_HW5/Part2 takes the rest of the line with it: in
  \<open>c u1 ... uk < f x1 ... xn\<close> the program \<open>c\<close> runs with the arguments before the
  symbol and reads \<open>f\<close>, and whatever follows the file name (further arguments, an output
  redirection, a whole pipeline) has no effect at all: \<open>f\<close> is the only file that is opened
  and standard input the only descriptor that changes.
\<close>

theorem redirect_in_drops_the_rest:
  assumes "argv_of (c # cs @ ''<'' # f # rest) v"
    and "set (c # cs) \<inter> {''<'', ''>'', ''|''} = {}"
    and "os_open os (ticks s) f" and "os_exec os (Suc (ticks s)) c"
    and "free_fd (pfds s) = Some fd" and "pfds s 0 \<noteq> None"
  shows "\<exists>s'. child5 os v s = [(Exec c (c # cs), s')] \<and> pfds s' = (pfds s)(0 := Some (FileR f))
    \<and> pevents s' = pevents s @ [EvOpen f False]"
proof -
  let ?s1 = "s\<lparr>ticks := Suc (ticks s), pfds := (pfds s)(0 := Some (FileR f)), pevents := pevents s @ [EvOpen f False]\<rparr>"
  obtain v' where v': "redirect_in os v s = (Ok (0, v'), ?s1)" "argv_of (c # cs) v'"
    using redirect_in_file[of "c # cs" f rest v os s fd] assms by auto
  let ?s2 = "?s1\<lparr>pout := pout ?s1 @ ''redirect_in, errno: '' @ dec (perrno ?s1)\<rparr>"
  have "redirect_out os v' ?s1 = (Ok (- 1, v'), ?s2)" using redirect_out_none[OF v'(2)] assms(2) by auto
  moreover have "pipe_and_exec os v' ?s2 = [(Exec c (c # cs), ?s2\<lparr>ticks := Suc (ticks ?s2)\<rparr>)]"
    using pipe_and_exec_plain[OF v'(2), of os ?s2] assms(2,4) by auto
  ultimately show ?thesis using v'(1) by (simp add: child5_def)
qed

theorem redirect_in_drops_the_rest_witness:
  "\<exists>s'. child5 exact_os (map Str [''sort'', ''<'', ''in'', ''>'', ''out''] @ [Null]) (start_proc [])
      = [(Exec ''sort'' [''sort''], s')] \<and> pevents s' = [EvOpen ''in'' False]"
proof -
  have f3: "free_fd std_fds = Some 3"
    by (auto simp: free_fd_def find_Some_iff std_fds_def less_Suc_eq intro!: exI[of _ 3])
  show ?thesis
    using redirect_in_drops_the_rest[of "''sort''" "[]" "''in''" "[''>'', ''out'']"
        "map Str [''sort'', ''<'', ''in'', ''>'', ''out''] @ [Null]" exact_os "start_proc []" 3]
      argv_ofI[of "[''sort'', ''<'', ''in'', ''>'', ''out'']" "[]"] f3
    by (auto simp: exact_os_def start_proc_def std_fds_def)
qed



end
