(* ===== verification/ShellMain.thy ===== *)
theory ShellMain
  imports ShellParse ShellBuiltin ShellExecFacts
begin

text \<open>
  The main loops of the two shells (SP_HW3/shell.c and SP_HW5/Part2/shell.c), which are the same
  text over different \<open>parse\<close>, \<open>is_builtin\<close>, \<open>do_builtin\<close> and
  \<open>run_command\<close>.  The shell's standard input is the argument \<open>input\<close>; the result
  is how the shell ends together with the ends of the processes it started, in the order in which
  it started them.
\<close>

section \<open>The loop\<close>

definition LONGLINE :: nat where "LONGLINE = 255"

definition prompt :: "(unit, proc) cmd" where
  "prompt = printf ''myshell -> ''"

text \<open>A buffer read by \<open>fgets\<close>, as the string functions see it: up to the first NUL.\<close>

definition as_cstring :: "string \<Rightarrow> string" where
  "as_cstring buf = takeWhile (\<lambda>c. c \<noteq> NUL) buf"

text \<open>
  \<open>if (is_builtin (v[0])) do_builtin (v); else run_command (v);\<close> with the pointer kept by
  \<open>is_builtin\<close> passed through, and the children of the command.
\<close>

definition dispatch ::
  "(slot \<Rightarrow> 'b option \<Rightarrow> (int \<times> 'b option) outcome) \<Rightarrow> ('b option \<Rightarrow> slot list \<Rightarrow> (unit, proc) cmd) \<Rightarrow>
   (slot list \<Rightarrow> proc \<Rightarrow> ended \<times> ended list) \<Rightarrow> 'b option \<Rightarrow> slot list \<Rightarrow> proc \<Rightarrow>
   ('b option outcome \<times> proc) \<times> ended list" where
  "dispatch is_builtin do_builtin run_command this v s =
     (case obind (slot_at v 0) (\<lambda>cmd. is_builtin cmd this) of
        Ok (r, this') \<Rightarrow>
          if r \<noteq> 0 then (bindc (do_builtin this' v) (\<lambda>_. ret this') s, [])
          else (case run_command v s of ((res, s'), kids) \<Rightarrow> ((obind res (\<lambda>_. Ok this'), s'), kids))
      | e \<Rightarrow> ((obind e (\<lambda>_. Ok None), s), []))"

function shell_loop ::
  "(string option \<Rightarrow> (slot list option, proc) cmd) \<Rightarrow>
   (slot \<Rightarrow> 'b option \<Rightarrow> (int \<times> 'b option) outcome) \<Rightarrow> ('b option \<Rightarrow> slot list \<Rightarrow> (unit, proc) cmd) \<Rightarrow>
   (slot list \<Rightarrow> proc \<Rightarrow> ended \<times> ended list) \<Rightarrow> string \<Rightarrow> 'b option \<Rightarrow> proc \<Rightarrow> ended \<times> ended list" where
  "shell_loop parse is_builtin do_builtin run_command input this s =
     (case fgets LONGLINE input of
        None \<Rightarrow> ((Exit 0, s), [])
      | Some (line, input') \<Rightarrow>
          (case parse (Some (as_cstring line)) s of
             (Ok None, s1) \<Rightarrow>
               shell_loop parse is_builtin do_builtin run_command input' this (snd (prompt s1))
           | (Ok (Some v), s1) \<Rightarrow>
               (case dispatch is_builtin do_builtin run_command this v s1 of
                  ((Ok this', s2), kids) \<Rightarrow>
                    (case seqc (free_argv v) prompt s2 of
                       (Ok _, s3) \<Rightarrow>
                         (case shell_loop parse is_builtin do_builtin run_command input' this' s3 of
                            (e, kids') \<Rightarrow> (e, kids @ kids'))
                     | e \<Rightarrow> (e, kids))
                | ((e, s2), kids) \<Rightarrow> ((obind e (\<lambda>_. Ok ()), s2), kids))
           | (e, s1) \<Rightarrow> ((obind e (\<lambda>_. Ok ()), s1), [])))"
  by pat_completeness auto
termination
  by (relation "measure (\<lambda>(_, _, _, _, input, _, _). length input)")
    (auto simp: LONGLINE_def dest: fgets_shorter)

declare shell_loop.simps [simp del]

definition main5 :: "os \<Rightarrow> string \<Rightarrow> proc \<Rightarrow> ended \<times> ended list" where
  "main5 os input s =
     shell_loop (parse5 os) is_builtin5 (do_builtin5 os) (run_command5 os) input None (snd (prompt s))"

definition main3 :: "os \<Rightarrow> string \<Rightarrow> proc \<Rightarrow> ended \<times> ended list" where
  "main3 os input s =
     shell_loop (parse3 os) is_builtin3 (do_builtin3 os) (run_command3 os) input None (snd (prompt s))"

section \<open>What the loop needs of its parts\<close>

text \<open>A line of input: no NUL or newline in it, and room for it in the buffer.\<close>

definition fits :: "string \<Rightarrow> bool" where
  "fits l \<longleftrightarrow> newline \<notin> set l \<and> NUL \<notin> set l \<and> length l < LONGLINE - 1"

lemma fgets_fits: "fits l \<Longrightarrow> fgets LONGLINE (l @ newline # rest) = Some (l @ [newline], rest)"
  by (simp add: fits_def fgets_whole_line)

lemma as_cstring_fits: "fits l \<Longrightarrow> as_cstring (l @ [newline]) = l @ [newline]"
  by (auto simp: fits_def as_cstring_def takeWhile_eq_all_conv)

lemma split_on_snoc: "d \<in> D \<Longrightarrow> split_on D (l @ [d]) = split_on D l @ [[]]"
  by (induction l) (auto simp: hd_append tl_append split: list.splits)

lemma words_of_snoc: "d \<in> D \<Longrightarrow> words_of D (l @ [d]) = words_of D l"
  by (simp add: words_of_def split_on_snoc)

lemma words_of_line [simp]: "words_of (set delim) (l @ [newline]) = words_of (set delim) l"
  by (rule words_of_snoc) (simp add: delim_def)

text \<open>
  The interface between the loop and the two shells: how a line without words is parsed, and
  that \<open>is_builtin\<close> and \<open>do_builtin\<close> together look the command up in a table.
\<close>

locale command_shell =
  fixes parse :: "string option \<Rightarrow> (slot list option, proc) cmd"
    and is_builtin :: "slot \<Rightarrow> 'b option \<Rightarrow> (int \<times> 'b option) outcome"
    and do_builtin :: "'b option \<Rightarrow> slot list \<Rightarrow> (unit, proc) cmd"
    and run_command :: "slot list \<Rightarrow> proc \<Rightarrow> ended \<times> ended list"
    and table :: "(string \<times> 'b) list"
    and run_builtin :: "'b \<Rightarrow> slot list \<Rightarrow> (unit, proc) cmd"
  assumes parse_blank: "words_of (set delim) l = [] \<Longrightarrow> parse (Some l) s = (Ok None, s)"
    and is_builtin_table: "is_builtin (Str w) this
      = Ok (case map_of table w of Some b \<Rightarrow> (1, Some b) | None \<Rightarrow> (0, this))"
    and do_builtin_table: "do_builtin (Some b) v s = run_builtin b v s"
begin

abbreviation loop where
  "loop \<equiv> shell_loop parse is_builtin do_builtin run_command"

lemma loop_end: "loop [] this s = ((Exit 0, s), [])"
  by (simp add: shell_loop.simps fgets_def)

lemma loop_blank:
  "fits l \<Longrightarrow> words_of (set delim) l = [] \<Longrightarrow>
   loop (l @ newline # rest) this s = loop rest this (snd (prompt s))"
  by (simp add: shell_loop.simps[of _ _ _ _ "l @ newline # rest"] fgets_fits as_cstring_fits parse_blank)

lemma loop_builtin:
  assumes "fits l" and "parse (Some (l @ [newline])) s = (Ok (Some v), s1)"
    and "argv_of (w # ws) v" and "map_of table w = Some b" and "run_builtin b v s1 = (Ok (), s2)"
  shows "loop (l @ newline # rest) this s = loop rest (Some b) (snd (seqc (free_argv v) prompt s2))"
proof -
  have "slot_at v 0 = Ok (Str w)" using slot_at_argv[OF assms(3), of 0] by simp
  then show ?thesis using assms
    by (simp add: shell_loop.simps[of _ _ _ _ "l @ newline # rest"] fgets_fits as_cstring_fits dispatch_def
        is_builtin_table do_builtin_table free_argv_argv prompt_def split: prod.splits)
qed

lemma loop_builtin_exit:
  assumes "fits l" and "parse (Some (l @ [newline])) s = (Ok (Some v), s1)"
    and "argv_of (w # ws) v" and "map_of table w = Some b" and "run_builtin b v s1 = (Exit n, s2)"
  shows "loop (l @ newline # rest) this s = ((Exit n, s2), [])"
proof -
  have "slot_at v 0 = Ok (Str w)" using slot_at_argv[OF assms(3), of 0] by simp
  then show ?thesis using assms
    by (simp add: shell_loop.simps[of _ _ _ _ "l @ newline # rest"] fgets_fits as_cstring_fits dispatch_def
        is_builtin_table do_builtin_table)
qed

lemma loop_command:
  assumes "fits l" and "parse (Some (l @ [newline])) s = (Ok (Some v), s1)"
    and "argv_of (w # ws) v" and "map_of table w = None" and "run_command v s1 = ((Ok (), s2), kids)"
  shows "loop (l @ newline # rest) this s =
    (case loop rest this (snd (seqc (free_argv v) prompt s2)) of (e, kids') \<Rightarrow> (e, kids @ kids'))"
proof -
  have "slot_at v 0 = Ok (Str w)" using slot_at_argv[OF assms(3), of 0] by simp
  then show ?thesis using assms
    by (simp add: shell_loop.simps[of _ _ _ _ "l @ newline # rest"] fgets_fits as_cstring_fits dispatch_def
        is_builtin_table free_argv_argv prompt_def)
qed

end

lemma strtok_blank: "words_of (set delim) l = [] \<Longrightarrow> strtok delim l = None"
  using words_of_strtok by (cases "strtok delim l") auto

interpretation sh5: command_shell "parse5 os" is_builtin5 "do_builtin5 os" "run_command5 os" inbuilts5 "run_builtin5 os"
  for os
  by unfold_locales (auto simp: parse5_def strtok_blank is_builtin5_def find_cmd_Str do_builtin5_def split: option.splits)

interpretation sh3: command_shell "parse3 os" is_builtin3 "do_builtin3 os" "run_command3 os" inbuilts3 "run_builtin3 os"
  for os
  by unfold_locales (auto simp: parse3_def strtok_blank is_builtin3_def find_cmd_Str do_builtin3_def split: option.splits)

section \<open>Properties\<close>

lemma parse5_line:
  assumes "malloc_ok os" and "malloc_total os" and "words_of (set delim) l = w # ws"
  obtains v t where "parse5 os (Some (l @ [newline])) s = (Ok (Some v), t)" and "argv_of (w # ws) v"
    and "plive t = plive s + length ws + 3" and "pout t = pout s"
proof -
  have "runs (parse5 os (Some (l @ [newline]))) (\<lambda>r t. \<exists>v. r = Some v \<and> argv_of (w # ws) v
      \<and> plive t = plive s + length ws + 3 \<and> pout t = pout s) (\<lambda>_. False) s"
    using parse5_runs[OF assms(1), of "l @ [newline]" s] assms(2,3)
    by (auto simp: runs_def grew_def split: prod.splits outcome.splits option.splits)
  then show ?thesis using that by (auto elim: runs_OkE)
qed




text \<open>
  Leaving the shells.  A line whose first word is one of \<open>quit\<close>, \<open>exit\<close>,
  \<open>bye\<close>, \<open>logout\<close> ends both shells before they read anything more and without starting
  a process; the status is 0 in SP_HW5/Part2 and 1 in SP_HW3 (there provided the block for the first
  word has room for its terminator).
\<close>

theorem quit_status:
  assumes "malloc_ok os" and "malloc_total os" and "fits l" and "words_of (set delim) l = w # ws"
    and "w \<in> {''quit'', ''exit'', ''bye'', ''logout''}"
    and "os_malloc os (Suc (ticks s)) (length w) \<noteq> Some (length w)"
  shows "(\<exists>s'. main5 os (l @ newline # rest) s = ((Exit 0, s'), []))
    \<and> (\<exists>s'. main3 os (l @ newline # rest) s = ((Exit 1, s'), []))"
proof
  let ?s = "snd (prompt s)"
  obtain v t where p: "parse5 os (Some (l @ [newline])) ?s = (Ok (Some v), t)" and v: "argv_of (w # ws) v"
    using parse5_line[OF assms(1,2,4)] by blast
  have q: "map_of inbuilts5 w = Some Bi_quit" using assms(5) by (auto simp: inbuilts5_def)
  have "run_builtin5 os Bi_quit v t = (Exit 0, t)" by (simp add: bi_quit_def)
  from sh5.loop_builtin_exit[OF assms(3) p v q this]
  show "\<exists>s'. main5 os (l @ newline # rest) s = ((Exit 0, s'), [])" by (simp add: main5_def)
  obtain r where st: "strtok delim (l @ [newline]) = Some (w, r)" and ws: "ws = tokens delim r"
    using words_of_Cons_strtok[of "l @ [newline]" w ws] assms(4) by auto
  have t: "ticks ?s = ticks s" by (simp add: prompt_def)
  obtain cap where cap: "os_malloc os (Suc (ticks ?s)) (length w) = Some cap" "length w < cap"
    using assms(1,2,6) unfolding malloc_ok_def malloc_total_def t by (metis option.exhaust nat_less_le)
  have "runs (parse3 os (Some (l @ [newline]))) (\<lambda>r t. \<exists>v. r = Some v \<and> argv_of (w # ws) v) (\<lambda>_. False) ?s"
    using parse3_runs[OF assms(1,2) st cap(1)] cap(2) ws by (auto elim!: runs_conseq)
  then obtain v3 t3 where p3: "parse3 os (Some (l @ [newline])) ?s = (Ok (Some v3), t3)" and v3: "argv_of (w # ws) v3"
    by (auto elim: runs_OkE)
  have q3: "map_of inbuilts3 w = Some Bi_exit3" using assms(5) by (auto simp: inbuilts3_def)
  have "run_builtin3 os Bi_exit3 v3 t3 = (Exit 1, t3)" by (simp add: bi_exit3_def)
  from sh3.loop_builtin_exit[OF assms(3) p3 v3 q3 this]
  show "\<exists>s'. main3 os (l @ newline # rest) s = ((Exit 1, s'), [])" by (simp add: main3_def)
qed

theorem quit_status_witness:
  "\<exists>s'. main3 (exact_os\<lparr>os_malloc := \<lambda>t n. Some (n + 8)\<rparr>) (''bye'' @ newline # ''ls'') (start_proc []) = ((Exit 1, s'), [])"
proof -
  have w: "words_of (set delim) ''bye'' = ''bye'' # []" by (simp add: words_of_def delim_def)
  have f: "fits ''bye''" by (simp add: fits_def LONGLINE_def)
  show ?thesis
    using quit_status[of "exact_os\<lparr>os_malloc := \<lambda>t n. Some (n + 8)\<rparr>" "''bye''" "''bye''" "[]" "start_proc []" "''ls''"]
      w f by (simp add: malloc_ok_def malloc_total_def)
qed

end
