(* ===== verification/DictFile.thy ===== *)
theory DictFile
  imports CNum
begin

text \<open>
  The dictionary records of dict.h and the local lookup (lookup5.c of SP_HW11 and SP_HW12): a file
  of fixed-size records, mapped into memory on the first call and searched with the C library's
  \<open>bsearch\<close>.  A character array is a list of bytes of the array's size, with the string up to
  the first NUL in it and whatever was there before behind it.
\<close>

section \<open>Character arrays\<close>

text \<open>\<open>strcpy (buf, s)\<close> for an array \<open>buf\<close>.\<close>

definition strcpy :: "string \<Rightarrow> string \<Rightarrow> string outcome" where
  "strcpy buf s = (if length s < length buf then Ok (s @ NUL # drop (Suc (length s)) buf)
     else Undef Buffer_overflow)"

lemma strcpy_Ok: "length s < length buf \<Longrightarrow> strcpy buf s = Ok (s @ NUL # drop (Suc (length s)) buf)"
  by (simp add: strcpy_def)

lemma strcpy_length: "strcpy buf s = Ok buf' \<Longrightarrow> length buf' = length buf"
  by (auto simp: strcpy_def split: if_splits)

lemma strcpy_cstr: "strcpy buf s = Ok buf' \<Longrightarrow> nul_free s \<Longrightarrow> cstr buf' = Ok s"
  by (auto simp: strcpy_def cstr_append split: if_splits)

section \<open>Dictionary records\<close>

definition WORD :: nat where "WORD = 32"
definition TEXT :: nat where "TEXT = 480"

definition FOUND :: int where "FOUND = 0"
definition NOTFOUND :: int where "NOTFOUND = 1"
definition UNAVAIL :: int where "UNAVAIL = 2"

record dictrec =
  dword :: string
  dtext :: string

definition sizeof_Dictrec :: nat where "sizeof_Dictrec = WORD + TEXT"

text \<open>A record as it lies in memory, and the record that some bytes are.\<close>

definition bytes_of :: "dictrec \<Rightarrow> string" where
  "bytes_of r = dword r @ dtext r"

definition rec_of :: "string \<Rightarrow> dictrec" where
  "rec_of b = \<lparr>dword = take WORD b, dtext = take TEXT (drop WORD b)\<rparr>"

definition sized :: "dictrec \<Rightarrow> bool" where
  "sized r \<longleftrightarrow> length (dword r) = WORD \<and> length (dtext r) = TEXT"

lemma bytes_of_length: "sized r \<Longrightarrow> length (bytes_of r) = sizeof_Dictrec"
  by (simp add: sized_def bytes_of_def sizeof_Dictrec_def)

lemma rec_of_bytes_of: "sized r \<Longrightarrow> rec_of (bytes_of r) = r"
  by (simp add: sized_def bytes_of_def rec_of_def)

lemma rec_of_sized: "length b = sizeof_Dictrec \<Longrightarrow> sized (rec_of b)"
  by (simp add: sized_def rec_of_def sizeof_Dictrec_def)

section \<open>bsearch\<close>

text \<open>
  The C library's binary search, with the comparison of the key and the element at an index as an
  argument (it may read memory it must not).
\<close>

lemma obind_cong [fundef_cong]:
  assumes "r = r'" and "\<And>a. r' = Ok a \<Longrightarrow> f a = f' a"
  shows "obind r f = obind r' f'"
  using assms by (cases r') auto

function bsearch :: "(nat \<Rightarrow> int outcome) \<Rightarrow> nat \<Rightarrow> nat \<Rightarrow> nat option outcome" where
  "bsearch compar l u =
     (if l < u
      then let idx = (l + u) div 2 in
           obind (compar idx) (\<lambda>c.
           if c < 0 then bsearch compar l idx
           else if c > 0 then bsearch compar (Suc idx) u
           else Ok (Some idx))
      else Ok None)"
  by pat_completeness auto
termination
  by (relation "measure (\<lambda>(_, l, u). u - l)") auto

declare bsearch.simps [simp del]

text \<open>The words of a sorted table, in \<open>strcmp\<close> order and without duplicates.\<close>

definition dict_sorted :: "string list \<Rightarrow> bool" where
  "dict_sorted ws \<longleftrightarrow> sorted_wrt (\<lambda>a b. strcmp a b < 0) ws"

lemma dict_sorted_nth: "dict_sorted ws \<Longrightarrow> i < j \<Longrightarrow> j < length ws \<Longrightarrow> strcmp (ws ! i) (ws ! j) < 0"
  unfolding dict_sorted_def by (rule sorted_wrt_nth_less)

lemma bsearch_sorted:
  assumes srt: "dict_sorted ws" and cmp: "\<And>i. i < length ws \<Longrightarrow> compar i = Ok (strcmp key (ws ! i))"
    and "u \<le> length ws" and "\<forall>i < length ws. ws ! i = key \<longrightarrow> l \<le> i \<and> i < u"
  shows "\<exists>r. bsearch compar l u = Ok r \<and>
      (case r of None \<Rightarrow> key \<notin> set ws | Some i \<Rightarrow> i < length ws \<and> ws ! i = key)"
  using assms(3,4)
proof (induction "u - l" arbitrary: l u rule: less_induct)
  case less
  show ?case
  proof (cases "l < u")
    case False
    then show ?thesis using less.prems(2) by (force simp: bsearch.simps[of compar l u] in_set_conv_nth)
  next
    case True
    let ?i = "(l + u) div 2"
    have i: "?i < u" "l \<le> ?i" "?i < length ws" using True less.prems(1) by auto
    have step: "bsearch compar l u = (if strcmp key (ws ! ?i) < 0 then bsearch compar l ?i
        else if strcmp key (ws ! ?i) > 0 then bsearch compar (Suc ?i) u else Ok (Some ?i))"
      using True cmp[OF i(3)] by (simp add: bsearch.simps[of compar l u] Let_def)
    consider "strcmp key (ws ! ?i) < 0" | "strcmp key (ws ! ?i) > 0" | "strcmp key (ws ! ?i) = 0" by linarith
    then show ?thesis
    proof cases
      case 1
      have "j < ?i" if "j < length ws" "ws ! j = key" for j
        using dict_sorted_nth[OF srt, of ?i j] strcmp_less_trans[OF 1] that 1
        by (metis less_irrefl linorder_neqE_nat strcmp_refl)
      then show ?thesis using less.hyps[of ?i l] less.prems i 1 step by auto
    next
      case 2
      then have gt: "strcmp (ws ! ?i) key < 0" using strcmp_antisym[of key "ws ! ?i"] by simp
      have "?i < j" if "j < length ws" "ws ! j = key" for j
        using dict_sorted_nth[OF srt, of j ?i] strcmp_less_trans[OF _ gt] that gt i(3)
        by (metis less_irrefl linorder_neqE_nat strcmp_refl)
      moreover have "u - Suc ?i < u - l" using i by simp
      ultimately show ?thesis using less.hyps[of u "Suc ?i"] less.prems 2 step by (simp add: Suc_le_eq)
    next
      case 3
      then have "bsearch compar l u = Ok (Some ?i)" "ws ! ?i = key" using step by (simp_all add: strcmp_refl)
      then show ?thesis using i by simp
    qed
  qed
qed

section \<open>lookup5\<close>

text \<open>
  The static variables \<open>table\<close> (with \<open>numrec\<close> as its length) and \<open>first_time\<close>.
\<close>

record lookup5_vars =
  l5_first :: bool
  l5_table :: "dictrec list"

definition lookup5_init :: lookup5_vars where
  "lookup5_init = \<lparr>l5_first = True, l5_table = []\<rparr>"

text \<open>
  The mapped file as an array of records.  An incomplete record at the end is not counted.
\<close>

fun table_of :: "nat \<Rightarrow> string \<Rightarrow> dictrec list" where
  "table_of 0 file = []"
| "table_of (Suc n) file = rec_of (take sizeof_Dictrec file) # table_of n (drop sizeof_Dictrec file)"

definition mmap_table :: "string \<Rightarrow> dictrec list" where
  "mmap_table file = table_of (length file div sizeof_Dictrec) file"

text \<open>
  \<open>files\<close> gives the contents of a file, or \<open>None\<close> where \<open>open\<close> fails.  Mapping
  an empty file fails.
\<close>

definition open_table :: "(string \<Rightarrow> string option) \<Rightarrow> string \<Rightarrow> (unit, lookup5_vars) cmd" where
  "open_table files resource s =
     (if l5_first s
      then (case files resource of
          None \<Rightarrow> (Exit 1, s\<lparr>l5_first := False\<rparr>)
        | Some file \<Rightarrow>
            if file = [] then (Exit 1, s\<lparr>l5_first := False\<rparr>)
            else (Ok (), s\<lparr>l5_first := False, l5_table := mmap_table file\<rparr>))
      else (Ok (), s))"

definition dict_cmp :: "string \<Rightarrow> dictrec \<Rightarrow> int outcome" where
  "dict_cmp a b = obind (cstr a) (\<lambda>x. obind (cstr (dword b)) (\<lambda>y. Ok (strcmp x y)))"

definition search_table :: "dictrec list \<Rightarrow> string \<Rightarrow> dictrec \<Rightarrow> (int \<times> dictrec) outcome" where
  "search_table table key sought =
     obind (bsearch (\<lambda>i. dict_cmp key (table ! i)) 0 (length table)) (\<lambda>found.
     case found of
       Some i \<Rightarrow> obind (cstr (dtext (table ! i))) (\<lambda>t.
                 obind (strcpy (dtext sought) t) (\<lambda>text. Ok (FOUND, sought\<lparr>dtext := text\<rparr>)))
     | None \<Rightarrow> Ok (NOTFOUND, sought))"

definition lookup5 ::
  "(string \<Rightarrow> string option) \<Rightarrow> string \<Rightarrow> dictrec \<Rightarrow> (int \<times> dictrec, lookup5_vars) cmd" where
  "lookup5 files resource sought =
     bindc (open_table files resource) (\<lambda>_ s. (search_table (l5_table s) (dword sought) sought, s))"

text \<open>SP_HW12 first copies the word into a record of its own, whose old contents are \<open>temp\<close>.\<close>

definition lookup5_copy ::
  "dictrec \<Rightarrow> (string \<Rightarrow> string option) \<Rightarrow> string \<Rightarrow> dictrec \<Rightarrow> (int \<times> dictrec, lookup5_vars) cmd" where
  "lookup5_copy temp files resource sought =
     bindc (open_table files resource) (\<lambda>_.
     bindc (liftc (cstr (dword sought))) (\<lambda>w.
     bindc (liftc (strcpy (dword temp) w)) (\<lambda>key s.
     (search_table (l5_table s) key sought, s))))"

section \<open>What the table means\<close>

text \<open>
  The partial function a well-formed file stands for: every record has terminated strings, and the
  words are sorted.
\<close>

definition word_in :: "dictrec \<Rightarrow> string" where
  "word_in r = takeWhile (\<lambda>c. c \<noteq> NUL) (dword r)"

definition text_in :: "dictrec \<Rightarrow> string" where
  "text_in r = takeWhile (\<lambda>c. c \<noteq> NUL) (dtext r)"

definition wf_table :: "dictrec list \<Rightarrow> bool" where
  "wf_table t \<longleftrightarrow> (\<forall>r \<in> set t. sized r \<and> NUL \<in> set (dword r) \<and> NUL \<in> set (dtext r))
     \<and> dict_sorted (map word_in t)"

definition dict_of :: "dictrec list \<Rightarrow> string \<Rightarrow> string option" where
  "dict_of t = map_of (map (\<lambda>r. (word_in r, text_in r)) t)"

lemma cstr_word_in: "NUL \<in> set (dword r) \<Longrightarrow> cstr (dword r) = Ok (word_in r)"
  by (simp add: cstr_def word_in_def)

lemma cstr_text_in: "NUL \<in> set (dtext r) \<Longrightarrow> cstr (dtext r) = Ok (text_in r)"
  by (simp add: cstr_def text_in_def)

lemma dict_sorted_distinct: "dict_sorted ws \<Longrightarrow> distinct ws"
proof (induction ws)
  case (Cons w ws)
  then have "\<forall>x \<in> set ws. strcmp w x < 0" "distinct ws" by (auto simp: dict_sorted_def)
  moreover from this have "w \<notin> set ws" using strcmp_refl[of w] by (metis less_irrefl)
  ultimately show ?case by simp
qed simp

lemma dict_of_nth:
  "wf_table t \<Longrightarrow> i < length t \<Longrightarrow> dict_of t (word_in (t ! i)) = Some (text_in (t ! i))"
  unfolding dict_of_def wf_table_def
  using dict_sorted_distinct[of "map word_in t"]
  by (auto simp: comp_def intro!: map_of_is_SomeI)

lemma search_table_wf:
  assumes "wf_table t" and "cstr key = Ok w" and "length (dtext sought) = TEXT"
  shows "\<exists>r. search_table t key sought = Ok r \<and> (case dict_of t w of
      None \<Rightarrow> r = (NOTFOUND, sought)
    | Some x \<Rightarrow> \<exists>text. r = (FOUND, sought\<lparr>dtext := text\<rparr>) \<and> strcpy (dtext sought) x = Ok text \<and> nul_free x)"
proof -
  have rd: "sized (t ! i)" "cstr (dword (t ! i)) = Ok (word_in (t ! i))" "cstr (dtext (t ! i)) = Ok (text_in (t ! i))"
    if "i < length t" for i
    using assms(1) nth_mem[OF that] by (auto simp: wf_table_def cstr_word_in cstr_text_in)
  have cmp: "dict_cmp key (t ! i) = Ok (strcmp w (map word_in t ! i))" if "i < length (map word_in t)" for i
    using rd[of i] that assms(2) by (simp add: dict_cmp_def)
  obtain r where r: "bsearch (\<lambda>i. dict_cmp key (t ! i)) 0 (length t) = Ok r"
      "case r of None \<Rightarrow> w \<notin> set (map word_in t) | Some i \<Rightarrow> i < length t \<and> word_in (t ! i) = w"
    using bsearch_sorted[of "map word_in t" "\<lambda>i. dict_cmp key (t ! i)" w "length t" 0] assms(1) cmp
    by (fastforce simp: wf_table_def split: option.splits)
  show ?thesis
  proof (cases r)
    case None
    then have "dict_of t w = None" using r(2) by (auto simp: dict_of_def map_of_eq_None_iff)
    then show ?thesis using r(1) None by (simp add: search_table_def)
  next
    case (Some i)
    then have i: "i < length t" "word_in (t ! i) = w" using r(2) by auto
    have "length (text_in (t ! i)) < TEXT" "nul_free (text_in (t ! i))"
      using rd[OF i(1)] cstr_length cstr_nul_free by (force simp: sized_def, blast)
    then show ?thesis using r(1) Some rd[OF i(1)] dict_of_nth[OF assms(1) i(1)] i(2) assms(3)
      by (simp add: search_table_def strcpy_Ok)
  qed
qed

end
