(* ===== verification/DictMain.thy ===== *)
theory DictMain
  imports DictFile
begin

text \<open>
  The dictionary client's main.c (the same program in SP_HW11/part1 to part3 and SP_HW12) over any
  \<open>lookup\<close>, and the interface between the two: the locale \<open>dict_service\<close>, for which
  the main program's answers are proved once, and its interpretation on the local lookups.
\<close>

section \<open>The main program\<close>

text \<open>\<open>fgets\<close> into an array, and \<open>word[strlen (word) - 1] = '\0'\<close>.\<close>

definition fill :: "string \<Rightarrow> string \<Rightarrow> string" where
  "fill buf got = got @ NUL # drop (Suc (length got)) buf"

definition chop :: "string \<Rightarrow> string outcome" where
  "chop buf = obind (cstr buf) (\<lambda>s. if s = [] then Undef Out_of_bounds else Ok (buf[length s - 1 := NUL]))"

text \<open>The switch over the result of \<open>lookup\<close>: what is printed.\<close>

definition show_answer :: "int \<Rightarrow> dictrec \<Rightarrow> string outcome" where
  "show_answer r tryit =
     (if r = FOUND then obind (cstr (dword tryit)) (\<lambda>w. obind (cstr (dtext tryit)) (\<lambda>t. Ok (w @ '' : '' @ t)))
      else if r = NOTFOUND then obind (cstr (dword tryit)) (\<lambda>w. Ok (w @ '' : Not Found!'' @ [newline]))
      else if r = UNAVAIL then Exit 1
      else Ok [])"

text \<open>
  The loop, on the rest of the standard input.  The result is how it ends, what it printed on
  standard output, and the state of \<open>lookup\<close>; the prompts on standard error are left out.
\<close>

function query_loop ::
  "(dictrec \<Rightarrow> (int \<times> dictrec, 's) cmd) \<Rightarrow> string \<Rightarrow> dictrec \<Rightarrow> 's \<Rightarrow> unit outcome \<times> string \<times> 's" where
  "query_loop lookup input tryit s =
     (case fgets WORD input of
        None \<Rightarrow> (Ok (), [], s)
      | Some (got, input') \<Rightarrow>
          (case chop (fill (dword tryit) got) of
             Ok word \<Rightarrow>
               (case lookup (tryit\<lparr>dword := word\<rparr>) s of
                  (Ok (r, tryit'), s') \<Rightarrow>
                    (case show_answer r tryit' of
                       Ok line \<Rightarrow>
                         (case query_loop lookup input' tryit' s' of (e, out, s'') \<Rightarrow> (e, line @ out, s''))
                     | e \<Rightarrow> (obind e (\<lambda>_. Ok ()), [], s'))
                | (e, s') \<Rightarrow> (obind e (\<lambda>_. Ok ()), [], s'))
           | e \<Rightarrow> (obind e (\<lambda>_. Ok ()), [], s)))"
  by pat_completeness auto
termination
  by (relation "measure (\<lambda>(_, input, _, _). length input)") (auto simp: WORD_def dest: fgets_shorter)

declare query_loop.simps [simp del]

text \<open>
  \<open>tryit\<close> is the uninitialised record.  With a wrong number of arguments the program exits
  with \<open>errno\<close>, which is 0 when a program starts; the end of the loop is the end of
  \<open>main\<close>.
\<close>

definition dict_main ::
  "(string \<Rightarrow> dictrec \<Rightarrow> (int \<times> dictrec, 's) cmd) \<Rightarrow> string list \<Rightarrow> string \<Rightarrow> dictrec \<Rightarrow> 's \<Rightarrow>
   unit outcome \<times> string \<times> 's" where
  "dict_main lookup argv input tryit s =
     (if length argv \<noteq> 2 then (Exit 0, [], s)
      else case query_loop (lookup (argv ! 1)) input tryit s of
        (Ok _, out, s') \<Rightarrow> (Exit 0, out, s')
      | r \<Rightarrow> r)"

section \<open>The words that are looked up\<close>

text \<open>
  What the loop makes of its input: pieces of at most 31 characters, each without its last
  character, whether that is the newline or not.
\<close>

function queries :: "string \<Rightarrow> string list" where
  "queries input = (case fgets WORD input of None \<Rightarrow> [] | Some (got, rest) \<Rightarrow> butlast got # queries rest)"
  by pat_completeness auto
termination
  by (relation "measure length") (auto simp: WORD_def dest: fgets_shorter)

declare queries.simps [simp del]

definition answer_line :: "(string \<Rightarrow> string option) \<Rightarrow> string \<Rightarrow> string" where
  "answer_line dict w = (case dict w of
       Some t \<Rightarrow> w @ '' : '' @ t
     | None \<Rightarrow> w @ '' : Not Found!'' @ [newline])"

lemma chop_fill:
  assumes "nul_free got" and "got \<noteq> []" and "length got < length buf"
  shows "\<exists>word. chop (fill buf got) = Ok word \<and> cstr word = Ok (butlast got) \<and> length word = length buf"
proof -
  obtain g c where g: "got = g @ [c]" using assms(2) by (cases got rule: rev_cases) auto
  have nf: "nul_free (g @ [c])" using assms(1) g by simp
  have "cstr (fill buf got) = Ok (g @ [c])"
    unfolding fill_def g by (rule cstr_append[OF nf])
  then have "chop (fill buf got) = Ok (g @ NUL # NUL # drop (Suc (length got)) buf)"
    by (simp add: chop_def fill_def g list_update_append)
  moreover have "cstr (g @ NUL # NUL # drop (Suc (length got)) buf) = Ok g"
    by (rule cstr_append) (use nf in \<open>simp add: nul_free_def\<close>)
  ultimately show ?thesis using g assms(3) by simp
qed

lemma queries_line:
  assumes "newline \<notin> set w" and "length w < WORD - 1"
  shows "queries (w @ newline # rest) = w # queries rest"
  using fgets_whole_line[OF assms] by (simp add: queries.simps[of "w @ newline # rest"] butlast_append)

lemma queries_lines:
  "\<forall>w \<in> set ws. newline \<notin> set w \<and> length w < WORD - 1 \<Longrightarrow>
   queries (concat (map (\<lambda>w. w @ [newline]) ws)) = ws"
  by (induction ws) (auto simp: queries_line queries.simps[of "[]"] fgets_def)

section \<open>The interface between main and lookup\<close>

text \<open>
  A lookup whose state satisfies \<open>inv\<close> answers for the partial function \<open>dict\<close>: it
  leaves the word alone, and fills in the text of a word it finds.
\<close>

locale dict_service =
  fixes lookup :: "dictrec \<Rightarrow> (int \<times> dictrec, 's) cmd"
    and inv :: "'s \<Rightarrow> bool"
    and dict :: "string \<Rightarrow> string option"
  assumes lookup_dict: "inv s \<Longrightarrow> sized r \<Longrightarrow> cstr (dword r) = Ok w \<Longrightarrow>
    \<exists>q r' s'. lookup r s = (Ok (q, r'), s') \<and> inv s' \<and> sized r' \<and> cstr (dword r') = Ok w \<and>
      (case dict w of None \<Rightarrow> q = NOTFOUND | Some t \<Rightarrow> q = FOUND \<and> cstr (dtext r') = Ok t)"
begin

lemma loop_answers:
  "inv s \<Longrightarrow> sized tryit \<Longrightarrow> nul_free input \<Longrightarrow>
   \<exists>s'. query_loop lookup input tryit s = (Ok (), concat (map (answer_line dict) (queries input)), s') \<and> inv s'"
proof (induction "length input" arbitrary: input tryit s rule: less_induct)
  case less
  show ?case
  proof (cases "fgets WORD input")
    case None
    then show ?thesis using less.prems(1)
      by (simp add: query_loop.simps[of lookup input] queries.simps[of input])
  next
    case (Some p)
    then obtain got rest where f: "fgets WORD input = Some (got, rest)" by (cases p) auto
    have sp: "input = got @ rest" using fgets_split[OF f] .
    have shorter: "length rest < length input" using fgets_shorter[OF f] by (simp add: WORD_def)
    then have got: "got \<noteq> []" "nul_free got" "nul_free rest"
      using sp less.prems(3) by (auto simp: nul_free_def)
    have len: "length got < length (dword tryit)"
      using fgets_bound[OF f] less.prems(2) by (simp add: sized_def WORD_def)
    obtain word where w: "chop (fill (dword tryit) got) = Ok word" "cstr word = Ok (butlast got)"
        "length word = length (dword tryit)"
      using chop_fill[OF got(2,1) len] by blast
    have "sized (tryit\<lparr>dword := word\<rparr>)" using less.prems(2) w(3) by (simp add: sized_def)
    from lookup_dict[OF less.prems(1) this, of "butlast got"] w(2)
    obtain q r' s' where l: "lookup (tryit\<lparr>dword := word\<rparr>) s = (Ok (q, r'), s')" "inv s'" "sized r'"
        "cstr (dword r') = Ok (butlast got)"
        "case dict (butlast got) of None \<Rightarrow> q = NOTFOUND | Some t \<Rightarrow> q = FOUND \<and> cstr (dtext r') = Ok t"
      by auto
    have sa: "show_answer q r' = Ok (answer_line dict (butlast got))"
      using l(4,5) by (auto simp: show_answer_def answer_line_def FOUND_def NOTFOUND_def split: option.splits)
    obtain s'' where "query_loop lookup rest r' s' =
        (Ok (), concat (map (answer_line dict) (queries rest)), s'')" "inv s''"
      using less.hyps[OF shorter l(2,3) got(3)] by blast
    then show ?thesis using f w(1) l(1) sa
      by (simp add: query_loop.simps[of lookup input] queries.simps[of input])
  qed
qed

end

section \<open>The local lookups\<close>

text \<open>The dictionary a well-formed file holds, and the states of a lookup that has it open or will open it.\<close>

definition wf_file :: "string \<Rightarrow> bool" where
  "wf_file file \<longleftrightarrow> file \<noteq> [] \<and> wf_table (mmap_table file)"

definition file_dict :: "(string \<Rightarrow> string option) \<Rightarrow> string \<Rightarrow> string \<Rightarrow> string option" where
  "file_dict files resource w = (case files resource of None \<Rightarrow> None | Some file \<Rightarrow> dict_of (mmap_table file) w)"

definition local_inv :: "(string \<Rightarrow> string option) \<Rightarrow> string \<Rightarrow> lookup5_vars \<Rightarrow> bool" where
  "local_inv files resource s \<longleftrightarrow> (case files resource of None \<Rightarrow> False | Some file \<Rightarrow>
     wf_file file \<and> (l5_first s \<or> l5_table s = mmap_table file))"

lemma open_table_inv:
  "local_inv files resource s \<Longrightarrow>
   \<exists>s'. open_table files resource s = (Ok (), s') \<and> local_inv files resource s' \<and>
     wf_table (l5_table s') \<and> dict_of (l5_table s') = file_dict files resource"
  by (auto simp: local_inv_def open_table_def wf_file_def file_dict_def fun_eq_iff split: option.splits)

lemma search_service:
  assumes "wf_table t" and "sized r" and "cstr key = Ok w" and "cstr (dword r) = Ok w"
  shows "\<exists>q r'. search_table t key r = Ok (q, r') \<and> sized r' \<and> cstr (dword r') = Ok w \<and>
      (case dict_of t w of None \<Rightarrow> q = NOTFOUND \<and> r' = r | Some t \<Rightarrow> q = FOUND \<and> cstr (dtext r') = Ok t)"
  using search_table_wf[OF assms(1,3), of r] assms(2,4) strcpy_cstr strcpy_length
  by (fastforce simp: sized_def split: option.splits)

interpretation local: dict_service "lookup5 files resource" "local_inv files resource" "file_dict files resource"
  for files resource
proof
  fix s r w
  assume "local_inv files resource s" and r: "sized r" "cstr (dword r) = Ok w"
  then obtain s' where s': "open_table files resource s = (Ok (), s')" "local_inv files resource s'"
      "wf_table (l5_table s')" "dict_of (l5_table s') = file_dict files resource"
    using open_table_inv by blast
  from search_service[OF s'(3) r(1,2,2)] s'
  show "\<exists>q r' s'. lookup5 files resource r s = (Ok (q, r'), s') \<and> local_inv files resource s' \<and> sized r' \<and>
      cstr (dword r') = Ok w \<and>
      (case file_dict files resource w of None \<Rightarrow> q = NOTFOUND | Some t \<Rightarrow> q = FOUND \<and> cstr (dtext r') = Ok t)"
    by (fastforce simp: lookup5_def split: option.splits)
qed

text \<open>Any 32 bytes, for the uninitialised record.\<close>

definition any_word :: "string \<Rightarrow> string" where
  "any_word junk = take WORD (junk @ replicate WORD NUL)"

lemma any_word_length [simp]: "length (any_word junk) = WORD"
  by (simp add: any_word_def)

interpretation copying: dict_service "lookup5_copy (temp\<lparr>dword := any_word junk\<rparr>) files resource"
    "local_inv files resource" "file_dict files resource"
  for temp junk files resource
proof
  fix s r w
  assume "local_inv files resource s" and r: "sized r" "cstr (dword r) = Ok w"
  then obtain s' where s': "open_table files resource s = (Ok (), s')" "local_inv files resource s'"
      "wf_table (l5_table s')" "dict_of (l5_table s') = file_dict files resource"
    using open_table_inv by blast
  have "length w < length (any_word junk)" using cstr_length[OF r(2)] r(1) by (simp add: sized_def)
  then have k: "strcpy (any_word junk) w = Ok (w @ NUL # drop (Suc (length w)) (any_word junk))"
    by (rule strcpy_Ok)
  have "cstr (w @ NUL # drop (Suc (length w)) (any_word junk)) = Ok w"
    by (rule cstr_append[OF cstr_nul_free[OF r(2)]])
  from search_service[OF s'(3) r(1) this r(2)] s' r(2) k
  show "\<exists>q r' s'. lookup5_copy (temp\<lparr>dword := any_word junk\<rparr>) files resource r s = (Ok (q, r'), s') \<and>
      local_inv files resource s' \<and> sized r' \<and> cstr (dword r') = Ok w \<and>
      (case file_dict files resource w of None \<Rightarrow> q = NOTFOUND | Some t \<Rightarrow> q = FOUND \<and> cstr (dtext r') = Ok t)"
    by (fastforce simp: lookup5_copy_def split: option.splits)
qed

end
