(* ===== verification/DictNet.thy ===== *)
theory DictNet
  imports DictMain
begin

text \<open>
  The dictionary over sockets: the clients' \<open>lookup\<close> (lookup7.c over Unix stream sockets,
  lookup8.c over TCP, lookup9.c over UDP) and the servers usock_server.c, isock_server.c and
  udp_server.c, which answer from a local file with \<open>lookup5\<close>.  The socket calls are
  parameters of the clients; a server works on the sequence of messages its \<open>recv\<close> returns.
\<close>

section \<open>Clients\<close>

text \<open>The socket calls: whether they succeed, and the bytes \<open>recv\<close> got.\<close>

record 'n transport =
  tr_socket :: "(bool, 'n) cmd"
  tr_connect :: "string \<Rightarrow> (bool, 'n) cmd"
  tr_send :: "string \<Rightarrow> (bool, 'n) cmd"
  tr_recv :: "nat \<Rightarrow> (string option, 'n) cmd"

record 'n client =
  cl_first :: bool
  cl_net :: 'n

definition net_op :: "('a, 'n) cmd \<Rightarrow> ('a, 'n client) cmd" where
  "net_op m c = (case m (cl_net c) of (r, n) \<Rightarrow> (r, c\<lparr>cl_net := n\<rparr>))"

text \<open>\<open>if (call == -1) DIE (...);\<close>\<close>

definition or_die :: "(bool, 's) cmd \<Rightarrow> (unit, 's) cmd" where
  "or_die m = bindc m (\<lambda>ok. if ok then ret () else exitc 1)"

text \<open>A buffer of a record's size after \<open>recv\<close> wrote \<open>b\<close> to it.\<close>

definition receive :: "string \<Rightarrow> dictrec \<Rightarrow> dictrec" where
  "receive b r = rec_of (b @ drop (length b) (bytes_of r))"

text \<open>Send the whole record, overwrite it with the reply, and look at its text.\<close>

definition exchange :: "'n transport \<Rightarrow> dictrec \<Rightarrow> (int \<times> dictrec, 'n client) cmd" where
  "exchange tr sought =
     bindc (or_die (net_op (tr_send tr (bytes_of sought)))) (\<lambda>_.
     bindc (net_op (tr_recv tr sizeof_Dictrec)) (\<lambda>got. case got of
         None \<Rightarrow> exitc 1
       | Some b \<Rightarrow>
           bindc (ret (receive b sought)) (\<lambda>sought.
           bindc (liftc (cstr (dtext sought))) (\<lambda>t.
           if strcmp t ''XXXX'' \<noteq> 0 then ret (FOUND, sought) else ret (NOTFOUND, sought)))))"

text \<open>The size of \<open>sun_path\<close> in a Unix socket address on Linux.\<close>

definition SUN_PATH :: nat where "SUN_PATH = 108"

definition lookup7 :: "'n transport \<Rightarrow> string \<Rightarrow> dictrec \<Rightarrow> (int \<times> dictrec, 'n client) cmd" where
  "lookup7 tr resource sought c =
     bindc (if cl_first c
            then bindc (modifyc (\<lambda>c. c\<lparr>cl_first := False\<rparr>)) (\<lambda>_.
                 bindc (liftc (strcpy (replicate SUN_PATH NUL) resource)) (\<lambda>_.
                 seqc (or_die (net_op (tr_socket tr))) (or_die (net_op (tr_connect tr resource)))))
            else ret ()) (\<lambda>_. exchange tr sought) c"

definition lookup8 :: "'n transport \<Rightarrow> string \<Rightarrow> dictrec \<Rightarrow> (int \<times> dictrec, 'n client) cmd" where
  "lookup8 tr resource sought c =
     bindc (if cl_first c
            then bindc (modifyc (\<lambda>c. c\<lparr>cl_first := False\<rparr>)) (\<lambda>_.
                 seqc (or_die (net_op (tr_socket tr))) (or_die (net_op (tr_connect tr ''127.0.0.1:5678''))))
            else ret ()) (\<lambda>_. exchange tr sought) c"

definition lookup9 :: "'n transport \<Rightarrow> string \<Rightarrow> dictrec \<Rightarrow> (int \<times> dictrec, 'n client) cmd" where
  "lookup9 tr resource sought c =
     bindc (if cl_first c
            then bindc (modifyc (\<lambda>c. c\<lparr>cl_first := False\<rparr>)) (\<lambda>_. or_die (net_op (tr_socket tr)))
            else ret ()) (\<lambda>_. exchange tr sought) c"

section \<open>Servers\<close>

text \<open>
  The server's record, the state of its \<open>lookup\<close>, and what it has sent, each message with the
  number of the peer it went to.
\<close>

record 's server =
  sv_rec :: dictrec
  sv_lookup :: 's
  sv_out :: "(nat \<times> string) list"

definition reply :: "(nat \<Rightarrow> bool) \<Rightarrow> nat \<Rightarrow> (unit, 's server) cmd" where
  "reply send_ok peer sv =
     (if send_ok (length (sv_out sv))
      then (Ok (), sv\<lparr>sv_out := sv_out sv @ [(peer, bytes_of (sv_rec sv))]\<rparr>)
      else (Exit 1, sv))"

text \<open>The switch over the lookup's result in the loop of all three servers.\<close>

definition serve_request ::
  "(dictrec \<Rightarrow> (int \<times> dictrec, 's) cmd) \<Rightarrow> (nat \<Rightarrow> bool) \<Rightarrow> nat \<Rightarrow> (unit, 's server) cmd" where
  "serve_request lookup send_ok peer sv =
     (case lookup (sv_rec sv) (sv_lookup sv) of
        (Ok (r, tryit), l) \<Rightarrow>
          (if r = FOUND then reply send_ok peer
           else if r = NOTFOUND
           then bindc (liftc (strcpy (dtext tryit) ''XXXX'')) (\<lambda>t.
                seqc (modifyc (\<lambda>sv. sv\<lparr>sv_rec := tryit\<lparr>dtext := t\<rparr>\<rparr>)) (reply send_ok peer))
           else if r = UNAVAIL then exitc 1
           else ret ()) (sv\<lparr>sv_rec := tryit, sv_lookup := l\<rparr>)
      | (e, l) \<Rightarrow> (obind e (\<lambda>_. Ok ()), sv\<lparr>sv_lookup := l\<rparr>))"

text \<open>
  The child of usock_server.c and isock_server.c for one connection, on the results of its
  \<open>recv\<close> calls; an empty one is the end of the stream.
\<close>

fun stream_child ::
  "(dictrec \<Rightarrow> (int \<times> dictrec, 's) cmd) \<Rightarrow> (nat \<Rightarrow> bool) \<Rightarrow> nat \<Rightarrow> string list \<Rightarrow> (unit, 's server) cmd" where
  "stream_child lookup send_ok cd [] = exitc 0"
| "stream_child lookup send_ok cd (m # ms) =
     (if m = [] then exitc 0
      else seqc (modifyc (\<lambda>sv. sv\<lparr>sv_rec := receive m (sv_rec sv)\<rparr>))
           (seqc (serve_request lookup send_ok cd) (stream_child lookup send_ok cd ms)))"

text \<open>
  The endless loop of udp_server.c on the datagrams received so far, each with its sender; an empty
  datagram only restarts the inner loop.
\<close>

fun udp_loop ::
  "(dictrec \<Rightarrow> (int \<times> dictrec, 's) cmd) \<Rightarrow> (nat \<Rightarrow> bool) \<Rightarrow> (nat \<times> string) list \<Rightarrow> (unit, 's server) cmd" where
  "udp_loop lookup send_ok [] = ret ()"
| "udp_loop lookup send_ok ((peer, m) # ms) =
     (if m = [] then udp_loop lookup send_ok ms
      else seqc (modifyc (\<lambda>sv. sv\<lparr>sv_rec := receive m (sv_rec sv)\<rparr>))
           (seqc (serve_request lookup send_ok peer) (udp_loop lookup send_ok ms)))"

text \<open>
  The listening process of the stream servers: the success of each setup call, and for each
  \<open>accept\<close> its failure (\<open>None\<close>), a failed \<open>fork\<close> after it
  (\<open>Some None\<close>), or what the child receives.  The parent never calls \<open>lookup\<close>, so every
  child starts from the initial state.  The result is how the parent ends (it is still waiting when
  the list is used up) and the end of each child; connections are numbered from 0.
\<close>

record listen_os =
  li_socket :: bool
  li_setsockopt :: bool
  li_bind :: bool
  li_listen :: bool

fun accept_loop ::
  "(nat \<Rightarrow> string list \<Rightarrow> 'c) \<Rightarrow> nat \<Rightarrow> string list option option list \<Rightarrow> unit outcome \<times> 'c list" where
  "accept_loop child n [] = (Ok (), [])"
| "accept_loop child n (None # conns) = (Exit 1, [])"
| "accept_loop child n (Some None # conns) = (Exit 1, [])"
| "accept_loop child n (Some (Some msgs) # conns) =
     (case accept_loop child (Suc n) conns of (e, ended) \<Rightarrow> (e, child n msgs # ended))"

definition usock_server ::
  "(string \<Rightarrow> dictrec \<Rightarrow> (int \<times> dictrec, 's) cmd) \<Rightarrow> (nat \<Rightarrow> bool) \<Rightarrow> listen_os \<Rightarrow> 's server \<Rightarrow>
   string list \<Rightarrow> string list option option list \<Rightarrow> unit outcome \<times> (unit outcome \<times> 's server) list" where
  "usock_server lookup send_ok li sv argv conns =
     (if length argv \<noteq> 3 then (Exit 0, [])
      else if \<not> li_socket li then (Exit 1, [])
      else case strcpy (replicate SUN_PATH NUL) (argv ! 2) of
          Ok _ \<Rightarrow>
            if \<not> li_bind li then (Exit 1, [])
            else if \<not> li_listen li then (Exit 1, [])
            else accept_loop (\<lambda>cd msgs. stream_child (lookup (argv ! 1)) send_ok cd msgs sv) 0 conns
        | e \<Rightarrow> (obind e (\<lambda>_. Ok ()), []))"

definition isock_server ::
  "(string \<Rightarrow> dictrec \<Rightarrow> (int \<times> dictrec, 's) cmd) \<Rightarrow> (nat \<Rightarrow> bool) \<Rightarrow> listen_os \<Rightarrow> 's server \<Rightarrow>
   string list \<Rightarrow> string list option option list \<Rightarrow> unit outcome \<times> (unit outcome \<times> 's server) list" where
  "isock_server lookup send_ok li sv argv conns =
     (if length argv \<noteq> 2 then (Exit 1, [])
      else if \<not> li_socket li then (Exit 1, [])
      else if \<not> li_setsockopt li then (Exit 1, [])
      else if \<not> li_bind li then (Exit 1, [])
      else if \<not> li_listen li then (Exit 1, [])
      else accept_loop (\<lambda>cd msgs. stream_child (lookup (argv ! 1)) send_ok cd msgs sv) 0 conns)"

definition udp_server ::
  "(string \<Rightarrow> dictrec \<Rightarrow> (int \<times> dictrec, 's) cmd) \<Rightarrow> (nat \<Rightarrow> bool) \<Rightarrow> listen_os \<Rightarrow>
   string list \<Rightarrow> (nat \<times> string) list \<Rightarrow> (unit, 's server) cmd" where
  "udp_server lookup send_ok li argv datagrams =
     (if length argv \<noteq> 2 then exitc 0
      else if \<not> li_socket li then exitc 1
      else if \<not> li_setsockopt li then exitc 1
      else if \<not> li_bind li then exitc 1
      else udp_loop (lookup (argv ! 1)) send_ok datagrams)"

end
