(* ===== verification/DictNetFacts.thy ===== *)
theory DictNetFacts
  imports DictNet
begin

text \<open>
  What the socket servers answer and that a client that talks to one behaves like the local lookup.
  The locale \<open>dict_server\<close> extends the lookup's interface by the server around it; its
  sublocales say that each client, linked to such a server, is again a dictionary service.
\<close>

section \<open>The text that stands for \<open>not found\<close>\<close>

text \<open>What a client can know of a dictionary: an entry whose text is the marker looks absent.\<close>

definition remote_dict :: "(string \<Rightarrow> string option) \<Rightarrow> string \<Rightarrow> string option" where
  "remote_dict dict w = (case dict w of Some t \<Rightarrow> if t = ''XXXX'' then None else Some t | None \<Rightarrow> None)"

text \<open>The text of the reply to a question.\<close>

definition reply_text :: "(string \<Rightarrow> string option) \<Rightarrow> string \<Rightarrow> string" where
  "reply_text dict w = (case dict w of Some t \<Rightarrow> t | None \<Rightarrow> ''XXXX'')"

lemma remote_dict_reply: "remote_dict dict w = (if reply_text dict w = ''XXXX'' then None else Some (reply_text dict w))"
  by (auto simp: remote_dict_def reply_text_def split: option.splits)

lemma receive_whole: "length b = sizeof_Dictrec \<Longrightarrow> sized r \<Longrightarrow> receive b r = rec_of b"
  by (simp add: receive_def bytes_of_length)

lemma receive_empty: "sized r \<Longrightarrow> receive [] r = r"
  by (simp add: receive_def rec_of_bytes_of)

text \<open>
  A message is a question for \<open>w\<close>: a whole record with a terminated word.  A reply answers it: a
  whole record with the same word and the right text.
\<close>

definition asks :: "string \<Rightarrow> string \<Rightarrow> bool" where
  "asks w m \<longleftrightarrow> length m = sizeof_Dictrec \<and> cstr (dword (rec_of m)) = Ok w"

definition answers :: "(string \<Rightarrow> string option) \<Rightarrow> string \<Rightarrow> string \<Rightarrow> bool" where
  "answers dict w m \<longleftrightarrow> asks w m \<and> cstr (dtext (rec_of m)) = Ok (reply_text dict w)"

text \<open>Replies to questions that came from the given peers, one for one and in the same order.\<close>

definition replies_to ::
  "(string \<Rightarrow> string option) \<Rightarrow> (nat \<times> string) list \<Rightarrow> (nat \<times> string) list \<Rightarrow> bool" where
  "replies_to dict qs out \<longleftrightarrow> list_all2 (\<lambda>(p, w) (p', m). p' = p \<and> answers dict w m) qs out"

section \<open>A server and its clients\<close>

text \<open>
  The transport that carries each message to a server that is waiting for it, and back: the server
  (with the number of replies the client has taken) works off a message when it is sent; a client
  that finds no reply sees the end of the stream.
\<close>

type_synonym 's linked = "'s server \<times> nat"

definition link :: "(dictrec \<Rightarrow> (int \<times> dictrec, 's) cmd) \<Rightarrow> 's linked transport" where
  "link lookup = \<lparr>tr_socket = ret True, tr_connect = (\<lambda>_. ret True),
     tr_send = (\<lambda>b (sv, k). (Ok True,
       snd (serve_request lookup (\<lambda>_. True) 0 (sv\<lparr>sv_rec := receive b (sv_rec sv)\<rparr>)), k)),
     tr_recv = (\<lambda>n (sv, k).
       if k < length (sv_out sv) then (Ok (Some (take n (snd (sv_out sv ! k)))), sv, Suc k)
       else (Ok (Some []), sv, k))\<rparr>"

locale dict_server = dict_service lookup inv dict
  for lookup :: "dictrec \<Rightarrow> (int \<times> dictrec, 's) cmd" and inv dict
begin

definition server_inv :: "'s server \<Rightarrow> bool" where
  "server_inv sv \<longleftrightarrow> inv (sv_lookup sv) \<and> sized (sv_rec sv)"

lemma serve_request_answers:
  assumes "server_inv sv" and "cstr (dword (sv_rec sv)) = Ok w" and "send_ok (length (sv_out sv))"
  shows "\<exists>m sv'. serve_request lookup send_ok peer sv = (Ok (), sv') \<and> server_inv sv' \<and>
    answers dict w m \<and> sv_out sv' = sv_out sv @ [(peer, m)]"
proof -
  obtain q r l where r: "lookup (sv_rec sv) (sv_lookup sv) = (Ok (q, r), l)" "inv l" "sized r"
      "cstr (dword r) = Ok w"
      "case dict w of None \<Rightarrow> q = NOTFOUND | Some t \<Rightarrow> q = FOUND \<and> cstr (dtext r) = Ok t"
    using lookup_dict[of "sv_lookup sv" "sv_rec sv" w] assms(1,2) by (auto simp: server_inv_def)
  let ?sv = "sv\<lparr>sv_rec := r, sv_lookup := l\<rparr>"
  have ans: "answers dict w (bytes_of r')" if "sized r'" "cstr (dword r') = Ok w" "cstr (dtext r') = Ok (reply_text dict w)" for r'
    using that by (simp add: answers_def asks_def bytes_of_length rec_of_bytes_of)
  show ?thesis
  proof (cases "dict w")
    case None
    let ?t = "''XXXX'' @ NUL # drop (Suc (length ''XXXX'')) (dtext r)"
    let ?r = "r\<lparr>dtext := ?t\<rparr>"
    have t: "strcpy (dtext r) ''XXXX'' = Ok ?t" using r(3) by (intro strcpy_Ok) (simp add: sized_def TEXT_def)
    have "sized ?r" using r(3) strcpy_length[OF t] by (simp add: sized_def)
    moreover have "cstr ?t = Ok ''XXXX''" by (rule cstr_append) (simp add: nul_free_def)
    ultimately have "answers dict w (bytes_of ?r)" "sized ?r" using ans[of ?r] r(4) None by (simp_all add: reply_text_def)
    moreover have "serve_request lookup send_ok peer sv
        = (Ok (), ?sv\<lparr>sv_rec := ?r, sv_out := sv_out sv @ [(peer, bytes_of ?r)]\<rparr>)"
      using r(1,5) t assms(3) None
      by (simp add: serve_request_def reply_def FOUND_def NOTFOUND_def seqc_def)
    ultimately show ?thesis using r(2) by (auto simp: server_inv_def)
  next
    case (Some t)
    then have "answers dict w (bytes_of r)" using ans[of r] r(3,4,5) by (simp add: reply_text_def)
    moreover have "serve_request lookup send_ok peer sv = (Ok (), ?sv\<lparr>sv_out := sv_out sv @ [(peer, bytes_of r)]\<rparr>)"
      using r(1,5) assms(3) Some by (simp add: serve_request_def reply_def FOUND_def)
    ultimately show ?thesis using r(2,3) by (auto simp: server_inv_def)
  qed
qed

lemma server_inv_receive:
  "server_inv sv \<Longrightarrow> asks w m \<Longrightarrow> server_inv (sv\<lparr>sv_rec := receive m (sv_rec sv)\<rparr>) \<and>
   cstr (dword (receive m (sv_rec sv))) = Ok w"
  by (auto simp: server_inv_def asks_def receive_whole rec_of_sized)

lemma asks_nonempty: "asks w m \<Longrightarrow> m \<noteq> []"
  by (auto simp: asks_def sizeof_Dictrec_def WORD_def)

lemma udp_loop_answers:
  assumes "list_all2 (\<lambda>(p, w) (p', m). p' = p \<and> asks w m) qs ms"
  shows "server_inv sv \<Longrightarrow> \<exists>sv' out. udp_loop lookup (\<lambda>_. True) ms sv = (Ok (), sv') \<and>
    sv_out sv' = sv_out sv @ out \<and> replies_to dict qs out"
  using assms
proof (induction qs ms arbitrary: sv rule: list_all2_induct)
  case (Cons q qs m ms)
  obtain p w where q: "q = (p, w)" by (cases q)
  obtain b where m: "m = (p, b)" "asks w b" using Cons.hyps(1) q by (cases m) auto
  note rcv = server_inv_receive[OF Cons.prems m(2)]
  obtain a sv1 where sv1: "serve_request lookup (\<lambda>_. True) p (sv\<lparr>sv_rec := receive b (sv_rec sv)\<rparr>) = (Ok (), sv1)"
      "server_inv sv1" "answers dict w a" "sv_out sv1 = sv_out sv @ [(p, a)]"
    using serve_request_answers[OF conjunct1[OF rcv], of w "\<lambda>_. True" p] rcv by auto
  obtain sv' out where "udp_loop lookup (\<lambda>_. True) ms sv1 = (Ok (), sv')"
      "sv_out sv' = sv_out sv1 @ out" "replies_to dict qs out"
    using Cons.IH[OF sv1(2)] by blast
  then show ?case using sv1 m q asks_nonempty[OF m(2)]
    by (auto simp: replies_to_def seqc_def intro!: exI[of _ "(p, a) # out"])
qed (auto simp: replies_to_def)

lemma stream_child_answers:
  assumes "list_all2 asks ws ms"
  shows "server_inv sv \<Longrightarrow> \<exists>sv' out. stream_child lookup (\<lambda>_. True) cd ms sv = (Exit 0, sv') \<and>
    sv_out sv' = sv_out sv @ out \<and> replies_to dict (map (Pair cd) ws) out"
  using assms
proof (induction ws ms arbitrary: sv rule: list_all2_induct)
  case (Cons w ws m ms)
  note rcv = server_inv_receive[OF Cons.prems Cons.hyps(1)]
  obtain a sv1 where sv1: "serve_request lookup (\<lambda>_. True) cd (sv\<lparr>sv_rec := receive m (sv_rec sv)\<rparr>) = (Ok (), sv1)"
      "server_inv sv1" "answers dict w a" "sv_out sv1 = sv_out sv @ [(cd, a)]"
    using serve_request_answers[OF conjunct1[OF rcv], of w "\<lambda>_. True" cd] rcv by auto
  obtain sv' out where "stream_child lookup (\<lambda>_. True) cd ms sv1 = (Exit 0, sv')"
      "sv_out sv' = sv_out sv1 @ out" "replies_to dict (map (Pair cd) ws) out"
    using Cons.IH[OF sv1(2)] by blast
  then show ?case using sv1 asks_nonempty[OF Cons.hyps(1)]
    by (auto simp: replies_to_def seqc_def intro!: exI[of _ "(cd, a) # out"])
qed (auto simp: replies_to_def)

definition client_inv :: "'s linked client \<Rightarrow> bool" where
  "client_inv c \<longleftrightarrow> (case cl_net c of (sv, k) \<Rightarrow> server_inv sv \<and> k = length (sv_out sv))"

lemma exchange_service:
  assumes "client_inv c" and "sized r" and "cstr (dword r) = Ok w"
  shows "\<exists>q r' c'. exchange (link lookup) r c = (Ok (q, r'), c') \<and> client_inv c' \<and> sized r' \<and>
    cstr (dword r') = Ok w \<and>
    (case remote_dict dict w of None \<Rightarrow> q = NOTFOUND | Some t \<Rightarrow> q = FOUND \<and> cstr (dtext r') = Ok t)"
proof -
  obtain sv where c: "cl_net c = (sv, length (sv_out sv))" "server_inv sv"
    using assms(1) by (auto simp: client_inv_def split: prod.splits)
  have m: "asks w (bytes_of r)" using assms(2,3) by (simp add: asks_def bytes_of_length rec_of_bytes_of)
  note rcv = server_inv_receive[OF c(2) m]
  obtain a sv1 where sv1: "serve_request lookup (\<lambda>_. True) 0 (sv\<lparr>sv_rec := receive (bytes_of r) (sv_rec sv)\<rparr>) = (Ok (), sv1)"
      "server_inv sv1" "answers dict w a" "sv_out sv1 = sv_out sv @ [(0, a)]"
    using serve_request_answers[OF conjunct1[OF rcv], of w "\<lambda>_. True" 0] rcv by auto
  have a: "length a = sizeof_Dictrec" "cstr (dword (rec_of a)) = Ok w" "cstr (dtext (rec_of a)) = Ok (reply_text dict w)"
    using sv1(3) by (auto simp: answers_def asks_def)
  let ?c = "c\<lparr>cl_net := (sv1, Suc (length (sv_out sv)))\<rparr>"
  have "exchange (link lookup) r c =
      (Ok (if reply_text dict w = ''XXXX'' then NOTFOUND else FOUND, rec_of a), ?c)"
    using c(1) sv1(1,4) a receive_whole[OF a(1) assms(2)]
    by (simp add: exchange_def or_die_def net_op_def link_def bindc_def)
  moreover have "client_inv ?c" using sv1(2,4) by (simp add: client_inv_def)
  ultimately show ?thesis using a rec_of_sized[OF a(1)] by (simp add: remote_dict_reply)
qed

lemma link_setup:
  "tr_socket (link lookup) n = (Ok True, n)" "tr_connect (link lookup) str n = (Ok True, n)"
  by (simp_all add: link_def)

sublocale unix: dict_service "lookup7 (link lookup) resource" "\<lambda>c. client_inv c \<and> length resource < SUN_PATH"
    "remote_dict dict" for resource
proof
  fix c r w
  assume c: "client_inv c \<and> length resource < SUN_PATH" and r: "sized r" "cstr (dword r) = Ok w"
  then have c': "client_inv (c\<lparr>cl_first := False\<rparr>)" by (simp add: client_inv_def)
  have "lookup7 (link lookup) resource r c = exchange (link lookup) r (if cl_first c then c\<lparr>cl_first := False\<rparr> else c)"
    using c by (simp add: lookup7_def strcpy_def or_die_def net_op_def link_setup seqc_def bindc_def)
  then show "\<exists>q r' c'. lookup7 (link lookup) resource r c = (Ok (q, r'), c') \<and>
      (client_inv c' \<and> length resource < SUN_PATH) \<and> sized r' \<and> cstr (dword r') = Ok w \<and>
      (case remote_dict dict w of None \<Rightarrow> q = NOTFOUND | Some t \<Rightarrow> q = FOUND \<and> cstr (dtext r') = Ok t)"
    using exchange_service[OF _ r] c c' by auto
qed

sublocale tcp: dict_service "lookup8 (link lookup) resource" client_inv "remote_dict dict" for resource
proof
  fix c r w
  assume c: "client_inv c" and r: "sized r" "cstr (dword r) = Ok w"
  then have c': "client_inv (c\<lparr>cl_first := False\<rparr>)" by (simp add: client_inv_def)
  have "lookup8 (link lookup) resource r c = exchange (link lookup) r (if cl_first c then c\<lparr>cl_first := False\<rparr> else c)"
    by (simp add: lookup8_def or_die_def net_op_def link_setup seqc_def bindc_def)
  then show "\<exists>q r' c'. lookup8 (link lookup) resource r c = (Ok (q, r'), c') \<and> client_inv c' \<and> sized r' \<and>
      cstr (dword r') = Ok w \<and>
      (case remote_dict dict w of None \<Rightarrow> q = NOTFOUND | Some t \<Rightarrow> q = FOUND \<and> cstr (dtext r') = Ok t)"
    using exchange_service[OF _ r] c c' by auto
qed

sublocale udp: dict_service "lookup9 (link lookup) resource" client_inv "remote_dict dict" for resource
proof
  fix c r w
  assume c: "client_inv c" and r: "sized r" "cstr (dword r) = Ok w"
  then have c': "client_inv (c\<lparr>cl_first := False\<rparr>)" by (simp add: client_inv_def)
  have "lookup9 (link lookup) resource r c = exchange (link lookup) r (if cl_first c then c\<lparr>cl_first := False\<rparr> else c)"
    by (simp add: lookup9_def or_die_def net_op_def link_setup seqc_def bindc_def)
  then show "\<exists>q r' c'. lookup9 (link lookup) resource r c = (Ok (q, r'), c') \<and> client_inv c' \<and> sized r' \<and>
      cstr (dword r') = Ok w \<and>
      (case remote_dict dict w of None \<Rightarrow> q = NOTFOUND | Some t \<Rightarrow> q = FOUND \<and> cstr (dtext r') = Ok t)"
    using exchange_service[OF _ r] c c' by auto
qed

end

interpretation file_server: dict_server "lookup5 files resource" "local_inv files resource" "file_dict files resource"
  for files resource
  by unfold_locales

end
