(* ===== verification/DictProps.thy ===== *)
theory DictProps
  imports DictNetFacts
begin

text \<open>
  The properties of the dictionary: files written from a sorted list of entries, the local lookup
  and the main program on them, the servers, and the clients as refinements of the local lookup.
\<close>

section \<open>Files of entries\<close>

text \<open>A file of the records for some words and texts, padded with NULs.\<close>

definition pad :: "nat \<Rightarrow> string \<Rightarrow> string" where
  "pad n s = s @ replicate (n - length s) NUL"

definition entry_rec :: "string \<times> string \<Rightarrow> dictrec" where
  "entry_rec e = \<lparr>dword = pad WORD (fst e), dtext = pad TEXT (snd e)\<rparr>"

definition encode :: "(string \<times> string) list \<Rightarrow> string" where
  "encode es = concat (map (bytes_of \<circ> entry_rec) es)"

definition ok_entries :: "(string \<times> string) list \<Rightarrow> bool" where
  "ok_entries es \<longleftrightarrow> es \<noteq> [] \<and> dict_sorted (map fst es) \<and>
     (\<forall>(w, t) \<in> set es. nul_free w \<and> nul_free t \<and> length w < WORD \<and> length t < TEXT)"

lemma cstr_pad: "nul_free s \<Longrightarrow> length s < n \<Longrightarrow> cstr (pad n s) = Ok s"
  by (cases "n - length s") (simp_all add: pad_def cstr_append)

lemma sized_entry: "length w < WORD \<Longrightarrow> length t < TEXT \<Longrightarrow> sized (entry_rec (w, t))"
  by (simp add: sized_def entry_rec_def pad_def)

lemma table_of_concat:
  "\<forall>r \<in> set rs. sized r \<Longrightarrow> table_of (length rs) (concat (map bytes_of rs)) = rs"
  by (induction rs) (auto simp: bytes_of_length rec_of_bytes_of)

lemma mmap_table_concat:
  assumes "\<forall>r \<in> set rs. sized r"
  shows "mmap_table (concat (map bytes_of rs)) = rs"
proof -
  have "length (concat (map bytes_of rs)) = length rs * sizeof_Dictrec"
    using assms by (induction rs) (simp_all add: bytes_of_length)
  then show ?thesis using table_of_concat[OF assms] by (simp add: mmap_table_def sizeof_Dictrec_def WORD_def)
qed

lemma entry_words:
  assumes "nul_free w" "nul_free t" "length w < WORD" "length t < TEXT"
  shows "word_in (entry_rec (w, t)) = w" and "text_in (entry_rec (w, t)) = t"
    and "NUL \<in> set (dword (entry_rec (w, t)))" and "NUL \<in> set (dtext (entry_rec (w, t)))"
  using assms cstr_pad[of w WORD] cstr_pad[of t TEXT]
  by (auto simp: entry_rec_def word_in_def text_in_def cstr_def split: if_splits)

lemma encode_table:
  assumes "ok_entries es"
  shows "mmap_table (encode es) = map entry_rec es" and "wf_file (encode es)"
    and "dict_of (mmap_table (encode es)) = map_of es"
proof -
  have ok: "nul_free (fst e)" "nul_free (snd e)" "length (fst e) < WORD" "length (snd e) < TEXT" if "e \<in> set es" for e
    using assms that by (auto simp: ok_entries_def)
  show t: "mmap_table (encode es) = map entry_rec es"
    unfolding encode_def using mmap_table_concat[of "map entry_rec es"] ok sized_entry
    by (fastforce simp: comp_def)
  have w: "map (word_in \<circ> entry_rec) es = map fst es"
    using ok by (auto simp: entry_words)
  have "(\<forall>r \<in> set (map entry_rec es). sized r \<and> NUL \<in> set (dword r) \<and> NUL \<in> set (dtext r))"
    using ok by (auto simp: entry_words sized_entry)
  moreover have "encode es \<noteq> []"
    using assms ok by (cases es) (auto simp: ok_entries_def encode_def entry_rec_def bytes_of_def pad_def)
  moreover have "dict_sorted (map word_in (map entry_rec es))"
    unfolding map_map w using assms by (simp add: ok_entries_def)
  ultimately show "wf_file (encode es)" unfolding wf_file_def wf_table_def t by simp
  have "map (\<lambda>r. (word_in r, text_in r)) (map entry_rec es) = es"
    using ok by (auto simp: entry_words intro!: map_idI)
  then show "dict_of (mmap_table (encode es)) = map_of es" unfolding dict_of_def t by simp
qed

lemma encoded_dict:
  assumes "ok_entries es" and "files resource = Some (encode es)"
  shows "local_inv files resource lookup5_init" and "file_dict files resource = map_of es"
  using encode_table[OF assms(1)] assms(2)
  by (auto simp: local_inv_def lookup5_init_def file_dict_def fun_eq_iff)


lemma dict_main_loop:
  "query_loop (lookup resource) input tryit s = (Ok (), out, s') \<Longrightarrow>
   dict_main lookup [prog, resource] input tryit s = (Exit 0, out, s')"
  by (simp add: dict_main_def)

text \<open>Three entries for the witnesses.\<close>

definition some_entries :: "(string \<times> string) list" where
  "some_entries = [(''ant'', ''an insect''), (''bee'', ''XXXX''), (''cat'', ''a pet'')]"

lemma some_entries_ok: "ok_entries some_entries"
  by (simp add: ok_entries_def some_entries_def dict_sorted_def nul_free_def WORD_def TEXT_def)

definition blank_rec :: dictrec where
  "blank_rec = \<lparr>dword = replicate WORD NUL, dtext = replicate TEXT NUL\<rparr>"

lemma blank_rec_sized [simp]: "sized blank_rec"
  by (simp add: blank_rec_def sized_def)

section \<open>Properties of the local dictionary\<close>

text \<open>
  C11: \<open>lookup5\<close> is correct: on a file whose records hold terminated strings and whose words are
  strictly sorted, and whether or not it is the first call, a terminated word is found exactly when
  some record has it; then the text of that record is copied into the caller's record, and otherwise
  that record is left as it was.  The word itself never changes.
\<close>

theorem lookup5_correct:
  assumes "files resource = Some file" and "wf_file file"
    and "l5_first s \<or> l5_table s = mmap_table file" and "sized r" and "cstr (dword r) = Ok w"
  shows "\<exists>q r' s'. lookup5 files resource r s = (Ok (q, r'), s') \<and> l5_table s' = mmap_table file \<and>
    (if \<exists>d \<in> set (mmap_table file). word_in d = w
     then q = FOUND \<and> dword r' = dword r \<and>
       (\<exists>d \<in> set (mmap_table file). word_in d = w \<and> cstr (dtext r') = Ok (text_in d))
     else q = NOTFOUND \<and> r' = r)"
proof -
  let ?t = "mmap_table file"
  have wf: "wf_table ?t" "file \<noteq> []" using assms(2) by (auto simp: wf_file_def)
  have "\<exists>s'. open_table files resource s = (Ok (), s') \<and> l5_table s' = ?t"
    using assms(1,3) wf(2) by (cases "l5_first s") (auto simp: open_table_def)
  then obtain s' where s': "open_table files resource s = (Ok (), s')" "l5_table s' = ?t" by blast
  have len: "length (dtext r) = TEXT" using assms(4) by (simp add: sized_def)
  obtain x where x: "search_table ?t (dword r) r = Ok x"
      "case dict_of ?t w of None \<Rightarrow> x = (NOTFOUND, r)
       | Some y \<Rightarrow> \<exists>text. x = (FOUND, r\<lparr>dtext := text\<rparr>) \<and> strcpy (dtext r) y = Ok text \<and> nul_free y"
    using search_table_wf[OF wf(1) assms(5) len] by blast
  have l: "lookup5 files resource r s = (Ok x, s')" using s' x(1) by (simp add: lookup5_def)
  show ?thesis
  proof (cases "dict_of ?t w")
    case None
    then have "\<not> (\<exists>d \<in> set ?t. word_in d = w)" by (force simp: dict_of_def map_of_eq_None_iff)
    then show ?thesis using l s'(2) x(2) None by auto
  next
    case (Some y)
    then have "(w, y) \<in> set (map (\<lambda>r. (word_in r, text_in r)) ?t)" unfolding dict_of_def by (rule map_of_SomeD)
    then obtain d where d: "d \<in> set ?t" "word_in d = w" "text_in d = y" by auto
    obtain buf where "x = (FOUND, r\<lparr>dtext := buf\<rparr>)" "cstr buf = Ok y"
      using x(2) Some strcpy_cstr by auto
    then show ?thesis using l s'(2) d by auto
  qed
qed

theorem lookup5_correct_witness:
  "\<exists>q r' s'. lookup5 (\<lambda>_. Some (encode some_entries)) ''fixrec'' (entry_rec (''cat'', [])) lookup5_init
     = (Ok (q, r'), s') \<and> q = FOUND"
proof -
  have c: "cstr (dword (entry_rec (''cat'', []))) = Ok ''cat''"
    by (simp add: entry_rec_def cstr_pad nul_free_def WORD_def)
  have m: "\<exists>d \<in> set (mmap_table (encode some_entries)). word_in d = ''cat''"
    unfolding encode_table(1)[OF some_entries_ok] using entry_words(1)[of "''cat''" "''a pet''"]
    by (simp add: some_entries_def nul_free_def WORD_def TEXT_def)
  show ?thesis
    using lookup5_correct[of "\<lambda>_. Some (encode some_entries)" "''fixrec''" "encode some_entries" lookup5_init
        "entry_rec (''cat'', [])" "''cat''"] encode_table(2)[OF some_entries_ok] c m sized_entry[of "''cat''" "[]"]
    by (auto simp: lookup5_init_def WORD_def TEXT_def)
qed

text \<open>
  C20: \<open>lookup5\<close> of SP_HW12, which searches with a private copy of the word, agrees with
  \<open>lookup5\<close> of SP_HW11 on every terminated word that fits its record, for every file (sorted
  or not, terminated or not) and every state.
\<close>

theorem lookup5_copy_equivalent:
  assumes "cstr (dword r) = Ok w" and "length w < length (dword temp)"
  shows "lookup5_copy temp files resource r s = lookup5 files resource r s"
proof -
  obtain key where k: "strcpy (dword temp) w = Ok key" "cstr key = Ok w"
    using strcpy_Ok[OF assms(2)] strcpy_cstr[OF _ cstr_nul_free[OF assms(1)]] by blast
  have "dict_cmp key = dict_cmp (dword r)" using k(2) assms(1) by (simp add: dict_cmp_def fun_eq_iff)
  then have "search_table t key r = search_table t (dword r) r" for t by (simp add: search_table_def)
  then show ?thesis using assms(1) k(1)
    by (auto simp: lookup5_copy_def lookup5_def bindc_def split: prod.split outcome.split)
qed

theorem lookup5_copy_equivalent_witness:
  "lookup5_copy blank_rec (\<lambda>_. None) ''f'' blank_rec lookup5_init = lookup5 (\<lambda>_. None) ''f'' blank_rec lookup5_init"
  by (rule lookup5_copy_equivalent[of _ "[]"]) (simp_all add: blank_rec_def cstr_def WORD_def)



text \<open>
  A line longer than the buffer: main.c removes the last of the 31 characters \<open>fgets\<close> returned
  although it is not a newline, looks up the first 30, and takes the rest of the line for the next
  word.
\<close>

theorem main_splits_long_line:
  assumes "ok_entries es" and "files resource = Some (encode es)" and "sized tryit"
    and "nul_free (l @ rest)" and "newline \<notin> set l" and "length l = WORD - 1"
  shows "\<exists>s'. dict_main (lookup5 files) [prog, resource] (l @ rest) tryit lookup5_init
    = (Exit 0, answer_line (map_of es) (butlast l) @ concat (map (answer_line (map_of es)) (queries rest)), s')"
proof -
  have "l \<noteq> []" using assms(6) by (auto simp: WORD_def)
  have "takeWhile (\<lambda>c. c \<noteq> newline) (l @ rest) = l @ takeWhile (\<lambda>c. c \<noteq> newline) rest"
    using assms(5) by (intro takeWhile_append2) auto
  then have "take (WORD - 1) (fgets_line (l @ rest)) = l"
    using assms(6) by (simp add: fgets_line_def)
  then have "fgets WORD (l @ rest) = Some (l, rest)" using \<open>l \<noteq> []\<close> by (simp add: fgets_def Let_def)
  then have q: "queries (l @ rest) = butlast l # queries rest" by (simp add: queries.simps[of "l @ rest"])
  from local.loop_answers[OF encoded_dict(1)[of es files resource, OF assms(1,2)] assms(3,4)]
  show ?thesis unfolding q encoded_dict(2)[of es files resource, OF assms(1,2)] by (force intro: dict_main_loop)
qed

theorem main_splits_long_line_witness:
  "\<exists>s'. dict_main (lookup5 (\<lambda>_. Some (encode some_entries))) [''main'', ''fixrec'']
     (replicate 31 CHR ''z'' @ ''t'' @ [newline]) blank_rec lookup5_init
     = (Exit 0, replicate 30 CHR ''z'' @ '' : Not Found!'' @ newline # ''t : Not Found!'' @ [newline], s')"
proof -
  have q: "queries (''t'' @ [newline]) = [''t'']" using queries_lines[of "[''t'']"] by (simp add: WORD_def)
  have b: "butlast (replicate 31 CHR ''z'') = replicate 30 CHR ''z''" by (simp add: butlast_conv_take)
  have m: "map_of some_entries (replicate 30 CHR ''z'') = None"
    by (simp add: some_entries_def numeral_eq_Suc)
  show ?thesis
    using main_splits_long_line[OF some_entries_ok, of "\<lambda>_. Some (encode some_entries)" "''fixrec''" blank_rec
        "replicate 31 CHR ''z''" "''t'' @ [newline]" "''main''"] m
    unfolding q b by (simp add: some_entries_def answer_line_def nul_free_def WORD_def)
qed

section \<open>Properties of the servers and clients\<close>

text \<open>A server that has not answered yet, and a client linked to it that has not asked yet.\<close>

definition fresh_server :: "dictrec \<Rightarrow> lookup5_vars server" where
  "fresh_server r = \<lparr>sv_rec = r, sv_lookup = lookup5_init, sv_out = []\<rparr>"

definition fresh_client :: "dictrec \<Rightarrow> lookup5_vars linked client" where
  "fresh_client r = \<lparr>cl_first = True, cl_net = (fresh_server r, 0)\<rparr>"

lemma fresh_invs:
  assumes "files resource = Some file" and "wf_file file" and "sized r"
  shows "local_inv files resource lookup5_init"
    and "file_server.server_inv files resource (fresh_server r)"
    and "file_server.client_inv files resource (fresh_client r)"
  using assms by (simp_all add: local_inv_def lookup5_init_def file_server.client_inv_def
      file_server.server_inv_def fresh_client_def fresh_server_def)

lemma remote_answers:
  assumes "files resource = Some file" and "wf_file file" and "sized r" and "sized tryit"
    and "nul_free input" and "length path < SUN_PATH"
  shows "(\<exists>s. dict_main (lookup7 (link (lookup5 files resource))) [prog, path] input tryit (fresh_client r)
      = (Exit 0, concat (map (answer_line (remote_dict (file_dict files resource))) (queries input)), s))
    \<and> (\<exists>s. dict_main (lookup8 (link (lookup5 files resource))) [prog, host] input tryit (fresh_client r)
      = (Exit 0, concat (map (answer_line (remote_dict (file_dict files resource))) (queries input)), s))
    \<and> (\<exists>s. dict_main (lookup9 (link (lookup5 files resource))) [prog, host] input tryit (fresh_client r)
      = (Exit 0, concat (map (answer_line (remote_dict (file_dict files resource))) (queries input)), s))"
proof (intro conjI)
  note inv = fresh_invs(3)[of files resource, OF assms(1,2,3)]
  from file_server.unix.loop_answers[of files resource _ path, OF _ assms(4,5)] inv assms(6)
  show "\<exists>s. dict_main (lookup7 (link (lookup5 files resource))) [prog, path] input tryit (fresh_client r)
      = (Exit 0, concat (map (answer_line (remote_dict (file_dict files resource))) (queries input)), s)"
    by (blast intro: dict_main_loop)
  from file_server.tcp.loop_answers[of files resource _ _ _ host, OF inv assms(4,5)]
  show "\<exists>s. dict_main (lookup8 (link (lookup5 files resource))) [prog, host] input tryit (fresh_client r)
      = (Exit 0, concat (map (answer_line (remote_dict (file_dict files resource))) (queries input)), s)"
    by (blast intro: dict_main_loop)
  from file_server.udp.loop_answers[of files resource _ _ _ host, OF inv assms(4,5)]
  show "\<exists>s. dict_main (lookup9 (link (lookup5 files resource))) [prog, host] input tryit (fresh_client r)
      = (Exit 0, concat (map (answer_line (remote_dict (file_dict files resource))) (queries input)), s)"
    by (blast intro: dict_main_loop)
qed

text \<open>
  C9: Refinement: on a well-formed file in which no text is the marker \<open>XXXX\<close>, the three client
  programs (Unix sockets, TCP and UDP), each connected to its server, print exactly what the local
  program prints and exit as it does, for every input without NUL characters.
\<close>

theorem remote_main_equals_local:
  assumes "files resource = Some file" and "wf_file file" and "\<forall>d \<in> set (mmap_table file). text_in d \<noteq> ''XXXX''"
    and "sized r" and "sized tryit" and "nul_free input" and "length path < SUN_PATH"
  shows "\<exists>out. (\<exists>s. dict_main (lookup5 files) [prog, resource] input tryit lookup5_init = (Exit 0, out, s))
    \<and> (\<exists>s. dict_main (lookup7 (link (lookup5 files resource))) [prog, path] input tryit (fresh_client r) = (Exit 0, out, s))
    \<and> (\<exists>s. dict_main (lookup8 (link (lookup5 files resource))) [prog, host] input tryit (fresh_client r) = (Exit 0, out, s))
    \<and> (\<exists>s. dict_main (lookup9 (link (lookup5 files resource))) [prog, host] input tryit (fresh_client r) = (Exit 0, out, s))"
proof -
  have "file_dict files resource w \<noteq> Some ''XXXX''" for w
    using assms(1,3) by (fastforce simp: file_dict_def dict_of_def dest!: map_of_SomeD)
  then have "remote_dict (file_dict files resource) = file_dict files resource"
    by (auto simp: remote_dict_def fun_eq_iff split: option.splits)
  moreover obtain s where "query_loop (lookup5 files resource) input tryit lookup5_init
      = (Ok (), concat (map (answer_line (file_dict files resource)) (queries input)), s)"
    using local.loop_answers[OF fresh_invs(1)[of files resource, OF assms(1,2,4)] assms(5,6)] by blast
  ultimately show ?thesis
    using remote_answers[of files resource, OF assms(1,2,4,5,6,7)] dict_main_loop[of "lookup5 files"] by metis
qed

theorem remote_main_equals_local_witness:
  "\<exists>out s s'. dict_main (lookup5 (\<lambda>_. Some (encode [(''ant'', ''an insect'')]))) [''main'', ''f''] ''ant'' blank_rec lookup5_init = (Exit 0, out, s)
    \<and> dict_main (lookup9 (link (lookup5 (\<lambda>_. Some (encode [(''ant'', ''an insect'')])) ''f''))) [''main'', ''h''] ''ant'' blank_rec
        (fresh_client blank_rec) = (Exit 0, out, s')"
proof -
  let ?e = "[(''ant'', ''an insect'')]"
  have ok: "ok_entries ?e" by (simp add: ok_entries_def dict_sorted_def nul_free_def WORD_def TEXT_def)
  have "\<forall>d \<in> set (mmap_table (encode ?e)). text_in d \<noteq> ''XXXX''"
    using entry_words(2)[of "''ant''" "''an insect''"]
    by (simp add: encode_table(1)[OF ok] nul_free_def WORD_def TEXT_def)
  from remote_main_equals_local[of "\<lambda>_. Some (encode ?e)" "''f''", OF refl encode_table(2)[OF ok] this
      blank_rec_sized blank_rec_sized, of "''ant''" "''s''" "''main''" "''h''"]
  show ?thesis by (auto simp: nul_free_def SUN_PATH_def)
qed

text \<open>
  The marker in band: an entry whose text is \<open>XXXX\<close> is printed by the local program and
  reported as not found by every client.
\<close>

theorem marker_text_not_found:
  assumes "ok_entries es" and "map_of es w = Some ''XXXX''" and "files resource = Some (encode es)"
    and "sized r" and "sized tryit" and "newline \<notin> set w" and "length w < WORD - 1" and "length path < SUN_PATH"
  shows "(\<exists>s. dict_main (lookup5 files) [prog, resource] (w @ [newline]) tryit lookup5_init = (Exit 0, w @ '' : XXXX'', s))
    \<and> (\<exists>s. dict_main (lookup7 (link (lookup5 files resource))) [prog, path] (w @ [newline]) tryit (fresh_client r)
        = (Exit 0, w @ '' : Not Found!'' @ [newline], s))"
proof -
  have "(w, ''XXXX'') \<in> set es" using assms(2) by (rule map_of_SomeD)
  then have nf: "nul_free (w @ [newline])" using assms(1) by (auto simp: ok_entries_def nul_free_def)
  have q: "queries (w @ [newline]) = [w]" using queries_lines[of "[w]"] assms(6,7) by simp
  note enc = encoded_dict[of es files resource, OF assms(1,3)]
  have "\<exists>s. query_loop (lookup5 files resource) (w @ [newline]) tryit lookup5_init = (Ok (), w @ '' : XXXX'', s)"
    using local.loop_answers[OF enc(1) assms(5) nf] assms(2) by (auto simp: q enc(2) answer_line_def)
  moreover have "answer_line (remote_dict (map_of es)) w = w @ '' : Not Found!'' @ [newline]"
    using assms(2) by (simp add: answer_line_def remote_dict_def)
  ultimately show ?thesis
    using remote_answers[of files resource, OF assms(3) encode_table(2)[OF assms(1)] assms(4,5) nf assms(8), of prog]
    by (auto simp: q enc(2) intro: dict_main_loop)
qed

theorem marker_text_not_found_witness:
  "\<exists>s. dict_main (lookup7 (link (lookup5 (\<lambda>_. Some (encode some_entries)) ''f''))) [''main'', ''sock''] (''bee'' @ [newline])
     blank_rec (fresh_client blank_rec) = (Exit 0, ''bee : Not Found!'' @ [newline], s)"
  using marker_text_not_found[OF some_entries_ok, of "''bee''" "\<lambda>_. Some (encode some_entries)" "''f''" blank_rec blank_rec
      "''sock''" "''main''"]
  by (simp add: some_entries_def WORD_def SUN_PATH_def)

text \<open>
  C19: The stream servers (usock_server.c and isock_server.c): when the setup succeeds, every
  connection gets a child of its own that answers the questions that come over it, each once, in order
  and with the file's text or the marker, sends nothing else, and exits with status 0 at the end of the
  stream; the parent goes on accepting.
\<close>

theorem stream_servers_answer:
  assumes "files resource = Some file" and "wf_file file" and "sized r"
    and "li_socket li" "li_setsockopt li" "li_bind li" "li_listen li" and "length path < SUN_PATH"
    and "list_all2 (list_all2 asks) wss conns"
  shows "\<exists>ended. usock_server (lookup5 files) (\<lambda>_. True) li (fresh_server r) [prog, resource, path]
        (map (\<lambda>ms. Some (Some ms)) conns) = (Ok (), ended)
    \<and> isock_server (lookup5 files) (\<lambda>_. True) li (fresh_server r) [prog, resource]
        (map (\<lambda>ms. Some (Some ms)) conns) = (Ok (), ended)
    \<and> length ended = length conns
    \<and> (\<forall>i < length conns. fst (ended ! i) = Exit 0 \<and>
         replies_to (file_dict files resource) (map (Pair i) (wss ! i)) (sv_out (snd (ended ! i))))"
proof -
  let ?child = "\<lambda>cd msgs. stream_child (lookup5 files resource) (\<lambda>_. True) cd msgs (fresh_server r)"
  have loop: "accept_loop ?child n (map (\<lambda>ms. Some (Some ms)) conns)
      = (Ok (), map (\<lambda>i. ?child (n + i) (conns ! i)) [0..<length conns])" for n
  proof (induction conns arbitrary: n)
    case (Cons c cs)
    have "[0..<length (c # cs)] = 0 # map Suc [0..<length cs]" by (simp add: upt_conv_Cons map_Suc_upt del: upt_Suc)
    then show ?case using Cons.IH[of "Suc n"] by (simp add: comp_def)
  qed simp
  have ans: "fst (?child i (conns ! i)) = Exit 0 \<and>
      replies_to (file_dict files resource) (map (Pair i) (wss ! i)) (sv_out (snd (?child i (conns ! i))))"
    if "i < length conns" for i
  proof -
    have "list_all2 asks (wss ! i) (conns ! i)" using assms(9) that by (auto simp: list_all2_conv_all_nth)
    from file_server.stream_child_answers[OF this fresh_invs(2)[of files resource, OF assms(1,2,3)], of i]
    show ?thesis by (auto simp: fresh_server_def)
  qed
  show ?thesis using loop[of 0] ans assms(4-8)
    by (simp add: usock_server_def isock_server_def strcpy_def)
qed

theorem stream_servers_answer_witness:
  "\<exists>ended. isock_server (lookup5 (\<lambda>_. Some (encode some_entries))) (\<lambda>_. True)
      \<lparr>li_socket = True, li_setsockopt = True, li_bind = True, li_listen = True\<rparr> (fresh_server blank_rec)
      [''server'', ''f''] [Some (Some [bytes_of (entry_rec (''cat'', []))]), Some (Some [])] = (Ok (), ended)
    \<and> length ended = 2 \<and> fst (ended ! 0) = Exit 0 \<and> fst (ended ! 1) = Exit 0"
proof -
  have e: "sized (entry_rec (''cat'', []))" by (simp add: sized_entry WORD_def TEXT_def)
  have c: "cstr (dword (entry_rec (''cat'', []))) = Ok ''cat''"
    by (simp add: entry_rec_def cstr_pad nul_free_def WORD_def)
  have a: "asks ''cat'' (bytes_of (entry_rec (''cat'', [])))"
    using e c by (simp add: asks_def bytes_of_length rec_of_bytes_of)
  have "list_all2 (list_all2 asks) [[''cat''], []] [[bytes_of (entry_rec (''cat'', []))], []]" using a by simp
  from stream_servers_answer[of "\<lambda>_. Some (encode some_entries)" "''f''", OF refl encode_table(2)[OF some_entries_ok]
      blank_rec_sized _ _ _ _ _ this, of "\<lparr>li_socket = True, li_setsockopt = True, li_bind = True, li_listen = True\<rparr>"
      "''s''" "''server''"]
  show ?thesis by (auto simp: SUN_PATH_def less_Suc_eq)
qed

text \<open>
  The UDP server keeps nothing of one client for another: for any interleaving of whole
  datagrams with terminated words from any number of clients, the replies are one for each question, in
  the order of the questions, each to the client that asked, and each with the text of the word it
  asked for.
\<close>

theorem udp_server_answers:
  assumes "files resource = Some file" and "wf_file file" and "sized r"
    and "li_socket li" "li_setsockopt li" "li_bind li"
    and "list_all2 (\<lambda>(p, w) (p', m). p' = p \<and> asks w m) qs datagrams"
  shows "\<exists>sv'. udp_server (lookup5 files) (\<lambda>_. True) li [prog, resource] datagrams (fresh_server r) = (Ok (), sv')
    \<and> replies_to (file_dict files resource) qs (sv_out sv')"
  using file_server.udp_loop_answers[OF assms(7) fresh_invs(2)[of files resource, OF assms(1,2,3)]] assms(4-6)
  by (auto simp: udp_server_def fresh_server_def)

theorem udp_server_answers_witness:
  "\<exists>sv'. udp_server (lookup5 (\<lambda>_. Some (encode some_entries))) (\<lambda>_. True)
      \<lparr>li_socket = True, li_setsockopt = True, li_bind = True, li_listen = False\<rparr> [''server'', ''f'']
      [(7, bytes_of (entry_rec (''cat'', []))), (9, bytes_of (entry_rec (''dog'', [])))] (fresh_server blank_rec) = (Ok (), sv')
    \<and> map fst (sv_out sv') = [7, 9]"
proof -
  have a: "asks w (bytes_of (entry_rec (w, [])))" if "nul_free w" "length w < WORD" for w
    using that cstr_pad[of w WORD] sized_entry[of w "[]"]
    by (simp add: asks_def bytes_of_length rec_of_bytes_of TEXT_def) (simp add: entry_rec_def)
  have "list_all2 (\<lambda>(p, w) (p', m). p' = p \<and> asks w m) [(7, ''cat''), (9, ''dog'')]
      [(7, bytes_of (entry_rec (''cat'', []))), (9, bytes_of (entry_rec (''dog'', [])))]"
    using a by (simp add: nul_free_def WORD_def)
  from udp_server_answers[of "\<lambda>_. Some (encode some_entries)" "''f''", OF refl encode_table(2)[OF some_entries_ok]
      blank_rec_sized _ _ _ this, of "\<lparr>li_socket = True, li_setsockopt = True, li_bind = True, li_listen = False\<rparr>" "''server''"]
  show ?thesis by (auto simp: replies_to_def list_all2_Cons1)
qed

text \<open>
  When the server has gone (\<open>recv\<close> returns 0, which the clients do not look for), an
  established client reports every word as found, with whatever text its record held before.
\<close>

theorem server_gone_reports_found:
  assumes "tr_send tr (bytes_of sought) n = (Ok True, n1)" and "tr_recv tr sizeof_Dictrec n1 = (Ok (Some []), n2)"
    and "sized sought" and "cstr (dtext sought) = Ok t" and "t \<noteq> ''XXXX''"
  shows "lookup7 tr resource sought \<lparr>cl_first = False, cl_net = n\<rparr> = (Ok (FOUND, sought), \<lparr>cl_first = False, cl_net = n2\<rparr>)
    \<and> lookup8 tr resource sought \<lparr>cl_first = False, cl_net = n\<rparr> = (Ok (FOUND, sought), \<lparr>cl_first = False, cl_net = n2\<rparr>)"
  using assms by (simp add: lookup7_def lookup8_def exchange_def or_die_def net_op_def bindc_def receive_empty)

theorem server_gone_reports_found_witness:
  "fst (lookup7 \<lparr>tr_socket = ret True, tr_connect = (\<lambda>_. ret True), tr_send = (\<lambda>_. ret True), tr_recv = (\<lambda>_. ret (Some []))\<rparr>
      ''sock'' blank_rec \<lparr>cl_first = False, cl_net = ()\<rparr>) = Ok (FOUND, blank_rec)"
proof -
  have c: "cstr (dtext blank_rec) = Ok []" by (simp add: blank_rec_def cstr_def TEXT_def)
  show ?thesis
    using server_gone_reports_found[of "\<lparr>tr_socket = ret True, tr_connect = (\<lambda>_. ret True), tr_send = (\<lambda>_. ret True),
        tr_recv = (\<lambda>_. ret (Some []))\<rparr>" blank_rec "()" "()" "()" "[]" "''sock''"] c by simp
qed

end
