(* ===== verification/ShmDict.thy ===== *)
theory ShmDict
  imports DictNetFacts
begin

text \<open>
  SP_HW12: the dictionary over System V shared memory.  shm_server.c and any number of clients with
  lookup6.c share one record and two semaphores; each statement that touches them is one step of
  \<open>shm_step\<close>, so every interleaving is covered.  The server's lookup is one step, too.
\<close>

section \<open>The processes\<close>

text \<open>
  Where a client is in \<open>lookup\<close>: before \<open>grab\<close>, behind each of its statements, done
  with a result, or not (or no longer) there.
\<close>

datatype client_pc = Idle | Grabbed | Written | Alerted | Served | Released | Copying | Done int | Gone

text \<open>The server: before \<open>wait\<close>, before the lookup, before \<open>notify\<close>.\<close>

datatype server_pc = Waiting | Looking | Notifying

text \<open>
  A client with its record \<open>sought\<close> and the adjustments the kernel keeps for its operations
  with \<open>SEM_UNDO\<close>.
\<close>

record client6 =
  c_pc :: client_pc
  c_rec :: dictrec
  c_undo0 :: int
  c_undo1 :: int

record 's shm_state =
  sem0 :: nat
  sem1 :: nat
  shm :: dictrec
  srv_pc :: server_pc
  srv_lookup :: 's
  clients :: "nat \<Rightarrow> client6"

definition set_client :: "nat \<Rightarrow> client6 \<Rightarrow> 's shm_state \<Rightarrow> 's shm_state" where
  "set_client c p st = st\<lparr>clients := (clients st)(c := p)\<rparr>"

text \<open>The server's lookup in the shared record, with the marker when there is no such word.\<close>

definition shm_lookup :: "(dictrec \<Rightarrow> (int \<times> dictrec, 's) cmd) \<Rightarrow> dictrec \<Rightarrow> (dictrec, 's) cmd" where
  "shm_lookup lookup sh =
     bindc (lookup sh) (\<lambda>(r, sh).
     if r = FOUND then ret sh
     else if r = NOTFOUND
     then bindc (liftc (strcpy (dtext sh) ''XXXX'')) (\<lambda>t. ret (sh\<lparr>dtext := t\<rparr>))
     else if r = UNAVAIL then exitc 1
     else ret sh)"

text \<open>
  What the server sets up: both semaphores, and a record with whatever the segment holds.  The
  arguments say which of the calls \<open>stat\<close>, \<open>shmget\<close>, \<open>shmat\<close>, \<open>semget\<close>,
  \<open>semctl\<close> succeed.
\<close>

definition shm_setup ::
  "string list \<Rightarrow> bool list \<Rightarrow> dictrec \<Rightarrow> 's \<Rightarrow> (nat \<Rightarrow> client6) \<Rightarrow> 's shm_state outcome" where
  "shm_setup argv calls segment l cls =
     (if length argv \<noteq> 3 then Exit 0
      else if \<not> (\<forall>ok \<in> set (take 5 calls). ok) then Exit 1
      else Ok \<lparr>sem0 = 1, sem1 = 0, shm = segment, srv_pc = Waiting, srv_lookup = l, clients = cls\<rparr>)"

inductive shm_step :: "(dictrec \<Rightarrow> (int \<times> dictrec, 's) cmd) \<Rightarrow> 's shm_state \<Rightarrow> 's shm_state \<Rightarrow> bool"
  for lookup where
  do_grab: "c_pc (clients st c) = Idle \<Longrightarrow> 1 \<le> sem0 st \<Longrightarrow> p = clients st c \<Longrightarrow>
    shm_step lookup st (set_client c (p\<lparr>c_pc := Grabbed, c_undo0 := c_undo0 p + 1\<rparr>) (st\<lparr>sem0 := sem0 st - 1\<rparr>))"
| do_write: "c_pc (clients st c) = Grabbed \<Longrightarrow> p = clients st c \<Longrightarrow> cstr (dword (c_rec p)) = Ok w \<Longrightarrow>
    strcpy (dword (shm st)) w = Ok b \<Longrightarrow>
    shm_step lookup st (set_client c (p\<lparr>c_pc := Written\<rparr>) (st\<lparr>shm := (shm st)\<lparr>dword := b\<rparr>\<rparr>))"
| do_alert: "c_pc (clients st c) = Written \<Longrightarrow> p = clients st c \<Longrightarrow>
    shm_step lookup st (set_client c (p\<lparr>c_pc := Alerted, c_undo1 := c_undo1 p - 2\<rparr>) (st\<lparr>sem1 := sem1 st + 2\<rparr>))"
| do_await: "c_pc (clients st c) = Alerted \<Longrightarrow> sem1 st = 0 \<Longrightarrow> p = clients st c \<Longrightarrow>
    shm_step lookup st (set_client c (p\<lparr>c_pc := Served\<rparr>) st)"
| do_release: "c_pc (clients st c) = Served \<Longrightarrow> p = clients st c \<Longrightarrow>
    shm_step lookup st (set_client c (p\<lparr>c_pc := Released, c_undo0 := c_undo0 p - 1\<rparr>) (st\<lparr>sem0 := sem0 st + 1\<rparr>))"
| do_check: "c_pc (clients st c) = Released \<Longrightarrow> p = clients st c \<Longrightarrow> cstr (dtext (shm st)) = Ok t \<Longrightarrow>
    shm_step lookup st (set_client c (p\<lparr>c_pc := (if strcmp t ''XXXX'' \<noteq> 0 then Copying else Done NOTFOUND)\<rparr>) st)"
| do_copy: "c_pc (clients st c) = Copying \<Longrightarrow> p = clients st c \<Longrightarrow> cstr (dtext (shm st)) = Ok t \<Longrightarrow>
    strcpy (dtext (c_rec p)) t = Ok b \<Longrightarrow>
    shm_step lookup st (set_client c (p\<lparr>c_pc := Done FOUND, c_rec := (c_rec p)\<lparr>dtext := b\<rparr>\<rparr>) st)"
| do_ask: "c_pc (clients st c) = Done q \<Longrightarrow> p = clients st c \<Longrightarrow> length word = WORD \<Longrightarrow> NUL \<in> set word \<Longrightarrow>
    shm_step lookup st (set_client c (p\<lparr>c_pc := Idle, c_rec := (c_rec p)\<lparr>dword := word\<rparr>\<rparr>) st)"
| srv_wait: "srv_pc st = Waiting \<Longrightarrow> 1 \<le> sem1 st \<Longrightarrow>
    shm_step lookup st (st\<lparr>srv_pc := Looking, sem1 := sem1 st - 1\<rparr>)"
| srv_look: "srv_pc st = Looking \<Longrightarrow> shm_lookup lookup (shm st) (srv_lookup st) = (Ok sh, l) \<Longrightarrow>
    shm_step lookup st (st\<lparr>srv_pc := Notifying, shm := sh, srv_lookup := l\<rparr>)"
| srv_notify: "srv_pc st = Notifying \<Longrightarrow> 1 \<le> sem1 st \<Longrightarrow>
    shm_step lookup st (st\<lparr>srv_pc := Waiting, sem1 := sem1 st - 1\<rparr>)"

inductive_cases shm_stepE: "shm_step lookup st st'"

text \<open>
  The steps of the requests that are under way: all but those by which a client that is done asks
  anew.
\<close>

fun finished :: "client_pc \<Rightarrow> bool" where
  "finished (Done q) = True"
| "finished Gone = True"
| "finished _ = False"

definition serving :: "(dictrec \<Rightarrow> (int \<times> dictrec, 's) cmd) \<Rightarrow> 's shm_state \<Rightarrow> 's shm_state \<Rightarrow> bool" where
  "serving lookup st st' \<longleftrightarrow> shm_step lookup st st' \<and>
     (\<forall>c. finished (c_pc (clients st c)) \<longrightarrow> clients st' c = clients st c)"

text \<open>
  A client exits at the end of its input: the kernel adds its adjustments to the semaphores, and
  stops at 0.
\<close>

inductive shm_exit :: "'s shm_state \<Rightarrow> 's shm_state \<Rightarrow> bool" where
  do_leave: "c_pc (clients st c) = Done q \<Longrightarrow> p = clients st c \<Longrightarrow>
    shm_exit st (set_client c (p\<lparr>c_pc := Gone\<rparr>)
      (st\<lparr>sem0 := nat (int (sem0 st) + c_undo0 p), sem1 := nat (int (sem1 st) + c_undo1 p)\<rparr>))"

lemma set_client_simps [simp]:
  "sem0 (set_client c p st) = sem0 st" "sem1 (set_client c p st) = sem1 st" "shm (set_client c p st) = shm st"
  "srv_pc (set_client c p st) = srv_pc st" "srv_lookup (set_client c p st) = srv_lookup st"
  "clients (set_client c p st) = (clients st)(c := p)"
  by (simp_all add: set_client_def)

lemma serving_client:
  "shm_step lookup st (set_client c p st1) \<Longrightarrow> clients st1 = clients st \<Longrightarrow> \<not> finished (c_pc (clients st c)) \<Longrightarrow>
   serving lookup st (set_client c p st1)"
  by (auto simp: serving_def)

lemma serving_server:
  "shm_step lookup st st' \<Longrightarrow> clients st' = clients st \<Longrightarrow> serving lookup st st'"
  by (simp add: serving_def)

section \<open>The invariant\<close>

fun crit :: "client_pc \<Rightarrow> bool" where
  "crit Grabbed = True"
| "crit Written = True"
| "crit Alerted = True"
| "crit Served = True"
| "crit _ = False"

definition asked :: "'s shm_state \<Rightarrow> client6 \<Rightarrow> bool" where
  "asked st p \<longleftrightarrow> cstr (dword (shm st)) = cstr (dword (c_rec p))"

definition answered :: "(string \<Rightarrow> string option) \<Rightarrow> 's shm_state \<Rightarrow> client6 \<Rightarrow> bool" where
  "answered dict st p \<longleftrightarrow> (\<forall>w. cstr (dword (c_rec p)) = Ok w \<longrightarrow> cstr (dtext (shm st)) = Ok (reply_text dict w))"

definition phase :: "(string \<Rightarrow> string option) \<Rightarrow> 's shm_state \<Rightarrow> client6 \<Rightarrow> bool" where
  "phase dict st p \<longleftrightarrow> (case c_pc p of
       Grabbed \<Rightarrow> sem1 st = 0 \<and> srv_pc st = Waiting
     | Written \<Rightarrow> sem1 st = 0 \<and> srv_pc st = Waiting \<and> asked st p
     | Alerted \<Rightarrow> asked st p \<and>
         ((sem1 st = 2 \<and> srv_pc st = Waiting) \<or> (sem1 st = 1 \<and> srv_pc st = Looking)
          \<or> (sem1 st = 1 \<and> srv_pc st = Notifying \<and> answered dict st p)
          \<or> (sem1 st = 0 \<and> srv_pc st = Waiting \<and> answered dict st p))
     | Served \<Rightarrow> sem1 st = 0 \<and> srv_pc st = Waiting \<and> answered dict st p
     | _ \<Rightarrow> False)"

definition excl :: "(string \<Rightarrow> string option) \<Rightarrow> 's shm_state \<Rightarrow> bool" where
  "excl dict st \<longleftrightarrow>
     (sem0 st = 1 \<and> (\<forall>c. \<not> crit (c_pc (clients st c))) \<and> sem1 st = 0 \<and> srv_pc st = Waiting) \<or>
     (\<exists>c. sem0 st = 0 \<and> phase dict st (clients st c) \<and> (\<forall>d. d \<noteq> c \<longrightarrow> \<not> crit (c_pc (clients st d))))"

text \<open>When a client is alone, its answer stays in the shared record until it has read it.\<close>

definition settled :: "(string \<Rightarrow> string option) \<Rightarrow> 's shm_state \<Rightarrow> client6 \<Rightarrow> string \<Rightarrow> bool" where
  "settled dict st p w \<longleftrightarrow> (case c_pc p of
       Released \<Rightarrow> answered dict st p
     | Copying \<Rightarrow> answered dict st p \<and> remote_dict dict w \<noteq> None
     | Done q \<Rightarrow> (case remote_dict dict w of None \<Rightarrow> q = NOTFOUND
         | Some t \<Rightarrow> q = FOUND \<and> cstr (dtext (c_rec p)) = Ok t)
     | _ \<Rightarrow> True)"

definition alone_ok :: "(string \<Rightarrow> string option) \<Rightarrow> 's shm_state \<Rightarrow> bool" where
  "alone_ok dict st \<longleftrightarrow> (\<forall>c w. (\<forall>d. d \<noteq> c \<longrightarrow> c_pc (clients st d) = Gone) \<longrightarrow>
     cstr (dword (c_rec (clients st c))) = Ok w \<longrightarrow> settled dict st (clients st c) w)"

definition tidy :: "('s \<Rightarrow> bool) \<Rightarrow> 's shm_state \<Rightarrow> bool" where
  "tidy ok st \<longleftrightarrow> sized (shm st) \<and> NUL \<in> set (dtext (shm st)) \<and> ok (srv_lookup st) \<and>
     (\<forall>c. sized (c_rec (clients st c)) \<and> NUL \<in> set (dword (c_rec (clients st c))))"

lemma phase_crit: "phase dict st p \<Longrightarrow> crit (c_pc p)"
  by (auto simp: phase_def split: client_pc.splits)

section \<open>Safety and progress\<close>

context dict_server
begin

lemma shm_lookup_answers:
  assumes "inv l" and "sized sh" and "cstr (dword sh) = Ok w"
  shows "\<exists>sh' l'. shm_lookup lookup sh l = (Ok sh', l') \<and> inv l' \<and> sized sh' \<and> cstr (dword sh') = Ok w \<and>
    cstr (dtext sh') = Ok (reply_text dict w)"
proof -
  obtain q r l' where r: "lookup sh l = (Ok (q, r), l')" "inv l'" "sized r" "cstr (dword r) = Ok w"
      "case dict w of None \<Rightarrow> q = NOTFOUND | Some t \<Rightarrow> q = FOUND \<and> cstr (dtext r) = Ok t"
    using lookup_dict[OF assms] by auto
  have t: "strcpy (dtext r) ''XXXX'' = Ok (''XXXX'' @ NUL # drop (Suc (length ''XXXX'')) (dtext r))" (is "_ = Ok ?t")
    using r(3) by (intro strcpy_Ok) (simp add: sized_def TEXT_def)
  have "cstr ?t = Ok ''XXXX''" by (rule cstr_append) (simp add: nul_free_def)
  then show ?thesis using r t strcpy_length[OF t]
    by (cases "dict w") (auto simp: shm_lookup_def reply_text_def FOUND_def NOTFOUND_def sized_def)
qed

lemma tidy_word:
  "tidy inv st \<Longrightarrow> \<exists>w. cstr (dword (c_rec (clients st c))) = Ok w \<and> nul_free w \<and> length w < length (dword (shm st))"
proof -
  assume t: "tidy inv st"
  then have "NUL \<in> set (dword (c_rec (clients st c)))" "sized (c_rec (clients st c))" "sized (shm st)"
    by (auto simp: tidy_def)
  moreover then obtain w where "cstr (dword (c_rec (clients st c))) = Ok w" by (auto simp: cstr_def)
  ultimately show ?thesis using cstr_nul_free cstr_length by (force simp: sized_def)
qed

lemma excl_crit:
  assumes "excl dict st" and "crit (c_pc (clients st c))"
  shows "sem0 st = 0" and "phase dict st (clients st c)" and "d \<noteq> c \<Longrightarrow> \<not> crit (c_pc (clients st d))"
  using assms phase_crit unfolding excl_def by metis+

lemma excl_busy:
  assumes "excl dict st" and "srv_pc st \<noteq> Waiting \<or> 1 \<le> sem1 st"
  obtains c where "c_pc (clients st c) = Alerted" and "sem0 st = 0" and "phase dict st (clients st c)"
    and "\<And>d. d \<noteq> c \<Longrightarrow> \<not> crit (c_pc (clients st d))"
proof -
  from assms obtain c where c: "sem0 st = 0" "phase dict st (clients st c)" "\<forall>d. d \<noteq> c \<longrightarrow> \<not> crit (c_pc (clients st d))"
    unfolding excl_def by auto
  then have "c_pc (clients st c) = Alerted" using assms(2) by (auto simp: phase_def split: client_pc.splits)
  then show ?thesis using that c by blast
qed

lemma excl_free: "excl dict st \<Longrightarrow> 1 \<le> sem0 st \<Longrightarrow>
    sem0 st = 1 \<and> (\<forall>c. \<not> crit (c_pc (clients st c))) \<and> sem1 st = 0 \<and> srv_pc st = Waiting"
  by (auto simp: excl_def)

lemma excl_one:
  "sem0 st = 0 \<Longrightarrow> phase dict st (clients st c) \<Longrightarrow> (\<And>d. d \<noteq> c \<Longrightarrow> \<not> crit (c_pc (clients st d))) \<Longrightarrow> excl dict st"
  by (auto simp: excl_def)

lemma phase_frame:
  "phase dict (set_client d p st) q = phase dict st q"
  by (simp add: phase_def asked_def answered_def cong: client_pc.case_cong)

lemma excl_quiet:
  assumes "excl dict st" and "\<not> crit (c_pc (clients st c))" and "\<not> crit (c_pc p)"
  shows "excl dict (set_client c p st)"
proof -
  consider "sem0 st = 1" "\<forall>c. \<not> crit (c_pc (clients st c))" "sem1 st = 0" "srv_pc st = Waiting"
    | d where "sem0 st = 0" "phase dict st (clients st d)" "\<forall>e. e \<noteq> d \<longrightarrow> \<not> crit (c_pc (clients st e))"
    using assms(1) unfolding excl_def by auto
  then show ?thesis
  proof cases
    case 1
    then show ?thesis using assms(3) by (simp add: excl_def)
  next
    case (2 d)
    have "d \<noteq> c" using phase_crit[OF 2(2)] assms(2) by auto
    then show ?thesis using excl_one[of "set_client c p st" d] 2 assms(3) by (auto simp: phase_frame)
  qed
qed

lemma answered_looked:
  assumes "tidy inv st" and "asked st p" and "NUL \<in> set (dword (c_rec p))"
    and "shm_lookup lookup (shm st) (srv_lookup st) = (Ok sh, l)"
  shows "inv l" and "sized sh" and "cstr (dword sh) = cstr (dword (c_rec p))" and "NUL \<in> set (dword sh)"
    and "cstr (dword (c_rec p)) = Ok w \<Longrightarrow> cstr (dtext sh) = Ok (reply_text dict w)"
proof -
  obtain v where v: "cstr (dword (c_rec p)) = Ok v" using assms(3) by (auto simp: cstr_def)
  from shm_lookup_answers[of "srv_lookup st" "shm st" v] assms(1,2,4) v
  have *: "inv l" "sized sh" "cstr (dword sh) = Ok v" "cstr (dtext sh) = Ok (reply_text dict v)"
    by (auto simp: tidy_def asked_def)
  then show "inv l" "sized sh" "cstr (dword sh) = cstr (dword (c_rec p))" using v by simp_all
  show "NUL \<in> set (dword sh)" using *(3) by (auto simp: cstr_def split: if_splits)
  show "cstr (dword (c_rec p)) = Ok w \<Longrightarrow> cstr (dtext sh) = Ok (reply_text dict w)" using * v by simp
qed

lemma phase_Looking:
  "phase dict st p \<Longrightarrow> srv_pc st = Looking \<Longrightarrow> c_pc p = Alerted \<and> asked st p \<and> sem1 st = 1"
  by (auto simp: phase_def split: client_pc.splits)

lemma tidy_step:
  assumes "shm_step lookup st st'" and "tidy inv st" and "excl dict st"
  shows "tidy inv st'"
  using assms(1)
proof (cases rule: shm_step.cases)
  case (do_write c p w b)
  then show ?thesis using assms(2) strcpy_length[OF do_write(5)] by (auto simp: tidy_def sized_def)
next
  case (do_copy c p t b)
  then show ?thesis using assms(2) strcpy_length[OF do_copy(5)] by (auto simp: tidy_def sized_def)
next
  case (srv_look sh l)
  obtain c where c: "phase dict st (clients st c)" using excl_busy[OF assms(3)] srv_look(2) by auto
  then have "asked st (clients st c)" using phase_Looking srv_look(2) by blast
  moreover have n: "NUL \<in> set (dword (c_rec (clients st c)))" using assms(2) by (simp add: tidy_def)
  ultimately have a: "inv l" "sized sh" using answered_looked[OF assms(2) _ _ srv_look(3), of "clients st c"] by auto
  obtain w where "cstr (dword (c_rec (clients st c))) = Ok w" using n by (auto simp: cstr_def)
  then have "cstr (dtext sh) = Ok (reply_text dict w)"
    using answered_looked(5)[OF assms(2) _ n srv_look(3)] \<open>asked st (clients st c)\<close> by blast
  then have "NUL \<in> set (dtext sh)" by (auto simp: cstr_def split: if_splits)
  then show ?thesis using a srv_look(1) assms(2) by (auto simp: tidy_def)
qed (use assms(2) in \<open>auto simp: tidy_def sized_def\<close>)

lemma excl_step:
  assumes "shm_step lookup st st'" and "tidy inv st" and "excl dict st"
  shows "excl dict st'"
  using assms(1)
proof (cases rule: shm_step.cases)
  case (do_grab c p)
  note f = excl_free[OF assms(3) do_grab(3)]
  show ?thesis unfolding do_grab(1)
    by (rule excl_one[where c = c]) (use f do_grab in \<open>auto simp: phase_def\<close>)
next
  case (do_write c p w b)
  note e = excl_crit[OF assms(3), of c, unfolded do_write(2), simplified]
  have "cstr b = Ok w" by (rule strcpy_cstr[OF do_write(5) cstr_nul_free[OF do_write(4)]])
  then show ?thesis unfolding do_write(1)
    by (intro excl_one[where c = c]) (use e do_write in \<open>auto simp: phase_def asked_def\<close>)
next
  case (do_alert c p)
  note e = excl_crit[OF assms(3), of c, unfolded do_alert(2), simplified]
  show ?thesis unfolding do_alert(1)
    by (rule excl_one[where c = c]) (use e do_alert in \<open>auto simp: phase_def asked_def\<close>)
next
  case (do_await c p)
  note e = excl_crit[OF assms(3), of c, unfolded do_await(2), simplified]
  show ?thesis unfolding do_await(1)
    by (rule excl_one[where c = c]) (use e do_await in \<open>auto simp: phase_def asked_def answered_def\<close>)
next
  case (do_release c p)
  note e = excl_crit[OF assms(3), of c, unfolded do_release(2), simplified]
  have "\<not> crit (c_pc (clients st' d))" for d using e(3)[of d] do_release by (cases "d = c") auto
  then show ?thesis using e(1,2) do_release by (auto simp: excl_def phase_def)
next
  case (srv_wait)
  obtain c where c: "sem0 st = 0" "phase dict st (clients st c)" "\<And>d. d \<noteq> c \<Longrightarrow> \<not> crit (c_pc (clients st d))"
      "c_pc (clients st c) = Alerted"
    using excl_busy[OF assms(3)] srv_wait(3) by blast
  show ?thesis unfolding srv_wait(1)
    by (rule excl_one[where c = c]) (use c srv_wait in \<open>auto simp: phase_def asked_def answered_def\<close>)
next
  case (srv_look sh l)
  obtain c where c: "sem0 st = 0" "phase dict st (clients st c)" "\<And>d. d \<noteq> c \<Longrightarrow> \<not> crit (c_pc (clients st d))"
      "c_pc (clients st c) = Alerted"
    using excl_busy[OF assms(3)] srv_look(2) by auto
  have ask: "asked st (clients st c)" "sem1 st = 1" using phase_Looking[OF c(2) srv_look(2)] by auto
  have "NUL \<in> set (dword (c_rec (clients st c)))" using assms(2) by (simp add: tidy_def)
  note a = answered_looked[OF assms(2) ask(1) this srv_look(3)]
  show ?thesis unfolding srv_look(1)
    by (rule excl_one[where c = c]) (use c a ask in \<open>auto simp: phase_def asked_def answered_def\<close>)
next
  case (srv_notify)
  obtain c where c: "sem0 st = 0" "phase dict st (clients st c)" "\<And>d. d \<noteq> c \<Longrightarrow> \<not> crit (c_pc (clients st d))"
      "c_pc (clients st c) = Alerted"
    using excl_busy[OF assms(3)] srv_notify(3) by blast
  show ?thesis unfolding srv_notify(1)
    by (rule excl_one[where c = c]) (use c srv_notify in \<open>auto simp: phase_def asked_def answered_def\<close>)
next
  case (do_check c p t)
  have "\<not> crit (c_pc (clients st c))" "\<not> crit (if strcmp t ''XXXX'' \<noteq> 0 then Copying else Done NOTFOUND)"
    using do_check by auto
  then show ?thesis using assms(3) do_check(1) by (auto intro!: excl_quiet)
next
  case (do_copy c p t b)
  have "\<not> crit (c_pc (clients st c))" using do_copy by auto
  then show ?thesis using assms(3) do_copy(1) by (auto intro!: excl_quiet)
next
  case (do_ask c q p word)
  have "\<not> crit (c_pc (clients st c))" using do_ask by auto
  then show ?thesis using assms(3) do_ask(1) by (auto intro!: excl_quiet)
qed

text \<open>A step of client \<open>c\<close> needs to be looked at only when \<open>c\<close> itself is alone.\<close>

lemma alone_client_step:
  assumes "c_pc (clients st c) \<noteq> Gone" and "c_pc p \<noteq> Gone" and "clients st' = (clients st)(c := p)"
    and "\<And>w. (\<And>d. d \<noteq> c \<Longrightarrow> c_pc (clients st d) = Gone) \<Longrightarrow> cstr (dword (c_rec p)) = Ok w \<Longrightarrow> settled dict st' p w"
  shows "alone_ok dict st'"
  unfolding alone_ok_def
proof (intro allI impI)
  fix e w
  assume g: "\<forall>d. d \<noteq> e \<longrightarrow> c_pc (clients st' d) = Gone" and w: "cstr (dword (c_rec (clients st' e))) = Ok w"
  have e: "e = c" using g assms(2,3) by (metis fun_upd_same)
  then have "c_pc (clients st d) = Gone" if "d \<noteq> c" for d using g that assms(3) by auto
  then show "settled dict st' (clients st' e) w"
    using assms(4)[of w] w e assms(3) by simp
qed

lemma alone_server_step:
  assumes "alone_ok dict st" and "excl dict st" and "srv_pc st \<noteq> Waiting \<or> 1 \<le> sem1 st"
    and "clients st' = clients st"
  shows "alone_ok dict st'"
  unfolding alone_ok_def
proof (intro allI impI)
  fix c w
  assume g: "\<forall>d. d \<noteq> c \<longrightarrow> c_pc (clients st' d) = Gone"
  obtain d where "c_pc (clients st d) = Alerted" using excl_busy[OF assms(2,3)] by blast
  then have "c_pc (clients st' c) = Alerted" using g assms(4) by (cases "d = c") auto
  then show "settled dict st' (clients st' c) w" by (simp add: settled_def)
qed

lemma alone_okD:
  "alone_ok dict st \<Longrightarrow> (\<And>d. d \<noteq> c \<Longrightarrow> c_pc (clients st d) = Gone) \<Longrightarrow>
   cstr (dword (c_rec (clients st c))) = Ok w \<Longrightarrow> settled dict st (clients st c) w"
  unfolding alone_ok_def by blast

lemma alone_step:
  assumes "shm_step lookup st st'" and "excl dict st" and "alone_ok dict st"
  shows "alone_ok dict st'"
  using assms(1)
proof (cases rule: shm_step.cases)
  case (do_release c p)
  note e = excl_crit(2)[OF assms(2), of c, unfolded do_release(2), simplified]
  show ?thesis
    by (rule alone_client_step[where c = c and st = st])
      (use e do_release in \<open>auto simp: phase_def answered_def settled_def\<close>)
next
  case (do_check c p t)
  let ?p = "p\<lparr>c_pc := if strcmp t ''XXXX'' \<noteq> 0 then Copying else Done NOTFOUND\<rparr>"
  show ?thesis
  proof (rule alone_client_step[where c = c and st = st and p = ?p])
    fix w
    assume g: "\<And>d. d \<noteq> c \<Longrightarrow> c_pc (clients st d) = Gone" and w: "cstr (dword (c_rec ?p)) = Ok w"
    then have "settled dict st p w" using alone_okD[OF assms(3), of c] do_check(3) by simp
    then have "answered dict st p" using do_check(2,3) by (simp add: settled_def)
    then have "answered dict st' p" "t = reply_text dict w" using do_check w by (auto simp: answered_def)
    then show "settled dict st' ?p w" by (auto simp: settled_def answered_def remote_dict_reply)
  qed (use do_check in auto)
next
  case (do_copy c p t b)
  let ?p = "p\<lparr>c_pc := Done FOUND, c_rec := (c_rec p)\<lparr>dtext := b\<rparr>\<rparr>"
  show ?thesis
  proof (rule alone_client_step[where c = c and st = st and p = ?p])
    fix w
    assume g: "\<And>d. d \<noteq> c \<Longrightarrow> c_pc (clients st d) = Gone" and w: "cstr (dword (c_rec ?p)) = Ok w"
    then have "settled dict st p w" using alone_okD[OF assms(3), of c] do_copy(3) by simp
    then have "answered dict st p" "remote_dict dict w \<noteq> None" using do_copy(2,3) by (auto simp: settled_def)
    then have "remote_dict dict w = Some t" using do_copy(4) w
      by (auto simp: answered_def remote_dict_reply split: if_splits)
    moreover have "cstr b = Ok t" by (rule strcpy_cstr[OF do_copy(5) cstr_nul_free[OF do_copy(4)]])
    ultimately show "settled dict st' ?p w" by (simp add: settled_def)
  qed (use do_copy in auto)
next
  case (do_grab c p)
  show ?thesis by (rule alone_client_step[where c = c and st = st]) (use do_grab in \<open>auto simp: settled_def\<close>)
next
  case (do_write c p w b)
  show ?thesis by (rule alone_client_step[where c = c and st = st]) (use do_write in \<open>auto simp: settled_def\<close>)
next
  case (do_alert c p)
  show ?thesis by (rule alone_client_step[where c = c and st = st]) (use do_alert in \<open>auto simp: settled_def\<close>)
next
  case (do_await c p)
  show ?thesis by (rule alone_client_step[where c = c and st = st]) (use do_await in \<open>auto simp: settled_def\<close>)
next
  case (do_ask c q p word)
  show ?thesis by (rule alone_client_step[where c = c and st = st]) (use do_ask in \<open>auto simp: settled_def\<close>)
qed (rule alone_server_step[OF assms(3,2)]; simp)+

text \<open>Reachable states.\<close>

definition quiet :: "'s shm_state \<Rightarrow> bool" where
  "quiet st \<longleftrightarrow> sem0 st = 1 \<and> sem1 st = 0 \<and> srv_pc st = Waiting"

lemma shm_reachable:
  assumes "(shm_step lookup)\<^sup>*\<^sup>* st0 st" and "tidy inv st0" and "quiet st0"
    and "\<forall>c. c_pc (clients st0 c) = Idle \<or> c_pc (clients st0 c) = Gone"
  shows "tidy inv st \<and> excl dict st \<and> alone_ok dict st"
  using assms(1)
proof (induction rule: rtranclp_induct)
  case base
  have "\<not> crit (c_pc (clients st0 c))" for c using assms(4) by (metis crit.simps)
  moreover have "settled dict st0 (clients st0 c) w" for c w
    using assms(4) by (cases "c_pc (clients st0 c)") (auto simp: settled_def dest: spec[of _ c])
  then have "alone_ok dict st0" by (simp add: alone_ok_def)
  ultimately show ?case using assms(2,3) by (auto simp: quiet_def excl_def)
next
  case (step st st')
  then show ?case using tidy_step excl_step alone_step by blast
qed

text \<open>Some process can always move without a new request, unless all clients are done or gone.\<close>

lemma shm_progress:
  assumes "tidy inv st" and "excl dict st" and "\<not> finished (c_pc (clients st c))"
  shows "\<exists>st'. serving lookup st st'"
proof -
  obtain t where t: "cstr (dtext (shm st)) = Ok t" using assms(1) by (auto simp: tidy_def cstr_def)
  show ?thesis
  proof (cases "\<exists>d. crit (c_pc (clients st d))")
    case False
    then have free: "1 \<le> sem0 st" using assms(2) phase_crit unfolding excl_def by auto
    have "\<not> crit (c_pc (clients st c))" using False by blast
    then consider "c_pc (clients st c) = Idle" | "c_pc (clients st c) = Released" | "c_pc (clients st c) = Copying"
      using assms(3) by (cases "c_pc (clients st c)") auto
    then show ?thesis
    proof cases
      case 1
      then show ?thesis using serving_client[OF do_grab[OF 1 free refl]] by auto
    next
      case 2
      then show ?thesis using serving_client[OF do_check[OF 2 refl t]] by auto
    next
      case 3
      have "sized (c_rec (clients st c))" "sized (shm st)" using assms(1) by (auto simp: tidy_def)
      then have "length t < length (dtext (c_rec (clients st c)))" using cstr_length[OF t] by (simp add: sized_def)
      then show ?thesis using 3 serving_client[OF do_copy[OF 3 refl t strcpy_Ok]] by auto
    qed
  next
    case True
    then obtain d where d: "crit (c_pc (clients st d))" by blast
    note ph = excl_crit(2)[OF assms(2) d]
    obtain w where w: "cstr (dword (c_rec (clients st d))) = Ok w" "length w < length (dword (shm st))"
      using tidy_word[OF assms(1)] by blast
    consider "c_pc (clients st d) = Grabbed" | "c_pc (clients st d) = Written" | "c_pc (clients st d) = Alerted"
      | "c_pc (clients st d) = Served"
      using d by (cases "c_pc (clients st d)") auto
    then show ?thesis
    proof cases
      case 1
      then show ?thesis using serving_client[OF do_write[OF 1 refl w(1) strcpy_Ok[OF w(2)]]] by auto
    next
      case 2
      then show ?thesis using serving_client[OF do_alert[OF 2 refl]] by auto
    next
      case 4
      then show ?thesis using serving_client[OF do_release[OF 4 refl]] by auto
    next
      case 3
      then have ask: "asked st (clients st d)" using ph by (simp add: phase_def)
      from ph 3 consider "1 \<le> sem1 st" "srv_pc st = Waiting" | "srv_pc st = Looking"
        | "1 \<le> sem1 st" "srv_pc st = Notifying" | "sem1 st = 0"
        by (auto simp: phase_def)
      then show ?thesis
      proof cases
        case 1
        then show ?thesis using serving_server[OF srv_wait] by auto
      next
        case 2
        obtain sh l where "shm_lookup lookup (shm st) (srv_lookup st) = (Ok sh, l)"
          using shm_lookup_answers[of "srv_lookup st" "shm st" w] assms(1) ask w(1) by (auto simp: tidy_def asked_def)
        then show ?thesis using serving_server[OF srv_look[OF 2]] by auto
      next
        case 3
        then show ?thesis using serving_server[OF srv_notify] by auto
      next
        case 4
        then show ?thesis using 3 serving_client[OF do_await[OF 3 _ refl]] by auto
      qed
    qed
  qed
qed

section \<open>Runs\<close>

abbreviation steps :: "'s shm_state \<Rightarrow> 's shm_state \<Rightarrow> bool" where
  "steps \<equiv> (shm_step lookup)\<^sup>*\<^sup>*"

text \<open>From a quiet state, a client's request up to the alert, and up to the answer.\<close>

lemma request_alerted:
  assumes "tidy inv st" and "quiet st" and "c_pc (clients st c) = Idle" and "cstr (dword (c_rec (clients st c))) = Ok w"
  obtains st' where "steps st st'" and "sem0 st' = 0" and "sem1 st' = 2" and "srv_pc st' = Waiting"
    and "c_pc (clients st' c) = Alerted" and "c_rec (clients st' c) = c_rec (clients st c)"
    and "c_undo0 (clients st' c) = c_undo0 (clients st c) + 1" and "c_undo1 (clients st' c) = c_undo1 (clients st c) - 2"
    and "\<And>d. d \<noteq> c \<Longrightarrow> clients st' d = clients st d"
    and "cstr (dword (shm st')) = Ok w" and "dtext (shm st') = dtext (shm st)" and "tidy inv st'"
proof -
  let ?p = "clients st c"
  let ?p1 = "?p\<lparr>c_pc := Grabbed, c_undo0 := c_undo0 ?p + 1\<rparr>"
  let ?st1 = "set_client c ?p1 (st\<lparr>sem0 := sem0 st - 1\<rparr>)"
  have s1: "shm_step lookup st ?st1" using do_grab[of st c ?p lookup] assms(2,3) by (simp add: quiet_def)
  have len: "length w < length (dword (shm ?st1))"
    using assms(1) cstr_length[OF assms(4)] by (simp add: tidy_def sized_def)
  obtain b where b: "strcpy (dword (shm ?st1)) w = Ok b" using strcpy_Ok[OF len] by blast
  have cb: "cstr b = Ok w" by (rule strcpy_cstr[OF b cstr_nul_free[OF assms(4)]])
  let ?p2 = "?p1\<lparr>c_pc := Written\<rparr>"
  let ?st2 = "set_client c ?p2 (?st1\<lparr>shm := (shm ?st1)\<lparr>dword := b\<rparr>\<rparr>)"
  have s2: "shm_step lookup ?st1 ?st2" using do_write[of ?st1 c ?p1 w b lookup] assms(4) b by simp
  let ?p3 = "?p2\<lparr>c_pc := Alerted, c_undo1 := c_undo1 ?p2 - 2\<rparr>"
  let ?st3 = "set_client c ?p3 (?st2\<lparr>sem1 := sem1 ?st2 + 2\<rparr>)"
  have s3: "shm_step lookup ?st2 ?st3" using do_alert[of ?st2 c ?p2 lookup] by simp
  have t: "tidy inv ?st3" using assms(1) strcpy_length[OF b] by (auto simp: tidy_def sized_def)
  have r: "steps st ?st3" using s1 s2 s3 by (meson converse_rtranclp_into_rtranclp r_into_rtranclp)
  show ?thesis
    by (rule that[OF r]) (use t assms(2) cb in \<open>simp_all add: quiet_def\<close>)
qed

lemma request_served:
  assumes "tidy inv st" and "quiet st" and "c_pc (clients st c) = Idle" and "cstr (dword (c_rec (clients st c))) = Ok w"
  obtains st' where "steps st st'" and "sem0 st' = 0" and "sem1 st' = 0" and "srv_pc st' = Waiting"
    and "c_pc (clients st' c) = Served" and "c_rec (clients st' c) = c_rec (clients st c)"
    and "c_undo0 (clients st' c) = c_undo0 (clients st c) + 1" and "c_undo1 (clients st' c) = c_undo1 (clients st c) - 2"
    and "\<And>d. d \<noteq> c \<Longrightarrow> clients st' d = clients st d"
    and "cstr (dtext (shm st')) = Ok (reply_text dict w)" and "tidy inv st'"
proof -
  obtain st3 where st3: "steps st st3" "sem0 st3 = 0" "sem1 st3 = 2" "srv_pc st3 = Waiting"
      "c_pc (clients st3 c) = Alerted" "c_rec (clients st3 c) = c_rec (clients st c)"
      "c_undo0 (clients st3 c) = c_undo0 (clients st c) + 1" "c_undo1 (clients st3 c) = c_undo1 (clients st c) - 2"
      "\<And>d. d \<noteq> c \<Longrightarrow> clients st3 d = clients st d" "cstr (dword (shm st3)) = Ok w" "tidy inv st3"
    using request_alerted[OF assms] by metis
  let ?st4 = "st3\<lparr>srv_pc := Looking, sem1 := 1\<rparr>"
  have s4: "shm_step lookup st3 ?st4" using srv_wait[of st3 lookup] st3(3,4) by simp
  have "inv (srv_lookup st3)" "sized (shm st3)" using st3(11) by (simp_all add: tidy_def)
  from shm_lookup_answers[OF this st3(10)]
  obtain sh l where sh: "shm_lookup lookup (shm st3) (srv_lookup st3) = (Ok sh, l)" "inv l" "sized sh"
      "cstr (dtext sh) = Ok (reply_text dict w)"
    by blast
  let ?st5 = "?st4\<lparr>srv_pc := Notifying, shm := sh, srv_lookup := l\<rparr>"
  have s5: "shm_step lookup ?st4 ?st5" using srv_look[of ?st4 lookup sh l] sh(1) by simp
  let ?st6 = "?st5\<lparr>srv_pc := Waiting, sem1 := 0\<rparr>"
  have s6: "shm_step lookup ?st5 ?st6" using srv_notify[of ?st5 lookup] by (simp del: One_nat_def)
  let ?st7 = "set_client c ((clients st3 c)\<lparr>c_pc := Served\<rparr>) ?st6"
  have s7: "shm_step lookup ?st6 ?st7" by (rule do_await) (use st3(5) in simp_all)
  have r: "steps st ?st7"
    using rtranclp.rtrancl_into_rtrancl[OF rtranclp.rtrancl_into_rtrancl[OF rtranclp.rtrancl_into_rtrancl[OF
        rtranclp.rtrancl_into_rtrancl[OF st3(1) s4] s5] s6] s7] .
  have "NUL \<in> set (dtext sh)" using sh(4) by (auto simp: cstr_def split: if_splits)
  then have t: "tidy inv ?st7" using st3(11) sh(2,3) by (auto simp: tidy_def)
  show ?thesis by (rule that[OF r]) (use t st3 sh(4) in simp_all)
qed

lemma request_released:
  assumes "tidy inv st" and "quiet st" and "c_pc (clients st c) = Idle" and "cstr (dword (c_rec (clients st c))) = Ok w"
  obtains st' where "steps st st'" and "quiet st'" and "tidy inv st'"
    and "c_pc (clients st' c) = Released" and "c_rec (clients st' c) = c_rec (clients st c)"
    and "c_undo0 (clients st' c) = c_undo0 (clients st c)" and "c_undo1 (clients st' c) = c_undo1 (clients st c) - 2"
    and "\<And>d. d \<noteq> c \<Longrightarrow> clients st' d = clients st d"
    and "cstr (dtext (shm st')) = Ok (reply_text dict w)"
proof -
  obtain st1 where st1: "steps st st1" "sem0 st1 = 0" "sem1 st1 = 0" "srv_pc st1 = Waiting"
      "c_pc (clients st1 c) = Served" "c_rec (clients st1 c) = c_rec (clients st c)"
      "c_undo0 (clients st1 c) = c_undo0 (clients st c) + 1" "c_undo1 (clients st1 c) = c_undo1 (clients st c) - 2"
      "\<And>d. d \<noteq> c \<Longrightarrow> clients st1 d = clients st d"
      "cstr (dtext (shm st1)) = Ok (reply_text dict w)" "tidy inv st1"
    using request_served[OF assms] by metis
  let ?p = "clients st1 c"
  let ?st2 = "set_client c (?p\<lparr>c_pc := Released, c_undo0 := c_undo0 ?p - 1\<rparr>) (st1\<lparr>sem0 := sem0 st1 + 1\<rparr>)"
  have "shm_step lookup st1 ?st2" by (rule do_release) (use st1(5) in simp_all)
  then have r: "steps st ?st2" using st1(1) by (rule rtranclp.rtrancl_into_rtrancl[rotated])
  have "tidy inv ?st2" using st1(11) by (auto simp: tidy_def)
  then show ?thesis using that[OF r] st1 by (simp add: quiet_def)
qed

text \<open>A released client reads whatever is in the shared record then.\<close>

lemma released_reads:
  assumes "tidy inv st" and "c_pc (clients st c) = Released" and "cstr (dtext (shm st)) = Ok t"
  obtains st' q where "steps st st'" and "c_pc (clients st' c) = Done q" and "q = (if t = ''XXXX'' then NOTFOUND else FOUND)"
    and "t \<noteq> ''XXXX'' \<Longrightarrow> cstr (dtext (c_rec (clients st' c))) = Ok t"
    and "dword (c_rec (clients st' c)) = dword (c_rec (clients st c))"
    and "c_undo0 (clients st' c) = c_undo0 (clients st c)" and "c_undo1 (clients st' c) = c_undo1 (clients st c)"
    and "\<And>d. d \<noteq> c \<Longrightarrow> clients st' d = clients st d" and "shm st' = shm st"
    and "sem0 st' = sem0 st" and "sem1 st' = sem1 st" and "srv_pc st' = srv_pc st" and "tidy inv st'"
proof -
  let ?p = "clients st c"
  let ?st1 = "set_client c (?p\<lparr>c_pc := (if strcmp t ''XXXX'' \<noteq> 0 then Copying else Done NOTFOUND)\<rparr>) st"
  have s1: "shm_step lookup st ?st1" by (rule do_check) (use assms in simp_all)
  have t1: "tidy inv ?st1" using assms(1) by (auto simp: tidy_def)
  show ?thesis
  proof (cases "t = ''XXXX''")
    case True
    show ?thesis by (rule that[of ?st1 NOTFOUND]) (use s1 t1 True in simp_all)
  next
    case False
    have "length t < length (dtext (c_rec ?p))" using assms(1) cstr_length[OF assms(3)] by (simp add: tidy_def sized_def)
    then obtain b where b: "strcpy (dtext (c_rec ?p)) t = Ok b" using strcpy_Ok by blast
    let ?p1 = "clients ?st1 c"
    let ?st2 = "set_client c (?p1\<lparr>c_pc := Done FOUND, c_rec := (c_rec ?p1)\<lparr>dtext := b\<rparr>\<rparr>) ?st1"
    have s2: "shm_step lookup ?st1 ?st2" by (rule do_copy[where t = t]) (use assms(3) b False in simp_all)
    have r: "steps st ?st2" using s1 s2 by (rule rtranclp_trans[OF r_into_rtranclp r_into_rtranclp])
    have "cstr b = Ok t" by (rule strcpy_cstr[OF b cstr_nul_free[OF assms(3)]])
    moreover have "tidy inv ?st2" using assms(1) strcpy_length[OF b] by (auto simp: tidy_def sized_def)
    ultimately show ?thesis by (intro that[OF r, of FOUND]) (use False in simp_all)
  qed
qed

text \<open>A client past its await releases the mutex first.\<close>

lemma served_reads:
  assumes "tidy inv st" and "c_pc (clients st c) = Served" and "cstr (dtext (shm st)) = Ok t"
  obtains st' where "steps st st'" and "c_pc (clients st' c) = Done (if t = ''XXXX'' then NOTFOUND else FOUND)"
    and "t \<noteq> ''XXXX'' \<Longrightarrow> cstr (dtext (c_rec (clients st' c))) = Ok t"
    and "dword (c_rec (clients st' c)) = dword (c_rec (clients st c))"
    and "\<And>d. d \<noteq> c \<Longrightarrow> clients st' d = clients st d"
proof -
  let ?p = "clients st c"
  let ?st1 = "set_client c (?p\<lparr>c_pc := Released, c_undo0 := c_undo0 ?p - 1\<rparr>) (st\<lparr>sem0 := sem0 st + 1\<rparr>)"
  have s1: "shm_step lookup st ?st1" by (rule do_release) (use assms(2) in simp_all)
  have t1: "tidy inv ?st1" "c_pc (clients ?st1 c) = Released" "cstr (dtext (shm ?st1)) = Ok t"
    using assms by (auto simp: tidy_def)
  show ?thesis
  proof (rule released_reads[OF t1])
    fix st' q
    assume r: "steps ?st1 st'" "c_pc (clients st' c) = Done q" "q = (if t = ''XXXX'' then NOTFOUND else FOUND)"
      "t \<noteq> ''XXXX'' \<Longrightarrow> cstr (dtext (c_rec (clients st' c))) = Ok t"
      "dword (c_rec (clients st' c)) = dword (c_rec (clients ?st1 c))" "\<And>d. d \<noteq> c \<Longrightarrow> clients st' d = clients ?st1 d"
    have "steps st st'" by (rule converse_rtranclp_into_rtranclp[OF s1 r(1)])
    then show ?thesis by (rule that) (use r in simp_all)
  qed
qed

lemma released_race:
  assumes "tidy inv st" and "quiet st" and "c \<noteq> d"
    and "c_pc (clients st c) = Idle" and "c_pc (clients st d) = Idle"
    and "cstr (dword (c_rec (clients st c))) = Ok w" and "cstr (dword (c_rec (clients st d))) = Ok v"
    and "reply_text dict v \<noteq> ''XXXX''"
  shows "\<exists>st'. steps st st' \<and> c_pc (clients st' c) = Done FOUND \<and>
    cstr (dword (c_rec (clients st' c))) = Ok w \<and> cstr (dtext (c_rec (clients st' c))) = Ok (reply_text dict v)"
proof -
  obtain st1 where st1: "steps st st1" "quiet st1" "tidy inv st1" "c_pc (clients st1 c) = Released"
      "c_rec (clients st1 c) = c_rec (clients st c)" "\<And>e. e \<noteq> c \<Longrightarrow> clients st1 e = clients st e"
    using request_released[OF assms(1,2,4,6)] by metis
  have d: "c_pc (clients st1 d) = Idle" "cstr (dword (c_rec (clients st1 d))) = Ok v"
    using st1(6)[of d] assms(3,5,7) by auto
  obtain st2 where st2: "steps st1 st2" "tidy inv st2" "\<And>e. e \<noteq> d \<Longrightarrow> clients st2 e = clients st1 e"
      "cstr (dtext (shm st2)) = Ok (reply_text dict v)"
    using request_served[OF st1(3,2) d] by metis
  have "c_pc (clients st2 c) = Released" "c_rec (clients st2 c) = c_rec (clients st c)"
    using st2(3)[of c] st1(4,5) assms(3) by auto
  then obtain st3 where "steps st2 st3" "c_pc (clients st3 c) = Done FOUND"
      "cstr (dtext (c_rec (clients st3 c))) = Ok (reply_text dict v)"
      "dword (c_rec (clients st3 c)) = dword (c_rec (clients st c))"
    using released_reads[OF st2(2) _ st2(4), of c] assms(8) by metis
  moreover from this(1) have "steps st st3" by (rule rtranclp_trans[OF st1(1) rtranclp_trans[OF st2(1)]])
  ultimately show ?thesis using assms(6) by auto
qed

text \<open>
  A client that has finished leaves while another one's alert is pending: the kernel takes the alert back,
  and the other client passes its await although the server has not seen its request.
\<close>

lemma exit_unserved:
  assumes "tidy inv st" and "quiet st" and "c \<noteq> d" and "c_pc (clients st c) = Done q" and "c_undo1 (clients st c) = - 2"
    and "c_pc (clients st d) = Idle" and "cstr (dword (c_rec (clients st d))) = Ok v" and "cstr (dtext (shm st)) = Ok t"
  obtains st' where "(sup (shm_step lookup) shm_exit)\<^sup>*\<^sup>* st st'" and "tidy inv st'" and "c_pc (clients st' c) = Gone"
    and "c_pc (clients st' d) = Served" and "cstr (dword (c_rec (clients st' d))) = Ok v" and "cstr (dtext (shm st')) = Ok t"
proof -
  obtain st3 where st3: "steps st st3" "sem1 st3 = 2" "c_pc (clients st3 d) = Alerted"
      "c_rec (clients st3 d) = c_rec (clients st d)" "\<And>e. e \<noteq> d \<Longrightarrow> clients st3 e = clients st e"
      "dtext (shm st3) = dtext (shm st)" "tidy inv st3"
    using request_alerted[OF assms(1,2,6,7)] by metis
  have c3: "clients st3 c = clients st c" using st3(5)[of c] assms(3) by simp
  let ?p = "clients st3 c"
  let ?st4 = "set_client c (?p\<lparr>c_pc := Gone\<rparr>)
      (st3\<lparr>sem0 := nat (int (sem0 st3) + c_undo0 ?p), sem1 := nat (int (sem1 st3) + c_undo1 ?p)\<rparr>)"
  have s4: "shm_exit st3 ?st4" by (rule do_leave[where q = q]) (use assms(4) c3 in simp_all)
  have sem: "sem1 ?st4 = 0" using st3(2) c3 assms(5) by simp
  have pd: "clients ?st4 d = clients st3 d" using assms(3) by simp
  let ?st5 = "set_client d ((clients ?st4 d)\<lparr>c_pc := Served\<rparr>) ?st4"
  have s5: "shm_step lookup ?st4 ?st5" by (rule do_await[OF _ sem refl]) (use pd st3(3) in simp)
  have "(sup (shm_step lookup) shm_exit)\<^sup>*\<^sup>* st st3"
    using st3(1) by (rule rtranclp_mono[THEN predicate2D, rotated]) auto
  then have "(sup (shm_step lookup) shm_exit)\<^sup>*\<^sup>* st ?st5"
    using s4 s5 by (meson rtranclp.rtrancl_into_rtrancl sup2I1 sup2I2)
  moreover have "tidy inv ?st5" using st3(7) by (simp add: tidy_def)
  ultimately show ?thesis by (rule that) (use assms(3,7,8) st3(4,6) in simp_all)
qed

lemma exit_race:
  assumes "tidy inv st" and "quiet st" and "c \<noteq> d"
    and "c_pc (clients st c) = Idle" and "c_pc (clients st d) = Idle"
    and "cstr (dword (c_rec (clients st c))) = Ok w" and "cstr (dword (c_rec (clients st d))) = Ok v"
    and "c_undo0 (clients st c) = 0" and "c_undo1 (clients st c) = 0"
  shows "\<exists>st'. (sup (shm_step lookup) shm_exit)\<^sup>*\<^sup>* st st' \<and> c_pc (clients st' c) = Gone \<and>
    cstr (dword (c_rec (clients st' d))) = Ok v \<and>
    (case remote_dict dict w of None \<Rightarrow> c_pc (clients st' d) = Done NOTFOUND
     | Some t \<Rightarrow> c_pc (clients st' d) = Done FOUND \<and> cstr (dtext (c_rec (clients st' d))) = Ok t)"
proof -
  let ?go = "(sup (shm_step lookup) (shm_exit :: 's shm_state \<Rightarrow> 's shm_state \<Rightarrow> bool))\<^sup>*\<^sup>*"
  have go: "?go x y" if "steps x y" for x y
    using that by (rule rtranclp_mono[THEN predicate2D, rotated]) auto
  obtain st1 where st1: "steps st st1" "quiet st1" "tidy inv st1" "c_pc (clients st1 c) = Released"
      "c_undo0 (clients st1 c) = 0" "c_undo1 (clients st1 c) = - 2" "\<And>e. e \<noteq> c \<Longrightarrow> clients st1 e = clients st e"
      "cstr (dtext (shm st1)) = Ok (reply_text dict w)"
    using request_released[OF assms(1,2,4,6)] assms(8,9) by (metis diff_0)
  obtain st2 q where st2: "steps st1 st2" "c_pc (clients st2 c) = Done q" "c_undo0 (clients st2 c) = 0"
      "c_undo1 (clients st2 c) = - 2" "\<And>e. e \<noteq> c \<Longrightarrow> clients st2 e = clients st1 e" "shm st2 = shm st1"
      "sem0 st2 = sem0 st1" "sem1 st2 = sem1 st1" "srv_pc st2 = srv_pc st1" "tidy inv st2"
    using released_reads[OF st1(3,4,8)] st1(5,6) by metis
  have q2: "quiet st2" using st1(2) st2(7,8,9) by (simp add: quiet_def)
  have d: "c_pc (clients st2 d) = Idle" "cstr (dword (c_rec (clients st2 d))) = Ok v"
    using st2(5)[of d] st1(7)[of d] assms(3,5,7) by auto
  from exit_unserved[OF st2(10) q2 assms(3) st2(2,4) d, of "reply_text dict w"] st2(6) st1(8)
  obtain st5 where st5: "?go st2 st5" "tidy inv st5" "c_pc (clients st5 c) = Gone" "c_pc (clients st5 d) = Served"
      "cstr (dword (c_rec (clients st5 d))) = Ok v" "cstr (dtext (shm st5)) = Ok (reply_text dict w)"
    by metis
  obtain st7 where st7: "steps st5 st7" "c_pc (clients st7 d) = Done (if reply_text dict w = ''XXXX'' then NOTFOUND else FOUND)"
      "reply_text dict w \<noteq> ''XXXX'' \<Longrightarrow> cstr (dtext (c_rec (clients st7 d))) = Ok (reply_text dict w)"
      "dword (c_rec (clients st7 d)) = dword (c_rec (clients st5 d))" "\<And>e. e \<noteq> d \<Longrightarrow> clients st7 e = clients st5 e"
    using served_reads[OF st5(2,4,6)] by blast
  have "?go st st7" using go[OF st1(1)] go[OF st2(1)] st5(1) go[OF st7(1)] by (meson rtranclp_trans)
  moreover have "c_pc (clients st7 c) = Gone" using st7(5)[of c] st5(3) assms(3) by simp
  moreover have "cstr (dword (c_rec (clients st7 d))) = Ok v" using st7(4) st5(5) by simp
  ultimately show ?thesis using st7(2,3) by (auto simp: remote_dict_reply)
qed

end

end
