(* ===== verification/StepSys.thy ===== *)
theory StepSys
  imports Main
begin

text \<open>
  The interfaces of the step relations: an invariant that every step keeps (\<open>kept\<close>), a measure that
  every step decreases (\<open>measured\<close>), and both together with a description of the states without a
  further step (\<open>finishing\<close>; \<open>guarded\<close> when the measure decreases only under the invariant); and the
  refinement of an abstract system (\<open>refining\<close>, \<open>realising\<close>).  Each program that runs as processes
  which interleave interprets them on its own relation.
\<close>

definition stopped :: "('s \<Rightarrow> 's \<Rightarrow> bool) \<Rightarrow> 's \<Rightarrow> bool" where
  "stopped step s \<longleftrightarrow> \<not> (\<exists>t. step s t)"

lemma stoppedI: "(\<And>t. \<not> step s t) \<Longrightarrow> stopped step s"
  by (simp add: stopped_def)

lemma stoppedD: "stopped step s \<Longrightarrow> \<not> step s t"
  by (simp add: stopped_def)

text \<open>A run step by step, forwards.\<close>

lemma run_Suc: "step s t \<Longrightarrow> (step ^^ n) t u \<Longrightarrow> (step ^^ Suc n) s u"
  by (rule relpowp_Suc_I2)

locale kept =
  fixes step :: "'s \<Rightarrow> 's \<Rightarrow> bool" and holds :: "'s \<Rightarrow> bool"
  assumes keeps: "step s t \<Longrightarrow> holds s \<Longrightarrow> holds t"
begin

lemma reach: "step\<^sup>*\<^sup>* s t \<Longrightarrow> holds s \<Longrightarrow> holds t"
  by (induction rule: rtranclp_induct) (auto intro: keeps)

lemma reach_power: "(step ^^ n) s t \<Longrightarrow> holds s \<Longrightarrow> holds t"
  using reach relpowp_imp_rtranclp by metis

end

locale measured =
  fixes step :: "'s \<Rightarrow> 's \<Rightarrow> bool" and left :: "'s \<Rightarrow> nat"
  assumes decreases: "step s t \<Longrightarrow> left t < left s"
begin

lemma run_bound: "(step ^^ n) s t \<Longrightarrow> n + left t \<le> left s"
proof (induction n arbitrary: t)
  case (Suc n)
  then obtain u where "(step ^^ n) s u" "step u t" by auto
  then show ?case using Suc.IH[of u] decreases[of u t] by linarith
qed simp

text \<open>Every run can be continued to its end, and none goes on for ever.\<close>

lemma ends: "\<exists>t. step\<^sup>*\<^sup>* s t \<and> stopped step t"
proof (induction "left s" arbitrary: s rule: less_induct)
  case less
  show ?case
  proof (cases "stopped step s")
    case False
    then obtain u where "step s u" by (auto simp: stopped_def)
    moreover then obtain t where "step\<^sup>*\<^sup>* u t" "stopped step t" using less decreases by blast
    ultimately show ?thesis by (meson converse_rtranclp_into_rtranclp)
  qed blast
qed

lemma no_endless_run: "\<not> (\<exists>f. \<forall>i. step (f i) (f (Suc i)))"
proof
  assume "\<exists>f. \<forall>i. step (f i) (f (Suc i))"
  then obtain f where f: "\<And>i. step (f i) (f (Suc i))" by blast
  have "(step ^^ i) (f 0) (f i)" for i by (induction i) (use f in \<open>auto intro: relcomppI\<close>)
  then have "Suc (left (f 0)) \<le> left (f 0)" using run_bound[of "Suc (left (f 0))"] by fastforce
  then show False by simp
qed

end

locale finishing = kept step holds + measured step left
  for step :: "'s \<Rightarrow> 's \<Rightarrow> bool" and holds :: "'s \<Rightarrow> bool" and left :: "'s \<Rightarrow> nat" +
  fixes final :: "'s \<Rightarrow> bool"
  assumes stops: "holds s \<Longrightarrow> stopped step s \<Longrightarrow> final s"
begin

lemma stopped_final: "(step ^^ n) s t \<Longrightarrow> holds s \<Longrightarrow> stopped step t \<Longrightarrow> final t"
  using stops reach_power by blast

text \<open>From every state of a run the final states can still be reached.\<close>

lemma finishes: "holds s \<Longrightarrow> \<exists>t. step\<^sup>*\<^sup>* s t \<and> holds t \<and> final t"
  using ends[of s] reach stops by blast

end

text \<open>The same when the measure is known to decrease only while the invariant holds.\<close>

locale guarded = kept step holds
  for step :: "'s \<Rightarrow> 's \<Rightarrow> bool" and holds :: "'s \<Rightarrow> bool" +
  fixes left :: "'s \<Rightarrow> nat" and final :: "'s \<Rightarrow> bool"
  assumes lessens: "step s t \<Longrightarrow> holds s \<Longrightarrow> left t < left s"
    and rests: "holds s \<Longrightarrow> stopped step s \<Longrightarrow> final s"

sublocale guarded \<subseteq> within: finishing "\<lambda>s t. holds s \<and> step s t" holds left final
  by unfold_locales (auto simp: stopped_def intro: keeps lessens rests)

context guarded
begin

lemma guard_run: "(step ^^ n) s t \<Longrightarrow> holds s \<Longrightarrow> ((\<lambda>s t. holds s \<and> step s t) ^^ n) s t"
proof (induction n arbitrary: t)
  case (Suc n)
  then obtain u where u: "(step ^^ n) s u" "step u t" by auto
  then show ?case using Suc.IH[OF u(1) Suc.prems(2)] reach_power[OF u(1) Suc.prems(2)] by (auto intro: relcomppI)
qed simp

lemma run_limit: "(step ^^ n) s t \<Longrightarrow> holds s \<Longrightarrow> n + left t \<le> left s"
  by (rule within.run_bound[OF guard_run])

lemma halted_final: "step\<^sup>*\<^sup>* s t \<Longrightarrow> holds s \<Longrightarrow> stopped step t \<Longrightarrow> final t"
  by (rule rests[OF reach])

lemma completes: "holds s \<Longrightarrow> \<exists>t. step\<^sup>*\<^sup>* s t \<and> holds t \<and> final t"
proof -
  assume "holds s"
  then obtain t where t: "(\<lambda>s t. holds s \<and> step s t)\<^sup>*\<^sup>* s t" "holds t" "final t" using within.finishes by blast
  have "step\<^sup>*\<^sup>* s t" by (rule mono_rtranclp[rule_format, OF _ t(1)]) simp
  then show ?thesis using t(2,3) by blast
qed

end

text \<open>
  Refinement: every step is a step of a more abstract system or none at all, so the runs and their
  invariants are those of the abstract system; and, in \<open>realising\<close>, the converse: from the states in
  \<open>rests\<close> every abstract step can be made.
\<close>

locale refining = kept step holds
  for step :: "'s \<Rightarrow> 's \<Rightarrow> bool" and holds :: "'s \<Rightarrow> bool" +
  fixes spec :: "'a \<Rightarrow> 'a \<Rightarrow> bool" and abs :: "'s \<Rightarrow> 'a"
  assumes simulates: "step s t \<Longrightarrow> holds s \<Longrightarrow> abs t = abs s \<or> spec (abs s) (abs t)"
begin

lemma refined: "step\<^sup>*\<^sup>* s t \<Longrightarrow> holds s \<Longrightarrow> spec\<^sup>*\<^sup>* (abs s) (abs t)"
proof (induction rule: rtranclp_induct)
  case (step t u)
  then show ?case using simulates[OF step(2) reach[OF step(1)]] by (metis rtranclp.rtrancl_into_rtrancl)
qed simp

text \<open>An invariant of the abstract system is one of the concrete system.\<close>

lemma inherits:
  assumes "\<And>a b. spec a b \<Longrightarrow> P a \<Longrightarrow> P b" and "step\<^sup>*\<^sup>* s t" and "holds s" and "P (abs s)"
  shows "P (abs t)"
  using refined[OF assms(2,3)] by (induction rule: rtranclp_induct) (auto intro: assms)

end

locale realising = refining step holds spec abs
  for step :: "'s \<Rightarrow> 's \<Rightarrow> bool" and holds :: "'s \<Rightarrow> bool" and spec :: "'a \<Rightarrow> 'a \<Rightarrow> bool" and abs :: "'s \<Rightarrow> 'a" +
  fixes rests :: "'s \<Rightarrow> bool"
  assumes realises: "spec (abs s) b \<Longrightarrow> rests s \<Longrightarrow> \<exists>t. step\<^sup>*\<^sup>* s t \<and> rests t \<and> abs t = b"
begin

lemma realised: "spec\<^sup>*\<^sup>* (abs s) b \<Longrightarrow> rests s \<Longrightarrow> \<exists>t. step\<^sup>*\<^sup>* s t \<and> rests t \<and> abs t = b"
proof (induction rule: rtranclp_induct)
  case (step a b)
  then obtain t where t: "step\<^sup>*\<^sup>* s t" "rests t" "abs t = a" by blast
  with step(2) realises[of t b] obtain u where "step\<^sup>*\<^sup>* t u" "rests u" "abs u = b" by blast
  then show ?case using rtranclp_trans[OF t(1)] by blast
qed blast

lemma exact: "holds s \<Longrightarrow> rests s \<Longrightarrow> abs ` {t. step\<^sup>*\<^sup>* s t} = {a. spec\<^sup>*\<^sup>* (abs s) a}"
  using refined realised by blast

end

end
