(* ===== verification/ShmProps.thy ===== *)
theory ShmProps
  imports DictProps ShmDict StepSys
begin

text \<open>
  The properties of the shared-memory dictionary of SP_HW12, for the server that answers from a file
  with its own \<open>lookup5\<close>: mutual exclusion and the right answer at the await, freedom from
  deadlock, correctness for a single client, and the two ways in which several clients get wrong
  answers.
\<close>

interpretation shm_file: dict_server "lookup5_copy (temp\<lparr>dword := any_word junk\<rparr>) files resource"
    "local_inv files resource" "file_dict files resource"
  for temp junk files resource
  by unfold_locales

abbreviation file_lookup where
  "file_lookup temp junk files resource \<equiv> lookup5_copy (temp\<lparr>dword := any_word junk\<rparr>) files resource"

text \<open>Clients that have not started or never will, each with a terminated word.\<close>

definition ready :: "(nat \<Rightarrow> client6) \<Rightarrow> bool" where
  "ready cls \<longleftrightarrow> (\<forall>c. (c_pc (cls c) = Idle \<or> c_pc (cls c) = Gone) \<and> sized (c_rec (cls c)) \<and>
     NUL \<in> set (dword (c_rec (cls c))) \<and> c_undo0 (cls c) = 0 \<and> c_undo1 (cls c) = 0)"

text \<open>The state the server starts from with a well-formed dictionary.\<close>

definition served_from ::
  "(string \<Rightarrow> string option) \<Rightarrow> string \<Rightarrow> string list \<Rightarrow> bool list \<Rightarrow> dictrec \<Rightarrow> (nat \<Rightarrow> client6) \<Rightarrow>
   lookup5_vars shm_state \<Rightarrow> bool" where
  "served_from files resource argv calls segment cls st \<longleftrightarrow>
     (case files resource of None \<Rightarrow> False | Some file \<Rightarrow> wf_file file) \<and>
     sized segment \<and> NUL \<in> set (dtext segment) \<and> ready cls \<and>
     shm_setup argv calls segment lookup5_init cls = Ok st"

lemma served_from_facts:
  assumes "served_from files resource argv calls segment cls st"
  shows "tidy (local_inv files resource) st" and "shm_file.quiet st" and "clients st = cls"
    and "\<forall>c. c_pc (clients st c) = Idle \<or> c_pc (clients st c) = Gone"
  using assms
  by (auto simp: served_from_def shm_setup_def tidy_def shm_file.quiet_def ready_def local_inv_def lookup5_init_def
      split: if_splits option.splits)

text \<open>Two clients for the witnesses.\<close>

definition asking :: "string \<Rightarrow> client6" where
  "asking w = \<lparr>c_pc = Idle, c_rec = entry_rec (w, []), c_undo0 = 0, c_undo1 = 0\<rparr>"

definition two_clients :: "nat \<Rightarrow> client6" where
  "two_clients c = (if c = 0 then asking ''ant'' else if c = 1 then asking ''cat'' else (asking [])\<lparr>c_pc := Gone\<rparr>)"

lemma asking_word:
  "nul_free w \<Longrightarrow> length w < WORD \<Longrightarrow> cstr (dword (c_rec (asking w))) = Ok w \<and> sized (c_rec (asking w))"
  by (simp add: asking_def sized_entry TEXT_def) (simp add: entry_rec_def cstr_pad)

lemma two_clients_ready: "ready two_clients"
  using asking_word[of "''ant''"] asking_word[of "''cat''"] asking_word[of "[]"]
  by (auto simp: ready_def two_clients_def asking_def nul_free_def WORD_def cstr_def split: if_splits)

definition one_client :: "nat \<Rightarrow> client6" where
  "one_client c = (if c = 0 then asking ''ant'' else (asking [])\<lparr>c_pc := Gone\<rparr>)"

lemma one_client_ready: "ready one_client"
  using asking_word[of "''ant''"] asking_word[of "[]"]
  by (auto simp: ready_def one_client_def asking_def nul_free_def WORD_def cstr_def split: if_splits)

lemma some_dict: "file_dict (\<lambda>_. Some (encode some_entries)) ''f'' = map_of some_entries"
  by (rule encoded_dict(2)[OF some_entries_ok]) simp

definition start_state :: "lookup5_vars shm_state" where
  "start_state = \<lparr>sem0 = 1, sem1 = 0, shm = blank_rec, srv_pc = Waiting, srv_lookup = lookup5_init, clients = two_clients\<rparr>"

lemma start_state_served:
  "served_from (\<lambda>_. Some (encode some_entries)) ''f'' [''server'', ''f'', ''7''] [True, True, True, True, True] blank_rec
     two_clients start_state"
  using encode_table(2)[OF some_entries_ok] two_clients_ready
  by (simp add: served_from_def shm_setup_def start_state_def blank_rec_def sized_def TEXT_def)



text \<open>
  No deadlock: in every reachable state in which some client has not finished its request, some
  process can take its next step.
\<close>

theorem shm_no_deadlock:
  assumes "served_from files resource argv calls segment cls st0"
    and "(shm_step (file_lookup temp junk files resource))\<^sup>*\<^sup>* st0 st"
    and "c_pc (clients st c) \<noteq> Gone" and "\<And>q. c_pc (clients st c) \<noteq> Done q"
  shows "\<exists>st'. shm_step (file_lookup temp junk files resource) st st'"
proof -
  note f = served_from_facts[OF assms(1)]
  have inv: "tidy (local_inv files resource) st" "excl (file_dict files resource) st"
    using shm_file.shm_reachable[OF assms(2) f(1,2,4)] by blast+
  have "\<not> finished (c_pc (clients st c))" using assms(3,4) by (cases "c_pc (clients st c)") auto
  then show ?thesis using shm_file.shm_progress[OF inv] unfolding serving_def by blast
qed

theorem shm_no_deadlock_witness:
  "\<exists>st'. shm_step (file_lookup blank_rec [] (\<lambda>_. Some (encode some_entries)) ''f'') start_state st'"
  by (rule shm_no_deadlock[OF start_state_served rtranclp.rtrancl_refl, of 0])
    (simp_all add: start_state_def two_clients_def asking_def)



text \<open>What a client past its \<open>await\<close> can find in the shared record, and then has for its result.\<close>

fun past_await :: "client_pc \<Rightarrow> bool" where
  "past_await Served = True"
| "past_await Released = True"
| "past_await Copying = True"
| "past_await (Done q) = True"
| "past_await _ = False"

definition is_reply :: "(string \<Rightarrow> string option) \<Rightarrow> string \<Rightarrow> bool" where
  "is_reply dict buf \<longleftrightarrow> (\<exists>v. cstr buf = Ok (reply_text dict v))"

definition sourced :: "(string \<Rightarrow> string option) \<Rightarrow> 's shm_state \<Rightarrow> bool" where
  "sourced dict st \<longleftrightarrow> (\<forall>c. (past_await (c_pc (clients st c)) \<longrightarrow> is_reply dict (dtext (shm st))) \<and>
     (c_pc (clients st c) = Done FOUND \<longrightarrow> is_reply dict (dtext (c_rec (clients st c)))))"

lemma sourcedD: "sourced dict st \<Longrightarrow> past_await (c_pc (clients st c)) \<Longrightarrow> is_reply dict (dtext (shm st))"
  by (auto simp: sourced_def)

context dict_server
begin

lemma looked_reply:
  assumes "tidy inv st" and "excl dict st" and "srv_pc st = Looking"
    and "shm_lookup lookup (shm st) (srv_lookup st) = (Ok sh, l)"
  shows "is_reply dict (dtext sh)"
proof -
  obtain c where "phase dict st (clients st c)" using excl_busy[OF assms(2)] assms(3) by auto
  then have "asked st (clients st c)" using phase_Looking assms(3) by blast
  moreover have n: "NUL \<in> set (dword (c_rec (clients st c)))" using assms(1) by (simp add: tidy_def)
  then obtain w where "cstr (dword (c_rec (clients st c))) = Ok w" by (auto simp: cstr_def)
  ultimately show ?thesis using answered_looked(5)[OF assms(1) _ n assms(4)] by (auto simp: is_reply_def)
qed

lemma sourced_step:
  assumes "shm_step lookup st st'" and "tidy inv st" and "excl dict st" and "sourced dict st"
  shows "sourced dict st'"
  using assms(1)
proof (cases rule: shm_step.cases)
  case (do_await c p)
  have "is_reply dict (dtext (shm st))" if "answered dict st (clients st c)"
    using that tidy_word[OF assms(2), of c] by (auto simp: answered_def is_reply_def)
  moreover have "answered dict st (clients st c)"
    using excl_crit(2)[OF assms(3), of c] do_await by (auto simp: phase_def)
  ultimately show ?thesis using do_await assms(4) by (auto simp: sourced_def)
next
  case (do_copy c p t b)
  have "cstr b = Ok t" by (rule strcpy_cstr[OF do_copy(5) cstr_nul_free[OF do_copy(4)]])
  moreover have "is_reply dict (dtext (shm st))" using sourcedD[OF assms(4), of c] do_copy(2) by simp
  ultimately show ?thesis using do_copy assms(4) by (auto simp: sourced_def is_reply_def)
next
  case (do_release c p)
  then show ?thesis using sourcedD[OF assms(4), of c] assms(4) by (auto simp: sourced_def)
next
  case (do_check c p t)
  then show ?thesis
    using sourcedD[OF assms(4), of c] assms(4) by (auto simp: sourced_def FOUND_def NOTFOUND_def)
next
  case (srv_look sh l)
  then show ?thesis using looked_reply[OF assms(2,3)] assms(4) by (auto simp: sourced_def)
qed (use assms(4) in \<open>auto simp: sourced_def FOUND_def NOTFOUND_def dest: spec split: if_splits\<close>)

lemma sourced_reachable:
  assumes "(shm_step lookup)\<^sup>*\<^sup>* st0 st" and "tidy inv st0" and "quiet st0"
    and "\<forall>c. c_pc (clients st0 c) = Idle \<or> c_pc (clients st0 c) = Gone"
  shows "sourced dict st"
  using assms(1)
proof (induction rule: rtranclp_induct)
  case base
  have "\<not> past_await (c_pc (clients st0 c)) \<and> c_pc (clients st0 c) \<noteq> Done FOUND" for c
    using assms(4)[rule_format, of c] by auto
  then show ?case by (simp add: sourced_def)
next
  case (step st st')
  then show ?case using shm_reachable[OF step(1) assms(2-4)] sourced_step by blast
qed

end



text \<open>
  With one client the service is correct: whenever the only client finishes a request, whatever it
  asked before, \<open>lookup6\<close> returns what the dictionary holds for its word (an entry that is the
  marker counting as absent), and the text is in the client's record.
\<close>

theorem shm_single_client:
  assumes "served_from files resource argv calls segment cls st0"
    and "(shm_step (file_lookup temp junk files resource))\<^sup>*\<^sup>* st0 st"
    and "\<forall>d. d \<noteq> c \<longrightarrow> c_pc (clients st d) = Gone"
    and "c_pc (clients st c) = Done q" and "cstr (dword (c_rec (clients st c))) = Ok w"
  shows "case remote_dict (file_dict files resource) w of None \<Rightarrow> q = NOTFOUND
    | Some t \<Rightarrow> q = FOUND \<and> cstr (dtext (c_rec (clients st c))) = Ok t"
proof -
  note f = served_from_facts[OF assms(1)]
  have "alone_ok (file_dict files resource) st"
    using shm_file.shm_reachable[OF assms(2) f(1,2,4)] by blast
  then have "settled (file_dict files resource) st (clients st c) w"
    using assms(3,5) unfolding alone_ok_def by blast
  then show ?thesis using assms(4) by (simp add: settled_def)
qed

theorem shm_single_client_witness:
  "\<exists>st. (shm_step (file_lookup blank_rec [] (\<lambda>_. Some (encode some_entries)) ''f''))\<^sup>*\<^sup>*
      (start_state\<lparr>clients := one_client\<rparr>) st \<and>
    c_pc (clients st 0) = Done FOUND \<and> cstr (dtext (c_rec (clients st 0))) = Ok ''an insect''"
proof -
  let ?st0 = "start_state\<lparr>clients := one_client\<rparr>" and ?files = "\<lambda>_::string. Some (encode some_entries)"
  have sv: "served_from ?files ''f'' [''server'', ''f'', ''7''] [True, True, True, True, True] blank_rec one_client ?st0"
    using start_state_served one_client_ready by (simp add: served_from_def shm_setup_def start_state_def)
  note f = served_from_facts[OF sv]
  have c0: "c_pc (clients ?st0 0) = Idle" "cstr (dword (c_rec (clients ?st0 0))) = Ok ''ant''"
    using asking_word[of "''ant''"] by (simp_all add: one_client_def nul_free_def WORD_def asking_def)
  obtain st1 where st1: "(shm_step (file_lookup blank_rec [] ?files ''f''))\<^sup>*\<^sup>* ?st0 st1"
      "tidy (local_inv ?files ''f'') st1" "c_pc (clients st1 0) = Released"
      "c_rec (clients st1 0) = c_rec (clients ?st0 0)"
      "\<And>d. d \<noteq> 0 \<Longrightarrow> clients st1 d = clients ?st0 d" "cstr (dtext (shm st1)) = Ok (reply_text (file_dict ?files ''f'') ''ant'')"
    using shm_file.request_released[OF f(1,2) c0] by metis
  obtain st2 q where st2: "(shm_step (file_lookup blank_rec [] ?files ''f''))\<^sup>*\<^sup>* st1 st2" "c_pc (clients st2 0) = Done q"
      "dword (c_rec (clients st2 0)) = dword (c_rec (clients st1 0))" "\<And>d. d \<noteq> 0 \<Longrightarrow> clients st2 d = clients st1 d"
    using shm_file.released_reads[OF st1(2,3,6)] by metis
  have run: "(shm_step (file_lookup blank_rec [] ?files ''f''))\<^sup>*\<^sup>* ?st0 st2" using st1(1) st2(1) by (rule rtranclp_trans)
  have "\<forall>d. d \<noteq> 0 \<longrightarrow> c_pc (clients st2 d) = Gone" using st1(5) st2(4) by (simp add: one_client_def)
  have d: "remote_dict (file_dict ?files ''f'') ''ant'' = Some ''an insect''"
    unfolding some_dict by (simp add: remote_dict_def some_entries_def)
  have "cstr (dword (c_rec (clients st2 0))) = Ok ''ant''" using c0(2) st1(4) st2(3) by simp
  from shm_single_client[OF sv run \<open>\<forall>d. d \<noteq> 0 \<longrightarrow> c_pc (clients st2 d) = Gone\<close> st2(2) this]
  have "q = FOUND \<and> cstr (dtext (c_rec (clients st2 0))) = Ok ''an insect''" by (simp add: d)
  then show ?thesis using run st2(2) by blast
qed

text \<open>
  C17: The race: \<open>lookup6\<close> releases the mutex before it reads the answer.  For any two clients
  that ask different words, there is an interleaving in which the first one ends with \<open>FOUND\<close> and
  the text of the second one's word.
\<close>

theorem shm_release_race:
  assumes "served_from files resource argv calls segment cls st0" and "c \<noteq> d"
    and "c_pc (cls c) = Idle" and "c_pc (cls d) = Idle"
    and "cstr (dword (c_rec (cls c))) = Ok w" and "cstr (dword (c_rec (cls d))) = Ok v"
    and "file_dict files resource v = Some t" and "t \<noteq> ''XXXX''"
  shows "\<exists>st. (shm_step (file_lookup temp junk files resource))\<^sup>*\<^sup>* st0 st \<and> c_pc (clients st c) = Done FOUND \<and>
    cstr (dword (c_rec (clients st c))) = Ok w \<and> cstr (dtext (c_rec (clients st c))) = Ok t"
proof -
  note f = served_from_facts[OF assms(1)]
  have "reply_text (file_dict files resource) v = t" using assms(7) by (simp add: reply_text_def)
  then show ?thesis
    using shm_file.released_race[OF f(1,2) assms(2), of w v] assms(3-6,8) f(3) by auto
qed

lemma two_clients_words:
  "c_pc (two_clients 0) = Idle" "c_pc (two_clients 1) = Idle"
  "cstr (dword (c_rec (two_clients 0))) = Ok ''ant''" "cstr (dword (c_rec (two_clients 1))) = Ok ''cat''"
  using asking_word[of "''ant''"] asking_word[of "''cat''"]
  by (simp_all add: two_clients_def nul_free_def WORD_def) (simp_all add: asking_def)

theorem shm_release_race_witness:
  "\<exists>st. (shm_step (file_lookup blank_rec [] (\<lambda>_. Some (encode some_entries)) ''f''))\<^sup>*\<^sup>* start_state st \<and>
    c_pc (clients st 0) = Done FOUND \<and>
    cstr (dword (c_rec (clients st 0))) = Ok ''ant'' \<and> cstr (dtext (c_rec (clients st 0))) = Ok ''a pet''"
  by (rule shm_release_race[OF start_state_served, of 0 1 "''ant''" "''cat''"])
    (simp_all only: two_clients_words some_dict, simp_all add: some_entries_def)

text \<open>
  C18: \<open>SEM_UNDO\<close> on the counting semaphore: when a client that has finished a request exits, the
  kernel takes back its alert of 2.  There is an interleaving in which this wipes out the alert of
  another client, which then passes its \<open>await\<close> without having been served and ends with the answer
  to the first client's word.
\<close>

theorem shm_exit_wipes_request:
  assumes "served_from files resource argv calls segment cls st0" and "c \<noteq> d"
    and "c_pc (cls c) = Idle" and "c_pc (cls d) = Idle"
    and "cstr (dword (c_rec (cls c))) = Ok w" and "cstr (dword (c_rec (cls d))) = Ok v"
  shows "\<exists>st. (sup (shm_step (file_lookup temp junk files resource)) shm_exit)\<^sup>*\<^sup>* st0 st \<and>
    c_pc (clients st c) = Gone \<and> cstr (dword (c_rec (clients st d))) = Ok v \<and>
    (case remote_dict (file_dict files resource) w of None \<Rightarrow> c_pc (clients st d) = Done NOTFOUND
     | Some t \<Rightarrow> c_pc (clients st d) = Done FOUND \<and> cstr (dtext (c_rec (clients st d))) = Ok t)"
proof -
  note f = served_from_facts[OF assms(1)]
  have "c_undo0 (clients st0 c) = 0" "c_undo1 (clients st0 c) = 0"
    using assms(1) f(3) by (auto simp: served_from_def ready_def split: option.splits)
  then show ?thesis
    using shm_file.exit_race[OF f(1,2) assms(2), of w v] assms(3-6) f(3) by auto
qed

theorem shm_exit_wipes_request_witness:
  "\<exists>st. (sup (shm_step (file_lookup blank_rec [] (\<lambda>_. Some (encode some_entries)) ''f'')) shm_exit)\<^sup>*\<^sup>* start_state st \<and>
    c_pc (clients st 0) = Gone \<and> cstr (dword (c_rec (clients st 1))) = Ok ''cat'' \<and>
    c_pc (clients st 1) = Done FOUND \<and> cstr (dtext (c_rec (clients st 1))) = Ok ''an insect''"
proof -
  have "remote_dict (map_of some_entries) ''ant'' = Some ''an insect''" by (simp add: remote_dict_def some_entries_def)
  then show ?thesis
    using shm_exit_wipes_request[OF start_state_served _ two_clients_words, where temp = blank_rec and junk = "[]"]
    by (simp add: some_dict)
qed

end
