(* ===== verification/ShmAttach.thy ===== *)
theory ShmAttach
  imports ShmProps CProc
begin

text \<open>
  SP_HW12: how the server and the clients of the shared-memory dictionary find each other, the calls
  before the loop of shm_server.c and the first call of \<open>lookup\<close> in lookup6.c.  Both turn their
  resource argument into a key of the System V name space.
\<close>

section \<open>The name space\<close>






section \<open>Attaching\<close>

text \<open>
  \<open>if ((id = get (...)) == -1) DIE (msg);\<close> : the call fails for a reason of its own, or because there
  is no such object (\<open>ENOENT\<close>, 2).
\<close>

definition obtained :: "os \<Rightarrow> string \<Rightarrow> int option \<Rightarrow> 'a option \<Rightarrow> ('a, proc) cmd" where
  "obtained os msg failure r = (case (failure, r) of
       (Some e, _) \<Rightarrow> seqc (fails_with os msg e) (exitc 1)
     | (None, None) \<Rightarrow> seqc (fails_with os msg 2) (exitc 1)
     | (None, Some x) \<Rightarrow> ret x)"




section \<open>Lemmas\<close>


lemma obtained_simps [simp]:
  "obtained os msg None (Some x) s = (Ok x, s)"
  "obtained os msg None None s = (Exit 1, s\<lparr>perrno := 2, perr := perr s @ msg @ '': '' @ os_strerror os 2 @ [newline]\<rparr>)"
  by (simp_all add: obtained_def seqc_def)




section \<open>Properties\<close>




end
