(* ===== verification/ShmSpec.thy ===== *)
theory ShmSpec
  imports ShmProps
begin

text \<open>
  What the shared-memory dictionary of SP_HW12 as a whole provides, without semaphores, a server or shared
  memory: an abstract system that answers a request in one step, but keeps one answer for all, which a
  client reads later, in two steps.  The program does exactly what this system does.
\<close>

section \<open>The abstract dictionary\<close>

text \<open>
  A client asks for a word, is answered, is about to copy an answer that was not the marker, has a
  result, or is not there.
\<close>

datatype asker = Asks string | Answered string | Reads string | Result string "string option" | Absent

record dict_state =
  latest :: string
  askers :: "nat \<Rightarrow> asker"

definition asker_is :: "nat \<Rightarrow> asker \<Rightarrow> dict_state \<Rightarrow> dict_state" where
  "asker_is c k a = a\<lparr>askers := (askers a)(c := k)\<rparr>"

inductive dict_spec :: "(string \<Rightarrow> string option) \<Rightarrow> dict_state \<Rightarrow> dict_state \<Rightarrow> bool" for dict where
  serve: "askers a c = Asks w \<Longrightarrow> dict_spec dict a (asker_is c (Answered w) (a\<lparr>latest := reply_text dict w\<rparr>))"
| look: "askers a c = Answered w \<Longrightarrow>
    dict_spec dict a (asker_is c (if latest a = ''XXXX'' then Result w None else Reads w) a)"
| copy: "askers a c = Reads w \<Longrightarrow> dict_spec dict a (asker_is c (Result w (Some (latest a))) a)"
| ask: "askers a c = Result w r \<Longrightarrow> nul_free v \<Longrightarrow> length v < WORD \<Longrightarrow> dict_spec dict a (asker_is c (Asks v) a)"

section \<open>The abstraction\<close>

text \<open>The answer is there from the moment the server has looked it up.\<close>

definition asker_of :: "'s shm_state \<Rightarrow> client6 \<Rightarrow> asker" where
  "asker_of st p = (case c_pc p of
       Alerted \<Rightarrow> if sem1 st = 2 \<or> srv_pc st = Looking then Asks (word_in (c_rec p)) else Answered (word_in (c_rec p))
     | Served \<Rightarrow> Answered (word_in (c_rec p))
     | Released \<Rightarrow> Answered (word_in (c_rec p))
     | Copying \<Rightarrow> Reads (word_in (c_rec p))
     | Done q \<Rightarrow> Result (word_in (c_rec p)) (if q = FOUND then Some (text_in (c_rec p)) else None)
     | Gone \<Rightarrow> Absent
     | _ \<Rightarrow> Asks (word_in (c_rec p)))"

definition dict_abs :: "'s shm_state \<Rightarrow> dict_state" where
  "dict_abs st = \<lparr>latest = text_in (shm st), askers = (\<lambda>c. asker_of st (clients st c))\<rparr>"

lemma asker_of_frame:
  "c_pc p \<noteq> Alerted \<Longrightarrow> asker_of st p = asker_of st' p"
  "sem1 st = sem1 st' \<Longrightarrow> srv_pc st = srv_pc st' \<Longrightarrow> asker_of st p = asker_of st' p"
  by (auto simp: asker_of_def split: client_pc.splits)

lemma dict_abs_client:
  assumes "clients st' = (clients st)(c := p)" and "text_in (shm st') = text_in (shm st)"
    and "\<And>d. d \<noteq> c \<Longrightarrow> c_pc (clients st d) = Alerted \<Longrightarrow> sem1 st' = sem1 st \<and> srv_pc st' = srv_pc st"
  shows "dict_abs st' = asker_is c (asker_of st' p) (dict_abs st)"
proof -
  have "asker_of st' (clients st d) = asker_of st (clients st d)" if "d \<noteq> c" for d
    using assms(3)[OF that] asker_of_frame by metis
  then show ?thesis by (auto simp: dict_abs_def asker_is_def assms(1,2))
qed

lemma dict_abs_same: "askers (dict_abs st) c = k \<Longrightarrow> asker_is c k (dict_abs st) = dict_abs st"
  by (auto simp: asker_is_def)

lemma dict_abs_askers [simp]: "askers (dict_abs st) c = asker_of st (clients st c)"
  and dict_abs_latest [simp]: "latest (dict_abs st) = text_in (shm st)"
  by (simp_all add: dict_abs_def)

lemma text_in_cstr: "cstr (dtext r) = Ok t \<Longrightarrow> text_in r = t"
  and word_in_cstr: "cstr (dword r) = Ok w \<Longrightarrow> word_in r = w"
  by (auto simp: cstr_def text_in_def word_in_def split: if_splits)

lemma dict_abs_server:
  assumes "clients st' = clients st" and "asker_of st' (clients st c) = k"
    and "\<And>d. d \<noteq> c \<Longrightarrow> c_pc (clients st d) \<noteq> Alerted"
  shows "dict_abs st' = asker_is c k ((dict_abs st)\<lparr>latest := text_in (shm st')\<rparr>)"
proof -
  have "asker_of st' (clients st d) = asker_of st (clients st d)" if "d \<noteq> c" for d
    using assms(3)[OF that] asker_of_frame(1) by metis
  then show ?thesis using assms(1,2) by (auto simp: dict_abs_def asker_is_def)
qed

section \<open>Every step is an abstract step or none\<close>

context dict_server
begin

lemma excl_alerted:
  "excl dict st \<Longrightarrow> crit (c_pc (clients st c)) \<Longrightarrow> d \<noteq> c \<Longrightarrow> c_pc (clients st d) \<noteq> Alerted"
  using excl_crit(3)[of st c d] by auto

lemma client_keeps:
  assumes "clients st' = (clients st)(c := p)" and "text_in (shm st') = text_in (shm st)"
    and "asker_of st' p = asker_of st (clients st c)"
    and "\<And>d. d \<noteq> c \<Longrightarrow> c_pc (clients st d) = Alerted \<Longrightarrow> sem1 st' = sem1 st \<and> srv_pc st' = srv_pc st"
  shows "dict_abs st' = dict_abs st"
  using dict_abs_client[OF assms(1,2,4)] dict_abs_same[of st c "asker_of st' p"] assms(3) by simp

lemma check_simulated:
  assumes "st' = set_client c (p\<lparr>c_pc := if strcmp t ''XXXX'' \<noteq> 0 then Copying else Done NOTFOUND\<rparr>) st"
    and "c_pc (clients st c) = Released" and "p = clients st c" and "cstr (dtext (shm st)) = Ok t"
  shows "dict_spec dict (dict_abs st) (dict_abs st')"
proof -
  let ?p = "p\<lparr>c_pc := if strcmp t ''XXXX'' \<noteq> 0 then Copying else Done NOTFOUND\<rparr>" and ?w = "word_in (c_rec p)"
  have t: "text_in (shm st) = t" by (rule text_in_cstr[OF assms(4)])
  have "dict_abs st' = asker_is c (asker_of st' ?p) (dict_abs st)"
    by (rule dict_abs_client) (use assms(1) in simp_all)
  moreover have "asker_of st' ?p = (if latest (dict_abs st) = ''XXXX'' then Result ?w None else Reads ?w)"
    by (simp add: asker_of_def t FOUND_def NOTFOUND_def)
  moreover have "askers (dict_abs st) c = Answered ?w" using assms(2,3) by (simp add: asker_of_def)
  ultimately show ?thesis using look[of "dict_abs st" c ?w dict] by presburger
qed

lemma copy_simulated:
  assumes "st' = set_client c (p\<lparr>c_pc := Done FOUND, c_rec := (c_rec p)\<lparr>dtext := b\<rparr>\<rparr>) st"
    and "c_pc (clients st c) = Copying" and "p = clients st c" and "cstr (dtext (shm st)) = Ok t"
    and "strcpy (dtext (c_rec p)) t = Ok b"
  shows "dict_spec dict (dict_abs st) (dict_abs st')"
proof -
  let ?p = "p\<lparr>c_pc := Done FOUND, c_rec := (c_rec p)\<lparr>dtext := b\<rparr>\<rparr>" and ?w = "word_in (c_rec p)"
  have "cstr b = Ok t" by (rule strcpy_cstr[OF assms(5) cstr_nul_free[OF assms(4)]])
  then have "text_in ((c_rec p)\<lparr>dtext := b\<rparr>) = t" by (intro text_in_cstr) simp
  moreover have "text_in (shm st) = t" by (rule text_in_cstr[OF assms(4)])
  ultimately have "asker_of st' ?p = Result ?w (Some (latest (dict_abs st)))"
    by (simp add: asker_of_def word_in_def)
  moreover have "dict_abs st' = asker_is c (asker_of st' ?p) (dict_abs st)"
    by (rule dict_abs_client) (use assms(1) in simp_all)
  moreover have "askers (dict_abs st) c = Reads ?w" using assms(2,3) by (simp add: asker_of_def)
  ultimately show ?thesis using copy[of "dict_abs st" c ?w dict] by presburger
qed

lemma ask_simulated:
  assumes "st' = set_client c (p\<lparr>c_pc := Idle, c_rec := (c_rec p)\<lparr>dword := word\<rparr>\<rparr>) st"
    and "c_pc (clients st c) = Done q" and "p = clients st c" and "length word = WORD" and "NUL \<in> set word"
  shows "dict_spec dict (dict_abs st) (dict_abs st')"
proof -
  let ?p = "p\<lparr>c_pc := Idle, c_rec := (c_rec p)\<lparr>dword := word\<rparr>\<rparr>" and ?v = "takeWhile (\<lambda>c. c \<noteq> NUL) word"
  have v: "nul_free ?v" "length ?v < WORD"
    using assms(4,5) cstr_nul_free[of word ?v] cstr_length[of word ?v] by (simp_all add: cstr_def)
  have "asker_of st' ?p = Asks ?v" by (simp add: asker_of_def word_in_def)
  moreover have "dict_abs st' = asker_is c (asker_of st' ?p) (dict_abs st)"
    by (rule dict_abs_client) (use assms(1) in simp_all)
  moreover have "askers (dict_abs st) c = Result (word_in (c_rec p)) (if q = FOUND then Some (text_in (c_rec p)) else None)"
    using assms(2,3) by (simp add: asker_of_def)
  ultimately show ?thesis using ask[OF _ v, of "dict_abs st" c] by metis
qed

lemma look_simulated:
  assumes "st' = st\<lparr>srv_pc := Notifying, shm := sh, srv_lookup := l\<rparr>"
    and "srv_pc st = Looking" and "shm_lookup lookup (shm st) (srv_lookup st) = (Ok sh, l)"
    and "tidy inv st" and "excl dict st"
  shows "dict_spec dict (dict_abs st) (dict_abs st')"
proof -
  obtain c where c: "c_pc (clients st c) = Alerted" "phase dict st (clients st c)" by (metis assms(2) excl_busy[OF assms(5)] server_pc.distinct(1))
  let ?w = "word_in (c_rec (clients st c))"
  have s1: "asked st (clients st c)" "sem1 st = 1" using phase_Looking[OF c(2) assms(2)] by auto
  have n: "NUL \<in> set (dword (c_rec (clients st c)))" using assms(4) by (simp add: tidy_def)
  have "cstr (dtext sh) = Ok (reply_text dict ?w)"
    by (rule answered_looked(5)[OF assms(4) s1(1) n assms(3) cstr_word_in[OF n]])
  then have t: "text_in (shm st') = reply_text dict ?w" using assms(1) text_in_cstr by simp
  have "asker_of st' (clients st c) = Answered ?w" using c s1 assms(1) by (simp add: asker_of_def)
  then have "dict_abs st' = asker_is c (Answered ?w) ((dict_abs st)\<lparr>latest := text_in (shm st')\<rparr>)"
    using assms(1) c excl_alerted[OF assms(5), of c] by (intro dict_abs_server) auto
  moreover have "askers (dict_abs st) c = Asks ?w" using c assms(2) by (simp add: asker_of_def)
  ultimately show ?thesis using serve[of "dict_abs st" c ?w dict] by (simp add: t)
qed

lemma shm_simulates:
  assumes "shm_step lookup st st'" and "tidy inv st" and "excl dict st"
  shows "dict_abs st' = dict_abs st \<or> dict_spec dict (dict_abs st) (dict_abs st')"
  using assms(1)
proof (cases rule: shm_step.cases)
  case (do_grab c p)
  then show ?thesis by (intro disjI1 client_keeps[of _ _ c]) (auto simp: asker_of_def)
next
  case (do_write c p w b)
  then show ?thesis by (intro disjI1 client_keeps[of _ _ c]) (auto simp: asker_of_def text_in_def)
next
  case (do_alert c p)
  then have "sem1 st = 0" using excl_crit(2)[OF assms(3), of c] by (auto simp: phase_def)
  then show ?thesis using do_alert excl_alerted[OF assms(3), of c]
    by (intro disjI1 client_keeps[of _ _ c]) (auto simp: asker_of_def)
next
  case (do_await c p)
  then have "srv_pc st = Waiting" using excl_crit(2)[OF assms(3), of c] by (auto simp: phase_def)
  then show ?thesis using do_await by (intro disjI1 client_keeps[of _ _ c]) (auto simp: asker_of_def)
next
  case (do_release c p)
  then show ?thesis by (intro disjI1 client_keeps[of _ _ c]) (auto simp: asker_of_def)
next
  case (do_check c p t)
  then show ?thesis using check_simulated by blast
next
  case (do_copy c p t b)
  then show ?thesis using copy_simulated by blast
next
  case (do_ask c q p word)
  then show ?thesis using ask_simulated by blast
next
  case srv_wait
  then obtain c where c: "c_pc (clients st c) = Alerted" "phase dict st (clients st c)" by (metis excl_busy[OF assms(3)])
  then have "sem1 st = 2" using srv_wait by (auto simp: phase_def)
  then have "asker_of st' (clients st c) = asker_of st (clients st c)" using c srv_wait by (simp add: asker_of_def)
  then have "dict_abs st' = asker_is c (asker_of st (clients st c)) ((dict_abs st)\<lparr>latest := text_in (shm st')\<rparr>)"
    using srv_wait c excl_alerted[OF assms(3), of c] by (intro dict_abs_server) auto
  then show ?thesis using srv_wait by (auto simp: asker_is_def dict_abs_def)
next
  case (srv_look sh l)
  then show ?thesis using look_simulated[OF _ _ _ assms(2,3)] by blast
next
  case srv_notify
  then obtain c where c: "c_pc (clients st c) = Alerted" "phase dict st (clients st c)" by (metis excl_busy[OF assms(3)] server_pc.distinct(3))
  then have "sem1 st = 1" using srv_notify by (auto simp: phase_def)
  then have "asker_of st' (clients st c) = asker_of st (clients st c)" using c srv_notify by (simp add: asker_of_def)
  then have "dict_abs st' = asker_is c (asker_of st (clients st c)) ((dict_abs st)\<lparr>latest := text_in (shm st')\<rparr>)"
    using srv_notify c excl_alerted[OF assms(3), of c] by (intro dict_abs_server) auto
  then show ?thesis using srv_notify by (auto simp: asker_is_def dict_abs_def)
qed

end

sublocale dict_server \<subseteq> spec: refining "shm_step lookup" "\<lambda>st. tidy inv st \<and> excl dict st" "dict_spec dict" dict_abs
  by unfold_locales (use tidy_step excl_step shm_simulates in blast)+

section \<open>Every abstract step can be made\<close>

text \<open>Between the requests: nobody holds the mutex, and the server waits.\<close>

context dict_server
begin

definition between :: "'s shm_state \<Rightarrow> bool" where
  "between st \<longleftrightarrow> tidy inv st \<and> excl dict st \<and> quiet st"

lemma between_free: "between st \<Longrightarrow> \<not> crit (c_pc (clients st c))"
  using excl_free[of st] by (simp add: between_def quiet_def)

lemma between_run: "between st \<Longrightarrow> steps st st' \<Longrightarrow> quiet st' \<Longrightarrow> between st'"
  using spec.reach by (simp add: between_def)

lemma between_abs:
  assumes "between st" and "\<And>d. d \<noteq> c \<Longrightarrow> clients st' d = clients st d" and "asker_of st' (clients st' c) = k"
  shows "dict_abs st' = asker_is c k ((dict_abs st)\<lparr>latest := text_in (shm st')\<rparr>)"
proof -
  have "asker_of st' (clients st d) = asker_of st (clients st d)" for d
    using between_free[OF assms(1), of d] by (intro asker_of_frame(1)) auto
  then show ?thesis using assms(2,3) by (auto simp: dict_abs_def asker_is_def)
qed

lemma serve_made:
  assumes "between st" and "asker_of st (clients st c) = Asks w"
  shows "\<exists>t. steps st t \<and> between t \<and> dict_abs t = asker_is c (Answered w) ((dict_abs st)\<lparr>latest := reply_text dict w\<rparr>)"
proof -
  have i: "tidy inv st" "quiet st" using assms(1) by (simp_all add: between_def)
  have p: "c_pc (clients st c) = Idle" and w: "w = word_in (c_rec (clients st c))"
    using assms(2) between_free[OF assms(1), of c] by (auto simp: asker_of_def split: client_pc.splits if_splits)
  have "cstr (dword (c_rec (clients st c))) = Ok w" using i(1) by (simp add: w tidy_def cstr_word_in)
  from request_released[OF i p this] obtain t where t: "steps st t" "quiet t" "c_pc (clients t c) = Released"
      "c_rec (clients t c) = c_rec (clients st c)" "\<And>d. d \<noteq> c \<Longrightarrow> clients t d = clients st d"
      "cstr (dtext (shm t)) = Ok (reply_text dict w)" by metis
  have "asker_of t (clients t c) = Answered w" using t(3,4) w by (simp add: asker_of_def)
  then show ?thesis
    using between_abs[OF assms(1) t(5)] text_in_cstr[OF t(6)] between_run[OF assms(1) t(1,2)] t(1) by auto
qed

text \<open>The other steps are one step of the client each.\<close>

lemma client_made:
  assumes "between st" and "shm_step lookup st (set_client c p st)" and "asker_of (set_client c p st) p = k"
  shows "\<exists>t. steps st t \<and> between t \<and> dict_abs t = asker_is c k (dict_abs st)"
proof -
  have "steps st (set_client c p st)" using assms(2) by (rule r_into_rtranclp)
  moreover have "between (set_client c p st)"
    by (rule between_run[OF assms(1) calculation]) (use assms(1) in \<open>simp add: between_def quiet_def\<close>)
  moreover have "dict_abs (set_client c p st) = asker_is c k (dict_abs st)"
    using between_abs[OF assms(1), of c "set_client c p st" k] assms(3) by (simp add: dict_abs_def)
  ultimately show ?thesis by blast
qed

lemma look_made:
  assumes "between st" and "asker_of st (clients st c) = Answered w"
  shows "\<exists>t. steps st t \<and> between t \<and>
    dict_abs t = asker_is c (if text_in (shm st) = ''XXXX'' then Result w None else Reads w) (dict_abs st)"
proof (rule client_made[OF assms(1)])
  have p: "c_pc (clients st c) = Released" and w: "w = word_in (c_rec (clients st c))"
    using assms(2) between_free[OF assms(1), of c] by (auto simp: asker_of_def split: client_pc.splits if_splits)
  have t: "cstr (dtext (shm st)) = Ok (text_in (shm st))" using assms(1) by (simp add: between_def tidy_def cstr_text_in)
  show "shm_step lookup st (set_client c ((clients st c)\<lparr>c_pc := (if strcmp (text_in (shm st)) ''XXXX'' \<noteq> 0 then Copying
      else Done NOTFOUND)\<rparr>) st)" by (rule do_check[OF p refl t])
  show "asker_of (set_client c ((clients st c)\<lparr>c_pc := (if strcmp (text_in (shm st)) ''XXXX'' \<noteq> 0 then Copying
      else Done NOTFOUND)\<rparr>) st) ((clients st c)\<lparr>c_pc := (if strcmp (text_in (shm st)) ''XXXX'' \<noteq> 0 then Copying
      else Done NOTFOUND)\<rparr>) = (if text_in (shm st) = ''XXXX'' then Result w None else Reads w)"
    by (simp add: asker_of_def w FOUND_def NOTFOUND_def)
qed

lemma copy_made:
  assumes "between st" and "asker_of st (clients st c) = Reads w"
  shows "\<exists>t. steps st t \<and> between t \<and> dict_abs t = asker_is c (Result w (Some (text_in (shm st)))) (dict_abs st)"
proof -
  let ?p = "clients st c"
  have p: "c_pc ?p = Copying" and w: "w = word_in (c_rec ?p)"
    using assms(2) between_free[OF assms(1), of c] by (auto simp: asker_of_def split: client_pc.splits if_splits)
  have t: "cstr (dtext (shm st)) = Ok (text_in (shm st))" using assms(1) by (simp add: between_def tidy_def cstr_text_in)
  have "length (text_in (shm st)) < length (dtext (c_rec ?p))"
    using cstr_length[OF t] assms(1) by (simp add: between_def tidy_def sized_def)
  then obtain b where b: "strcpy (dtext (c_rec ?p)) (text_in (shm st)) = Ok b" using strcpy_Ok by blast
  have "cstr b = Ok (text_in (shm st))" by (rule strcpy_cstr[OF b cstr_nul_free[OF t]])
  then show ?thesis
    by (intro client_made[OF assms(1) do_copy[OF p refl t b]]) (simp add: asker_of_def w word_in_def text_in_def cstr_def split: if_splits)
qed

lemma ask_made:
  assumes "between st" and "asker_of st (clients st c) = Result w r" and "nul_free v" and "length v < WORD"
  shows "\<exists>t. steps st t \<and> between t \<and> dict_abs t = asker_is c (Asks v) (dict_abs st)"
proof -
  let ?p = "clients st c"
  obtain q where p: "c_pc ?p = Done q"
    using assms(2) between_free[OF assms(1), of c] by (auto simp: asker_of_def split: client_pc.splits if_splits)
  have v: "cstr (pad WORD v) = Ok v" by (rule cstr_pad[OF assms(3,4)])
  have "length (pad WORD v) = WORD" "NUL \<in> set (pad WORD v)" using assms(4) by (simp_all add: pad_def)
  moreover have "word_in ((c_rec ?p)\<lparr>dword := pad WORD v\<rparr>) = v" by (rule word_in_cstr) (simp add: v)
  ultimately show ?thesis
    by (intro client_made[OF assms(1) do_ask[OF p refl]]) (simp_all add: asker_of_def)
qed

lemma spec_made:
  assumes "dict_spec dict (dict_abs st) b" and "between st"
  shows "\<exists>t. steps st t \<and> between t \<and> dict_abs t = b"
  using assms(1)
proof (cases rule: dict_spec.cases)
  case (serve c w)
  then show ?thesis using serve_made[OF assms(2), of c w] by simp
next
  case (look c w)
  then show ?thesis using look_made[OF assms(2), of c w] by simp
next
  case (copy c w)
  then show ?thesis using copy_made[OF assms(2), of c w] by simp
next
  case (ask c w r v)
  then show ?thesis using ask_made[OF assms(2), of c w r v] by simp
qed

end

sublocale dict_server \<subseteq> exactly: realising "shm_step lookup" "\<lambda>st. tidy inv st \<and> excl dict st" "dict_spec dict" dict_abs between
  by unfold_locales (rule spec_made)

section \<open>The program is the abstract dictionary\<close>



end
