(* ===== verification/ShmLive.thy ===== *)
theory ShmLive
  imports ShmProps
begin

text \<open>
  The shared-memory dictionary of SP_HW12 finishes its requests: a request takes at most ten steps of its
  client and the server, whatever the other processes do, and when nothing can move any more every client
  has its result and the server waits for the next request.
\<close>

section \<open>What is left to do\<close>

fun client_left :: "client_pc \<Rightarrow> nat" where
  "client_left Idle = 10"
| "client_left Grabbed = 9"
| "client_left Written = 8"
| "client_left Alerted = 4"
| "client_left Served = 3"
| "client_left Released = 2"
| "client_left Copying = 1"
| "client_left (Done q) = 0"
| "client_left Gone = 0"

definition server_left :: "'s shm_state \<Rightarrow> nat" where
  "server_left st = (case srv_pc st of Waiting \<Rightarrow> 3 * sem1 st div 2 | Looking \<Rightarrow> sem1 st + 1 | Notifying \<Rightarrow> sem1 st)"

definition shm_left :: "nat set \<Rightarrow> 's shm_state \<Rightarrow> nat" where
  "shm_left cs st = (\<Sum>c\<in>cs. client_left (c_pc (clients st c))) + server_left st"

lemma server_left_frame [simp]:
  "server_left (set_client c p st) = server_left st" "server_left (st\<lparr>sem0 := k\<rparr>) = server_left st"
  "server_left (st\<lparr>shm := r\<rparr>) = server_left st"
  by (simp_all add: server_left_def cong: server_pc.case_cong)

lemma client_left_le: "client_left pc \<le> 10"
  by (cases pc) simp_all

lemma client_left_finished [simp]: "client_left pc = 0 \<longleftrightarrow> finished pc"
  by (cases pc) simp_all

lemma shm_left_client:
  assumes "finite cs" and "c \<in> cs" and "clients st' = (clients st)(c := p)"
    and "client_left (c_pc p) + server_left st' < client_left (c_pc (clients st c)) + server_left st"
  shows "shm_left cs st' < shm_left cs st"
proof -
  have "(\<Sum>d\<in>cs - {c}. client_left (c_pc (clients st' d))) = (\<Sum>d\<in>cs - {c}. client_left (c_pc (clients st d)))"
    by (rule sum.cong) (simp_all add: assms(3))
  then show ?thesis using assms(3,4) by (simp add: shm_left_def sum.remove[OF assms(1,2)])
qed

lemma shm_left_server:
  "clients st' = clients st \<Longrightarrow> server_left st' < server_left st \<Longrightarrow> shm_left cs st' < shm_left cs st"
  by (simp add: shm_left_def)

text \<open>The invariant: at most the clients of \<open>cs\<close> take part.\<close>

definition taking_part :: "nat set \<Rightarrow> 's shm_state \<Rightarrow> bool" where
  "taking_part cs st \<longleftrightarrow> finite cs \<and> (\<forall>c. c \<notin> cs \<longrightarrow> c_pc (clients st c) = Gone)"

lemma taking_part_member: "taking_part cs st \<Longrightarrow> c_pc (clients st c) \<noteq> Gone \<Longrightarrow> finite cs \<and> c \<in> cs"
  by (auto simp: taking_part_def)

lemma taking_part_step: "shm_step lookup st st' \<Longrightarrow> taking_part cs st \<Longrightarrow> taking_part cs st'"
  by (erule shm_stepE) (auto simp: taking_part_def)


text \<open>Everybody has finished, and the server is ready.\<close>

definition all_served :: "'s shm_state \<Rightarrow> bool" where
  "all_served st \<longleftrightarrow> (\<forall>c. finished (c_pc (clients st c))) \<and> sem0 st = 1 \<and> sem1 st = 0 \<and> srv_pc st = Waiting"

context dict_server
begin

definition serving_inv :: "nat set \<Rightarrow> 's shm_state \<Rightarrow> bool" where
  "serving_inv cs st \<longleftrightarrow> tidy inv st \<and> excl dict st \<and> taking_part cs st"

lemma serving_inv_step: "shm_step lookup st st' \<Longrightarrow> serving_inv cs st \<Longrightarrow> serving_inv cs st'"
  using tidy_step excl_step taking_part_step by (metis serving_inv_def)

lemma not_crit_finished: "finished pc \<Longrightarrow> \<not> crit pc"
  by (cases pc) simp_all

lemma server_left_bound:
  assumes "excl dict st"
  shows "server_left st = 0 \<or> (\<exists>c. c_pc (clients st c) = Alerted \<and> server_left st \<le> 3)"
proof (cases "srv_pc st \<noteq> Waiting \<or> 1 \<le> sem1 st")
  case True
  obtain c where "c_pc (clients st c) = Alerted" "phase dict st (clients st c)" by (rule excl_busy[OF assms True])
  then show ?thesis by (intro disjI2 exI[of _ c]) (auto simp: phase_def server_left_def)
qed (auto simp: server_left_def)

lemma serving_lessens:
  assumes "serving lookup st st'" and "serving_inv cs st"
  shows "shm_left cs st' < shm_left cs st"
proof -
  have inv: "excl dict st" "taking_part cs st" using assms(2) by (simp_all add: serving_inv_def)
  note ph = excl_crit(2)[OF inv(1)]
  from assms(1) have step: "shm_step lookup st st'"
    and same: "\<And>c. finished (c_pc (clients st c)) \<Longrightarrow> clients st' c = clients st c"
    by (simp_all add: serving_def)
  note client = shm_left_client[of cs _ st' st]
  note member = taking_part_member[OF inv(2)]
  show ?thesis
    using step
  proof (cases rule: shm_step.cases)
    case (do_grab c p)
    then show ?thesis using member[of c] by (intro client[of c]) auto
  next
    case (do_write c p w b)
    then show ?thesis using member[of c] by (intro client[of c]) auto
  next
    case (do_alert c p)
    then have "sem1 st = 0" "srv_pc st = Waiting" using ph[of c] by (auto simp: phase_def)
    then show ?thesis using do_alert member[of c] by (intro client[of c]) (auto simp: server_left_def)
  next
    case (do_await c p)
    then show ?thesis using member[of c] by (intro client[of c]) auto
  next
    case (do_release c p)
    then show ?thesis using member[of c] by (intro client[of c]) auto
  next
    case (do_check c p t)
    then show ?thesis using member[of c] by (intro client[of c]) auto
  next
    case (do_copy c p t b)
    then show ?thesis using member[of c] by (intro client[of c]) auto
  next
    case (do_ask c q p word)
    then have "c_pc (clients st' c) = c_pc (clients st c)" using same[of c] by simp
    then show ?thesis using do_ask by simp
  next
    case srv_wait
    then obtain c where "phase dict st (clients st c)" "c_pc (clients st c) = Alerted"
      using excl_busy[OF inv(1)] by metis
    then have "sem1 st = 2" using srv_wait by (auto simp: phase_def)
    then show ?thesis using srv_wait by (intro shm_left_server) (auto simp: server_left_def)
  next
    case (srv_look sh l)
    then show ?thesis by (intro shm_left_server) (auto simp: server_left_def)
  next
    case srv_notify
    then obtain c where "phase dict st (clients st c)" "c_pc (clients st c) = Alerted"
      using excl_busy[OF inv(1)] by (metis server_pc.distinct(3))
    then have "sem1 st = 1" using srv_notify by (auto simp: phase_def)
    then show ?thesis using srv_notify by (intro shm_left_server) (auto simp: server_left_def)
  qed
qed

lemma serving_rests:
  assumes "serving_inv cs st" and "stopped (serving lookup) st"
  shows "all_served st"
proof -
  have inv: "tidy inv st" "excl dict st" using assms(1) by (simp_all add: serving_inv_def)
  have f: "finished (c_pc (clients st c))" for c
    using shm_progress[OF inv, of c] assms(2) by (auto simp: stopped_def)
  then have "sem0 st = 1 \<and> sem1 st = 0 \<and> srv_pc st = Waiting"
    using inv(2) phase_crit not_crit_finished unfolding excl_def by metis
  then show ?thesis using f by (simp add: all_served_def)
qed

lemma shm_left_le:
  assumes "serving_inv cs st"
  shows "shm_left cs st \<le> 10 * card cs"
proof -
  have inv: "excl dict st" "finite cs" "taking_part cs st" using assms by (auto simp: serving_inv_def taking_part_def)
  have each: "client_left (c_pc (clients st c)) \<le> 10" for c by (rule client_left_le)
  from server_left_bound[OF inv(1)] show ?thesis
  proof (elim disjE exE conjE)
    assume "server_left st = 0"
    then show ?thesis using sum_bounded_above[of cs "\<lambda>c. client_left (c_pc (clients st c))" 10] each
      by (simp add: shm_left_def)
  next
    fix c assume c: "c_pc (clients st c) = Alerted" "server_left st \<le> 3"
    then have m: "c \<in> cs" using taking_part_member[OF inv(3)] by auto
    have "(\<Sum>d\<in>cs - {c}. client_left (c_pc (clients st d))) \<le> 10 * card (cs - {c})"
      using sum_bounded_above[of "cs - {c}" "\<lambda>c. client_left (c_pc (clients st c))" 10] each by (simp add: mult.commute)
    moreover have "card cs = Suc (card (cs - {c}))" using card.remove[OF inv(2) m] .
    ultimately show ?thesis using c sum.remove[OF inv(2) m, of "\<lambda>c. client_left (c_pc (clients st c))"]
      by (simp add: shm_left_def)
  qed
qed

end

sublocale dict_server \<subseteq> requests: guarded "serving lookup" "serving_inv cs" "shm_left cs" all_served for cs
  by unfold_locales (auto simp: serving_def intro: serving_inv_step serving_lessens[unfolded serving_def] serving_rests)

section \<open>Every request is finished\<close>



end
