(* ===== verification/ShmMain.thy ===== *)
theory ShmMain
  imports ShmLive DictMain
begin

text \<open>
  SP_HW12 as whole programs: any number of processes that run main.c with lookup6.c, the steps of
  \<open>lookup6\<close> and of shm_server.c those of \<open>shm_step\<close>; and the theorem that one such program alone prints
  what the local program prints.
\<close>

section \<open>The programs\<close>

text \<open>A program: at \<open>fgets\<close>, in \<open>lookup\<close>, or at its end.\<close>

datatype main_pc = At_prompt | In_lookup | Ended "unit outcome"

record 's mains =
  sys :: "'s shm_state"
  main_at :: "nat \<Rightarrow> main_pc"
  inputs :: "nat \<Rightarrow> string"
  screens :: "nat \<Rightarrow> string"


text \<open>The end of a program, with the adjustments of the kernel to the semaphores (\<open>SEM_UNDO\<close>).\<close>

definition main_exits :: "nat \<Rightarrow> unit outcome \<Rightarrow> 's mains \<Rightarrow> 's mains" where
  "main_exits c e m = (let st = sys m; p = clients st c in
     m\<lparr>sys := set_client c (p\<lparr>c_pc := Gone\<rparr>)
          (st\<lparr>sem0 := nat (int (sem0 st) + c_undo0 p), sem1 := nat (int (sem1 st) + c_undo1 p)\<rparr>),
       main_at := (main_at m)(c := Ended e)\<rparr>)"

inductive main_step :: "(dictrec \<Rightarrow> (int \<times> dictrec, 's) cmd) \<Rightarrow> 's mains \<Rightarrow> 's mains \<Rightarrow> bool" for lookup where
  m_ask: "main_at m c = At_prompt \<Longrightarrow> fgets WORD (inputs m c) = Some (got, rest) \<Longrightarrow> p = clients (sys m) c \<Longrightarrow>
    chop (fill (dword (c_rec p)) got) = Ok word \<Longrightarrow>
    main_step lookup m (m\<lparr>sys := set_client c (p\<lparr>c_pc := Idle, c_rec := (c_rec p)\<lparr>dword := word\<rparr>\<rparr>) (sys m),
      main_at := (main_at m)(c := In_lookup), inputs := (inputs m)(c := rest)\<rparr>)"
| m_chop_fails: "main_at m c = At_prompt \<Longrightarrow> fgets WORD (inputs m c) = Some (got, rest) \<Longrightarrow>
    chop (fill (dword (c_rec (clients (sys m) c))) got) = e \<Longrightarrow> (\<And>word. e \<noteq> Ok word) \<Longrightarrow>
    main_step lookup m (main_exits c (obind e (\<lambda>_. Ok ())) m)"
| m_end: "main_at m c = At_prompt \<Longrightarrow> fgets WORD (inputs m c) = None \<Longrightarrow>
    main_step lookup m (main_exits c (Exit 0) m)"
| m_run: "serving lookup (sys m) st \<Longrightarrow> main_step lookup m (m\<lparr>sys := st\<rparr>)"
| m_show: "main_at m c = In_lookup \<Longrightarrow> c_pc (clients (sys m) c) = Done q \<Longrightarrow>
    show_answer q (c_rec (clients (sys m) c)) = Ok line \<Longrightarrow>
    main_step lookup m (m\<lparr>main_at := (main_at m)(c := At_prompt), screens := (screens m)(c := screens m c @ line)\<rparr>)"
| m_show_fails: "main_at m c = In_lookup \<Longrightarrow> c_pc (clients (sys m) c) = Done q \<Longrightarrow>
    show_answer q (c_rec (clients (sys m) c)) = e \<Longrightarrow> (\<And>line. e \<noteq> Ok line) \<Longrightarrow>
    main_step lookup m (main_exits c (obind e (\<lambda>_. Ok ())) m)"

section \<open>The adjustments\<close>

definition undo_ok :: "'s shm_state \<Rightarrow> bool" where
  "undo_ok st \<longleftrightarrow> (\<forall>c. c_undo0 (clients st c) = (if crit (c_pc (clients st c)) then 1 else 0) \<and> c_undo1 (clients st c) \<le> 0)"

lemma undo_okD: "undo_ok st \<Longrightarrow> \<not> crit (c_pc (clients st c)) \<Longrightarrow> c_undo0 (clients st c) = 0 \<and> c_undo1 (clients st c) \<le> 0"
  by (simp add: undo_ok_def)

lemma undo_ok_step: "shm_step lookup st st' \<Longrightarrow> undo_ok st \<Longrightarrow> undo_ok st'"
  by (erule shm_stepE) (auto simp: undo_ok_def intro: order_trans[of _ "0::int" 2])

lemma serving_keeps_word:
  assumes "serving lookup st st'"
  shows "dword (c_rec (clients st' c)) = dword (c_rec (clients st c))"
    and "c_pc (clients st' c) = Gone \<longleftrightarrow> c_pc (clients st c) = Gone"
proof -
  have step: "shm_step lookup st st'" and same: "\<And>c. finished (c_pc (clients st c)) \<Longrightarrow> clients st' c = clients st c"
    using assms by (simp_all add: serving_def)
  have "dword (c_rec (clients st' c)) = dword (c_rec (clients st c)) \<and>
      (c_pc (clients st' c) = Gone \<longleftrightarrow> c_pc (clients st c) = Gone)"
    using step
  proof cases
    case (do_ask d q p word)
    then have "clients st' d = clients st d" using same[of d] by simp
    then show ?thesis using do_ask by (cases "c = d") simp_all
  qed simp_all
  then show "dword (c_rec (clients st' c)) = dword (c_rec (clients st c))"
    and "c_pc (clients st' c) = Gone \<longleftrightarrow> c_pc (clients st c) = Gone" by blast+
qed

section \<open>One program alone\<close>

text \<open>Only program \<open>c\<close> runs.\<close>

definition alone :: "nat \<Rightarrow> 's mains \<Rightarrow> bool" where
  "alone c m \<longleftrightarrow> (\<forall>d. d \<noteq> c \<longrightarrow> c_pc (clients (sys m) d) = Gone \<and> main_at m d \<noteq> At_prompt \<and> main_at m d \<noteq> In_lookup)"

lemma alone_at: "alone c m \<Longrightarrow> main_at m d = At_prompt \<or> main_at m d = In_lookup \<Longrightarrow> d = c"
  by (auto simp: alone_def)

lemma alone_exits: "alone c m \<Longrightarrow> alone c (main_exits c e m)"
  by (simp add: alone_def main_exits_def Let_def)

text \<open>Between two requests the word of program \<open>c\<close> may be anything of the right size.\<close>

definition tidy_but :: "('s \<Rightarrow> bool) \<Rightarrow> nat \<Rightarrow> 's shm_state \<Rightarrow> bool" where
  "tidy_but ok c st \<longleftrightarrow> sized (shm st) \<and> NUL \<in> set (dtext (shm st)) \<and> ok (srv_lookup st) \<and>
     (\<forall>d. sized (c_rec (clients st d)) \<and> (d \<noteq> c \<longrightarrow> NUL \<in> set (dword (c_rec (clients st d)))))"

lemma tidy_but_tidy: "tidy ok st \<Longrightarrow> tidy_but ok c st"
  by (simp add: tidy_but_def tidy_def)

definition answers_of :: "(string \<Rightarrow> string option) \<Rightarrow> string \<Rightarrow> string" where
  "answers_of dict inp = concat (map (answer_line (remote_dict dict)) (queries inp))"

lemma answers_of_end: "fgets WORD inp = None \<Longrightarrow> answers_of dict inp = []"
  by (simp add: answers_of_def queries.simps[of inp])

lemma answers_of_line:
  "fgets WORD inp = Some (got, rest) \<Longrightarrow> answers_of dict inp = answer_line (remote_dict dict) (butlast got) @ answers_of dict rest"
  by (simp add: answers_of_def queries.simps[of inp])

definition session_inv :: "('s \<Rightarrow> bool) \<Rightarrow> (string \<Rightarrow> string option) \<Rightarrow> nat \<Rightarrow> string \<Rightarrow> 's mains \<Rightarrow> bool" where
  "session_inv ok dict c whole m \<longleftrightarrow> alone c m \<and> undo_ok (sys m) \<and> nul_free (inputs m c) \<and>
     (case main_at m c of
        At_prompt \<Rightarrow> all_served (sys m) \<and> tidy_but ok c (sys m) \<and> screens m c @ answers_of dict (inputs m c) = whole
      | In_lookup \<Rightarrow> tidy ok (sys m) \<and> excl dict (sys m) \<and> alone_ok dict (sys m) \<and> c_pc (clients (sys m) c) \<noteq> Gone \<and>
          screens m c @ answer_line (remote_dict dict) (word_in (c_rec (clients (sys m) c))) @ answers_of dict (inputs m c) = whole
      | Ended e \<Rightarrow> all_served (sys m) \<and> e = Exit 0 \<and> screens m c = whole)"

definition session_left :: "nat \<Rightarrow> 's mains \<Rightarrow> nat" where
  "session_left c m = 12 * length (queries (inputs m c)) +
     (case main_at m c of At_prompt \<Rightarrow> 1 | In_lookup \<Rightarrow> 2 + shm_left {c} (sys m) | Ended e \<Rightarrow> 0)"

definition session_end :: "nat \<Rightarrow> string \<Rightarrow> 's mains \<Rightarrow> bool" where
  "session_end c whole m \<longleftrightarrow> main_at m c = Ended (Exit 0) \<and> screens m c = whole \<and> all_served (sys m)"

text \<open>The steps of the server and of \<open>lookup\<close> are steps of a request.\<close>

lemma all_served_stopped:
  assumes "all_served st"
  shows "\<not> serving lookup st st'"
proof
  assume "serving lookup st st'"
  then have step: "shm_step lookup st st'" and same: "clients st' c = clients st c" for c
    using assms by (auto simp: serving_def all_served_def)
  have no: "c_pc (clients st c) \<noteq> Idle \<and> c_pc (clients st c) \<noteq> Grabbed \<and> c_pc (clients st c) \<noteq> Written \<and>
      c_pc (clients st c) \<noteq> Alerted \<and> c_pc (clients st c) \<noteq> Served \<and> c_pc (clients st c) \<noteq> Released \<and>
      c_pc (clients st c) \<noteq> Copying" for c
    using assms by (auto simp: all_served_def dest: spec[of _ c])
  show False using step
  proof cases
    case (do_ask c q p word)
    then show False using arg_cong[OF same[of c], of c_pc] by simp
  qed (use assms no in \<open>simp_all add: all_served_def\<close>)
qed

context dict_server
begin

lemma alone_ok_asked:
  "c_pc p = Idle \<Longrightarrow> alone_ok dict (set_client c p st)"
  unfolding alone_ok_def by (auto simp: settled_def)

lemma asked_inv:
  assumes "session_inv inv dict c whole m" and "main_at m c = At_prompt" and "fgets WORD (inputs m c) = Some (got, rest)"
  obtains word where "chop (fill (dword (c_rec (clients (sys m) c))) got) = Ok word"
    and "tidy inv (set_client c ((clients (sys m) c)\<lparr>c_pc := Idle, c_rec := (c_rec (clients (sys m) c))\<lparr>dword := word\<rparr>\<rparr>) (sys m))"
    and "excl dict (set_client c ((clients (sys m) c)\<lparr>c_pc := Idle, c_rec := (c_rec (clients (sys m) c))\<lparr>dword := word\<rparr>\<rparr>) (sys m))"
    and "word_in ((c_rec (clients (sys m) c))\<lparr>dword := word\<rparr>) = butlast got" and "nul_free rest"
proof -
  let ?p = "clients (sys m) c"
  have i: "all_served (sys m)" "tidy_but inv c (sys m)" "nul_free (inputs m c)"
    using assms(1,2) by (simp_all add: session_inv_def)
  have r: "sized (c_rec ?p)" using i(2) by (simp add: tidy_but_def)
  have sp: "inputs m c = got @ rest" using fgets_split[OF assms(3)] .
  have "length rest < length (inputs m c)" using fgets_shorter[OF assms(3)] by (simp add: WORD_def)
  then have got: "got \<noteq> []" "nul_free got" "nul_free rest" using sp i(3) by (auto simp: nul_free_def)
  have len: "length got < length (dword (c_rec ?p))" using fgets_bound[OF assms(3)] r by (simp add: sized_def WORD_def)
  obtain word where w: "chop (fill (dword (c_rec ?p)) got) = Ok word" "cstr word = Ok (butlast got)"
      "length word = length (dword (c_rec ?p))"
    using chop_fill[OF got(2,1) len] by blast
  have n: "NUL \<in> set word" using w(2) by (auto simp: cstr_def split: if_splits)
  have "tidy inv (set_client c (?p\<lparr>c_pc := Idle, c_rec := (c_rec ?p)\<lparr>dword := word\<rparr>\<rparr>) (sys m))"
    using i(2) n r w(3) by (auto simp: tidy_but_def tidy_def sized_def)
  moreover have "\<not> crit (c_pc (clients (sys m) d))" for d
    using i(1) not_crit_finished by (simp add: all_served_def)
  then have "excl dict (set_client c (?p\<lparr>c_pc := Idle, c_rec := (c_rec ?p)\<lparr>dword := word\<rparr>\<rparr>) (sys m))"
    using i(1) by (auto simp: excl_def all_served_def)
  moreover have "word_in ((c_rec ?p)\<lparr>dword := word\<rparr>) = butlast got"
    using w(2) by (simp add: word_in_def cstr_def split: if_splits)
  ultimately show ?thesis using that w(1) got(3) by blast
qed

text \<open>A request that is over: the answer is the dictionary's, and the server waits.\<close>

lemma done_inv:
  assumes "session_inv inv dict c whole m" and "main_at m c = In_lookup" and "c_pc (clients (sys m) c) = Done q"
  shows "all_served (sys m)"
    and "show_answer q (c_rec (clients (sys m) c)) = Ok (answer_line (remote_dict dict) (word_in (c_rec (clients (sys m) c))))"
proof -
  let ?st = "sys m" and ?r = "c_rec (clients (sys m) c)"
  have i: "tidy inv ?st" "excl dict ?st" "alone_ok dict ?st" "alone c m" using assms(1,2) by (simp_all add: session_inv_def)
  have g: "c_pc (clients ?st d) = Gone" if "d \<noteq> c" for d using i(4) that by (simp add: alone_def)
  have f: "finished (c_pc (clients ?st d))" for d using g[of d] assms(3) by (cases "d = c") auto
  have "\<not> crit (c_pc (clients ?st d))" for d using not_crit_finished[OF f] .
  then have "sem0 ?st = 1 \<and> sem1 ?st = 0 \<and> srv_pc ?st = Waiting" using i(2) phase_crit unfolding excl_def by blast
  then show "all_served ?st" using f by (simp add: all_served_def)
  have w: "cstr (dword ?r) = Ok (word_in ?r)" using i(1) by (simp add: tidy_def cstr_word_in)
  have "settled dict ?st (clients ?st c) (word_in ?r)" by (rule alone_okD[OF i(3) g w])
  then show "show_answer q ?r = Ok (answer_line (remote_dict dict) (word_in ?r))"
    using assms(3) w
    by (auto simp: settled_def show_answer_def answer_line_def FOUND_def NOTFOUND_def split: option.splits)
qed

lemma session_keeps:
  assumes "main_step lookup m m'" and "session_inv inv dict c whole m"
  shows "session_inv inv dict c whole m'"
proof -
  have al: "alone c m" and u: "undo_ok (sys m)" using assms(2) by (simp_all add: session_inv_def)
  note here = alone_at[OF al]
  show ?thesis using assms(1)
  proof cases
    case (m_ask d got rest p word)
    have d: "d = c" using here m_ask(2) by blast
    note a = m_ask[unfolded d]
    obtain v where v: "chop (fill (dword (c_rec p)) got) = Ok v"
      "tidy inv (set_client c (p\<lparr>c_pc := Idle, c_rec := (c_rec p)\<lparr>dword := v\<rparr>\<rparr>) (sys m))"
      "excl dict (set_client c (p\<lparr>c_pc := Idle, c_rec := (c_rec p)\<lparr>dword := v\<rparr>\<rparr>) (sys m))"
      "word_in ((c_rec p)\<lparr>dword := v\<rparr>) = butlast got" "nul_free rest"
      unfolding a(4) by (rule asked_inv[OF assms(2) a(2,3)])
    have "v = word" using v(1) a(5) by simp
    have f: "\<not> crit (c_pc p)" "screens m c @ answers_of dict (inputs m c) = whole"
      using assms(2) a(2,4) not_crit_finished by (simp_all add: session_inv_def all_served_def)
    have "undo_ok (sys m')" using undo_okD[OF u, of c] u f(1) a(1,4) by (simp add: undo_ok_def)
    moreover have "alone c m'" using al by (simp add: a(1) alone_def)
    ultimately show ?thesis
      using v f(2) \<open>v = word\<close> answers_of_line[OF a(3), of dict] by (simp add: session_inv_def a(1) alone_ok_asked)
  next
    case (m_chop_fails d got rest e)
    have d: "d = c" using here m_chop_fails(2) by blast
    show ?thesis using asked_inv[OF assms(2), of got rest] m_chop_fails(2-5) d by metis
  next
    case (m_end d)
    have d: "d = c" using here m_end(2) by blast
    have i: "all_served (sys m)" "screens m c @ answers_of dict (inputs m c) = whole"
      using assms(2) m_end(2) d by (simp_all add: session_inv_def)
    have "c_undo0 (clients (sys m) c) = 0 \<and> c_undo1 (clients (sys m) c) \<le> 0"
      using undo_okD[OF u, of c] i(1) not_crit_finished by (simp add: all_served_def)
    then have "all_served (sys m') \<and> undo_ok (sys m')"
      using i(1) u by (simp add: m_end(1) d main_exits_def Let_def all_served_def undo_ok_def)
    then show ?thesis
      using alone_exits[OF al] i(2) assms(2) answers_of_end[of "inputs m c" dict] m_end d
      by (simp add: session_inv_def main_exits_def Let_def)
  next
    case (m_run st)
    have step: "shm_step lookup (sys m) st" using m_run(2) by (simp add: serving_def)
    note same = serving_keeps_word[OF m_run(2)]
    have st: "\<not> all_served (sys m)" using all_served_stopped m_run(2) by blast
    then have at: "main_at m c = In_lookup" using assms(2) by (auto simp: session_inv_def split: main_pc.splits)
    have i: "tidy inv (sys m)" "excl dict (sys m)" "alone_ok dict (sys m)" using assms(2) at by (simp_all add: session_inv_def)
    have "word_in (c_rec (clients st c)) = word_in (c_rec (clients (sys m) c))" using same(1) by (simp add: word_in_def)
    moreover have "alone c m'" using al same(2) by (simp add: alone_def m_run(1))
    ultimately show ?thesis
      using assms(2) at undo_ok_step[OF step u] tidy_step[OF step i(1,2)] excl_step[OF step i(1,2)] alone_step[OF step i(2,3)] same(2)
      by (simp add: session_inv_def m_run(1))
  next
    case (m_show d q line)
    have d: "d = c" using here m_show(2) by blast
    note dn = done_inv[OF assms(2), of q]
    have "alone c m'" using al d by (simp add: m_show(1) alone_def)
    then show ?thesis using assms(2) m_show dn d tidy_but_tidy[of inv "sys m" c] by (simp add: session_inv_def)
  next
    case (m_show_fails d q e)
    have d: "d = c" using here m_show_fails(2) by blast
    then show ?thesis using done_inv(2)[OF assms(2), of q] m_show_fails by metis
  qed
qed

lemma session_serving:
  "session_inv inv dict c whole m \<Longrightarrow> main_at m c = In_lookup \<Longrightarrow> serving_inv {c} (sys m)"
  by (simp add: session_inv_def serving_inv_def taking_part_def alone_def)

lemma session_lessens:
  assumes "main_step lookup m m'" and "session_inv inv dict c whole m"
  shows "session_left c m' < session_left c m"
proof -
  have al: "alone c m" using assms(2) by (simp add: session_inv_def)
  note here = alone_at[OF al]
  show ?thesis using assms(1)
  proof cases
    case (m_ask d got rest p word)
    have d: "d = c" using here m_ask(2) by blast
    have "shm_left {c} (sys m') \<le> 10"
      using shm_left_le[OF session_serving[OF session_keeps[OF assms]]] m_ask(1) d by simp
    then show ?thesis
      using m_ask(1,2) queries.simps[of "inputs m c"] m_ask(3) d by (simp add: session_left_def)
  next
    case (m_chop_fails d got rest e)
    then show ?thesis using here[of d] by (simp add: session_left_def main_exits_def Let_def)
  next
    case (m_end d)
    then show ?thesis using here[of d] by (simp add: session_left_def main_exits_def Let_def)
  next
    case (m_run st)
    have "\<not> all_served (sys m)" using all_served_stopped m_run(2) by blast
    then have at: "main_at m c = In_lookup" using assms(2) by (auto simp: session_inv_def split: main_pc.splits)
    show ?thesis
      using serving_lessens[OF m_run(2) session_serving[OF assms(2) at]] at by (simp add: session_left_def m_run(1))
  next
    case (m_show d q line)
    then show ?thesis using here[of d] by (simp add: session_left_def)
  next
    case (m_show_fails d q e)
    then show ?thesis using here[of d] by (simp add: session_left_def main_exits_def Let_def)
  qed
qed

lemma session_rests:
  assumes "session_inv inv dict c whole m" and "stopped (main_step lookup) m"
  shows "session_end c whole m"
proof (cases "main_at m c")
  case At_prompt
  have "\<exists>m'. main_step lookup m m'"
  proof (cases "fgets WORD (inputs m c)")
    case None
    then show ?thesis using m_end[OF At_prompt, of lookup] by blast
  next
    case (Some line)
    then obtain got rest where f: "fgets WORD (inputs m c) = Some (got, rest)" by (cases line) auto
    then show ?thesis using asked_inv[OF assms(1) At_prompt f] m_ask[OF At_prompt f refl, of _ lookup] by metis
  qed
  then show ?thesis using assms(2) by (auto simp: stopped_def)
next
  case In_lookup
  have i: "tidy inv (sys m)" "excl dict (sys m)" "c_pc (clients (sys m) c) \<noteq> Gone"
    using assms(1) In_lookup by (simp_all add: session_inv_def)
  have "\<exists>m'. main_step lookup m m'"
  proof (cases "finished (c_pc (clients (sys m) c))")
    case True
    then obtain q where "c_pc (clients (sys m) c) = Done q" using i(3) by (cases "c_pc (clients (sys m) c)") auto
    then show ?thesis using m_show[OF In_lookup _ done_inv(2)[OF assms(1) In_lookup]] by blast
  next
    case False
    then show ?thesis using shm_progress[OF i(1,2)] m_run by blast
  qed
  then show ?thesis using assms(2) by (auto simp: stopped_def)
next
  case (Ended e)
  then show ?thesis using assms(1) by (simp add: session_inv_def session_end_def)
qed

end

sublocale dict_server \<subseteq> sessions: guarded "main_step lookup" "session_inv inv dict c whole" "session_left c" "session_end c whole"
  for c whole
  by unfold_locales (auto intro: session_keeps session_lessens session_rests)

section \<open>The program prints what the local program prints\<close>





end
