(* ===== verification/GetNum.thy ===== *)
theory GetNum
  imports CProc
begin

text \<open>
  The helper functions of SP_HW8/44_6: error_functions.c (messages on standard error, and the
  functions that then exit) and get_num.c (command-line numbers).  The table \<open>ename\<close> of
  ename.c.inc is generated by Build_ename.sh and is a parameter here, with its last index
  \<open>MAX_ENAME\<close>.
\<close>

unbundle bit_operations_syntax

section \<open>Error messages\<close>

definition BUF_SIZE :: nat where "BUF_SIZE = 1024"

text \<open>What \<open>snprintf (buf, n, ...)\<close> leaves in \<open>buf\<close> of the formatted string.\<close>

definition snprintf :: "nat \<Rightarrow> string \<Rightarrow> string" where
  "snprintf n str = take (n - 1) str"

record enames =
  ename :: "int \<Rightarrow> string"
  MAX_ENAME :: int

text \<open>
  With a nonempty EF_DUMPCORE in the environment the process aborts (SIGABRT, 6); \<open>exit\<close> and
  \<open>_exit\<close>, between which \<open>useExit3\<close> chooses, give the same status.
\<close>

definition dumps_core :: "os \<Rightarrow> bool" where
  "dumps_core os \<longleftrightarrow> (case os_getenv os ''EF_DUMPCORE'' of None \<Rightarrow> False | Some s \<Rightarrow> s \<noteq> [])"

definition terminate :: "os \<Rightarrow> bool \<Rightarrow> ('a, proc) cmd" where
  "terminate os useExit3 = (if dumps_core os then killedc 6 else if useExit3 then exitc 1 else exitc 1)"

definition error_text :: "enames \<Rightarrow> os \<Rightarrow> bool \<Rightarrow> int \<Rightarrow> string \<Rightarrow> string" where
  "error_text en os useErr err msg =
     (let userMsg = snprintf BUF_SIZE msg;
          errText = (if useErr
            then snprintf BUF_SIZE ('' ['' @ (if err > 0 \<and> err \<le> MAX_ENAME en then ename en err else ''?UNKNOWN?'')
                   @ '' '' @ os_strerror os err @ '']'')
            else snprintf BUF_SIZE '':'')
      in snprintf BUF_SIZE (''ERROR'' @ errText @ '' '' @ userMsg @ [newline]))"

definition outputError :: "enames \<Rightarrow> os \<Rightarrow> bool \<Rightarrow> int \<Rightarrow> string \<Rightarrow> (unit, proc) cmd" where
  "outputError en os useErr err msg = eprintf (error_text en os useErr err msg)"

definition errMsg :: "enames \<Rightarrow> os \<Rightarrow> string \<Rightarrow> (unit, proc) cmd" where
  "errMsg en os msg s = outputError en os True (perrno s) msg s"

definition errExit :: "enames \<Rightarrow> os \<Rightarrow> string \<Rightarrow> ('a, proc) cmd" where
  "errExit en os msg s = seqc (outputError en os True (perrno s) msg) (terminate os True) s"

text \<open>\<open>err_exit\<close> ends with \<open>_exit\<close> and leaves pending output unflushed, which has no counterpart here.\<close>

definition err_exit :: "enames \<Rightarrow> os \<Rightarrow> string \<Rightarrow> ('a, proc) cmd" where
  "err_exit en os msg s = seqc (outputError en os True (perrno s) msg) (terminate os False) s"

definition errExitEN :: "enames \<Rightarrow> os \<Rightarrow> int \<Rightarrow> string \<Rightarrow> ('a, proc) cmd" where
  "errExitEN en os errnum msg = seqc (outputError en os True errnum msg) (terminate os True)"

definition fatal :: "enames \<Rightarrow> os \<Rightarrow> string \<Rightarrow> ('a, proc) cmd" where
  "fatal en os msg = seqc (outputError en os False 0 msg) (terminate os True)"

definition usageErr :: "string \<Rightarrow> ('a, proc) cmd" where
  "usageErr msg = seqc (eprintf ''Usage: '') (seqc (eprintf msg) (exitc 1))"

definition cmdLineErr :: "string \<Rightarrow> ('a, proc) cmd" where
  "cmdLineErr msg = seqc (eprintf ''Command-line usage error: '') (seqc (eprintf msg) (exitc 1))"

lemma error_exits [simp]:
  "fst (errExit en os msg s) = (if dumps_core os then Killed 6 else Exit 1)"
  "fst (err_exit en os msg s) = (if dumps_core os then Killed 6 else Exit 1)"
  "fst (errExitEN en os n msg s) = (if dumps_core os then Killed 6 else Exit 1)"
  "fst (fatal en os msg s) = (if dumps_core os then Killed 6 else Exit 1)"
  "fst (usageErr msg s) = Exit 1" "fst (cmdLineErr msg s) = Exit 1"
  by (simp_all add: errExit_def err_exit_def errExitEN_def fatal_def usageErr_def cmdLineErr_def outputError_def terminate_def)

lemma error_text_length: "length (error_text en os u err msg) < BUF_SIZE"
  by (auto simp: error_text_def snprintf_def BUF_SIZE_def Let_def min_def)

section \<open>Numbers on the command line\<close>

definition GN_NONNEG :: int where "GN_NONNEG = 1"
definition GN_GT_0 :: int where "GN_GT_0 = 2"
definition GN_ANY_BASE :: int where "GN_ANY_BASE = 64"
definition GN_BASE_8 :: int where "GN_BASE_8 = 128"
definition GN_BASE_16 :: int where "GN_BASE_16 = 256"

definition has_flag :: "int \<Rightarrow> int \<Rightarrow> bool" where
  "has_flag flags f \<longleftrightarrow> flags AND f \<noteq> 0"

text \<open>An argument is a null pointer or a string; \<open>name\<close> likewise.\<close>

definition gnFail :: "string \<Rightarrow> string \<Rightarrow> string option \<Rightarrow> string option \<Rightarrow> ('a, proc) cmd" where
  "gnFail fname msg arg name =
     seqc (eprintf (fname @ '' error''))
     (seqc (case name of Some n \<Rightarrow> eprintf ('' (in '' @ n @ '')'') | None \<Rightarrow> ret ())
     (seqc (eprintf ('': '' @ msg @ [newline]))
     (seqc (case arg of Some (c # cs) \<Rightarrow> eprintf (''        offending text: '' @ (c # cs) @ [newline]) | _ \<Rightarrow> ret ())
     (exitc 1))))"

definition gn_base :: "int \<Rightarrow> nat" where
  "gn_base flags = (if has_flag flags GN_ANY_BASE then 0 else if has_flag flags GN_BASE_8 then 8
     else if has_flag flags GN_BASE_16 then 16 else 10)"

definition getNum :: "string \<Rightarrow> string option \<Rightarrow> int \<Rightarrow> string option \<Rightarrow> (int, proc) cmd" where
  "getNum fname arg flags name = (case arg of
       None \<Rightarrow> gnFail fname ''null or empty string'' arg name
     | Some a \<Rightarrow>
         if a = [] then gnFail fname ''null or empty string'' arg name
         else let r = strtol a (gn_base flags) in
           bindc (modifyc (\<lambda>s. s\<lparr>perrno := (if sl_erange r then 34 else 0)\<rparr>)) (\<lambda>_ s.
           (if perrno s \<noteq> 0 then gnFail fname ''strtol() failed'' arg name
            else if sl_end r \<noteq> [] then gnFail fname ''nonnumeric characters'' arg name
            else if has_flag flags GN_NONNEG \<and> sl_value r < 0
              then gnFail fname ''negative value not allowed'' arg name
            else if has_flag flags GN_GT_0 \<and> sl_value r \<le> 0
              then gnFail fname ''value must be > 0'' arg name
            else ret (sl_value r)) s))"

definition getLong :: "string option \<Rightarrow> int \<Rightarrow> string option \<Rightarrow> (int, proc) cmd" where
  "getLong arg flags name = getNum ''getLong'' arg flags name"

definition getInt :: "string option \<Rightarrow> int \<Rightarrow> string option \<Rightarrow> (int, proc) cmd" where
  "getInt arg flags name =
     bindc (getNum ''getInt'' arg flags name) (\<lambda>res.
     if res > INT_MAX \<or> res < INT_MIN then gnFail ''getInt'' ''integer out of range'' arg name
     else ret res)"

section \<open>Properties\<close>

lemma gnFail_exits [simp]: "fst (gnFail fname msg arg name s) = Exit 1"
  by (simp add: gnFail_def seqc_def bindc_def split: option.splits list.splits)

lemma gnFail_not_Ok [simp]: "gnFail fname msg arg name s \<noteq> (Ok a, t)"
  using gnFail_exits[of fname msg arg name s] by (metis fst_conv outcome.distinct(1))

lemma getNum_cases:
  "(fst (getNum fname arg flags name s) = Exit 1) \<or>
   (\<exists>a. arg = Some a \<and> a \<noteq> [] \<and> sl_end (strtol a (gn_base flags)) = [] \<and>
      getNum fname arg flags name s = (Ok (sl_value (strtol a (gn_base flags))), s\<lparr>perrno := 0\<rparr>) \<and>
      (has_flag flags GN_NONNEG \<longrightarrow> 0 \<le> sl_value (strtol a (gn_base flags))) \<and>
      (has_flag flags GN_GT_0 \<longrightarrow> 0 < sl_value (strtol a (gn_base flags))))"
  by (auto simp: getNum_def Let_def split: option.splits)

text \<open>
  \<open>getInt\<close> always either exits with status 1 or returns a number that fits an
  \<open>int\<close>, obeys the sign its flags ask for, and is the value of the whole argument in the base the
  flags select, with no character left over.
\<close>

theorem getInt_sound:
  "case getInt arg flags name s of (r, t) \<Rightarrow>
     r = Exit 1 \<or>
     (\<exists>n a. r = Ok n \<and> arg = Some a \<and> a \<noteq> [] \<and> int_range n \<and>
        sl_value (strtol a (gn_base flags)) = n \<and> sl_end (strtol a (gn_base flags)) = [] \<and>
        (if has_flag flags GN_NONNEG then 0 \<le> n else True) \<and> (if has_flag flags GN_GT_0 then 0 < n else True))"
proof -
  consider "fst (getNum ''getInt'' arg flags name s) = Exit 1"
    | a where "arg = Some a" "a \<noteq> []" "sl_end (strtol a (gn_base flags)) = []"
      "getNum ''getInt'' arg flags name s = (Ok (sl_value (strtol a (gn_base flags))), s\<lparr>perrno := 0\<rparr>)"
      "has_flag flags GN_NONNEG \<longrightarrow> 0 \<le> sl_value (strtol a (gn_base flags))"
      "has_flag flags GN_GT_0 \<longrightarrow> 0 < sl_value (strtol a (gn_base flags))"
    using getNum_cases[of "''getInt''" arg flags name s] by blast
  then show ?thesis
  proof cases
    case 1
    then obtain t where "getNum ''getInt'' arg flags name s = (Exit 1, t)" by (metis prod.collapse)
    then show ?thesis by (simp add: getInt_def)
  next
    case (2 a)
    let ?v = "sl_value (strtol a (gn_base flags))"
    show ?thesis
    proof (cases "?v > INT_MAX \<or> ?v < INT_MIN")
      case True
      then have "fst (getInt arg flags name s) = Exit 1" using 2(4) by (simp add: getInt_def)
      then show ?thesis by (cases "getInt arg flags name s") simp
    next
      case False
      then have "getInt arg flags name s = (Ok ?v, s\<lparr>perrno := 0\<rparr>)" using 2(4) by (simp add: getInt_def)
      then show ?thesis using 2 False by (auto simp: int_range_def)
    qed
  qed
qed

lemma getInt_dec:
  assumes "int_range n" and "gn_base flags = 10"
    and "has_flag flags GN_NONNEG \<Longrightarrow> 0 \<le> n" and "has_flag flags GN_GT_0 \<Longrightarrow> 0 < n"
  shows "getInt (Some (dec n)) flags name s = (Ok n, s\<lparr>perrno := 0\<rparr>)"
proof -
  have "strtol (dec n) 10 = \<lparr>sl_value = n, sl_end = [], sl_erange = False\<rparr>"
    using strtol_dec[of n] assms(1) by (simp add: int_range_def INT_MIN_def INT_MAX_def LONG_MIN_def LONG_MAX_def)
  moreover have "dec n \<noteq> []" using dec_nat_nonempty by (simp add: dec_def)
  ultimately have "getNum ''getInt'' (Some (dec n)) flags name s = (Ok n, s\<lparr>perrno := 0\<rparr>)"
    using assms(2-4) by (auto simp: getNum_def Let_def)
  then show ?thesis using assms(1) by (simp add: getInt_def int_range_def)
qed

text \<open>
  C26: Round trip: the decimal numeral that \<open>printf\<close> writes for an \<open>int\<close> is read back by
  \<open>getInt\<close> in decimal mode as the same number whenever the sign flags allow it, and otherwise
  the program exits with status 1.
\<close>

theorem getInt_roundtrip:
  assumes "int_range n" and "flags \<in> {0, GN_NONNEG, GN_GT_0}"
  shows "fst (getInt (Some (dec n)) flags name s) =
    (if (flags = GN_NONNEG \<and> n < 0) \<or> (flags = GN_GT_0 \<and> n \<le> 0) then Exit 1 else Ok n)"
proof -
  have fl: "gn_base flags = 10" "has_flag flags GN_NONNEG \<longleftrightarrow> flags = GN_NONNEG" "has_flag flags GN_GT_0 \<longleftrightarrow> flags = GN_GT_0"
    using assms(2)
    by (auto simp: gn_base_def has_flag_def GN_NONNEG_def GN_GT_0_def GN_ANY_BASE_def GN_BASE_8_def GN_BASE_16_def)
  show ?thesis
  proof (cases "(flags = GN_NONNEG \<and> n < 0) \<or> (flags = GN_GT_0 \<and> n \<le> 0)")
    case True
    have "sl_value (strtol (dec n) 10) = n"
      using strtol_dec[of n] assms(1) by (simp add: int_range_def INT_MIN_def INT_MAX_def LONG_MIN_def LONG_MAX_def)
    then have "fst (getNum ''getInt'' (Some (dec n)) flags name s) = Exit 1"
      using getNum_cases[of "''getInt''" "Some (dec n)" flags name s] True fl by auto
    then show ?thesis using True
      by (cases "getNum ''getInt'' (Some (dec n)) flags name s") (simp add: getInt_def)
  qed (use getInt_dec[OF assms(1) fl(1), of name s] fl in auto)
qed

theorem getInt_roundtrip_witness:
  "fst (getInt (Some (dec (- 7))) GN_NONNEG None (start_proc [])) = Exit 1
    \<and> fst (getInt (Some (dec 42)) GN_GT_0 None (start_proc [])) = Ok 42"
  using getInt_roundtrip[of "- 7" GN_NONNEG None "start_proc []"] getInt_roundtrip[of 42 GN_GT_0 None "start_proc []"]
  by (simp add: int_range_def INT_MIN_def INT_MAX_def GN_NONNEG_def GN_GT_0_def)

end
