(* ===== verification/SeqNum.thy ===== *)
theory SeqNum
  imports GetNum
begin

text \<open>
  The sequence-number services: SP_HW8/44_6 over FIFOs, SP_HW8/46_2 over a System V message queue,
  and the second half of SP_HW9/52_3 (between the lines of an unresolved merge) over POSIX message
  queues.  A server works on the requests it receives in order; how the reply to each one fares is
  decided by the system and comes with the request.
\<close>

section \<open>Messages and server state\<close>

record request =
  rq_pid :: int
  rq_seqLen :: int

text \<open>
  What happens to a reply: its channel cannot be opened, the write or send fails, or it arrives.
\<close>

datatype delivery = No_channel | Send_fails | Arrives

text \<open>
  The server's \<open>seqNum\<close>, the replies that arrived (the client's pid and the number), and what was
  printed on standard error.
\<close>

record seq_state =
  seqNum :: int
  replies :: "(int \<times> int) list"
  slog :: string

definition seq_init :: seq_state where
  "seq_init = \<lparr>seqNum = 0, replies = [], slog = []\<rparr>"

definition say :: "string \<Rightarrow> (unit, seq_state) cmd" where
  "say msg = modifyc (\<lambda>s. s\<lparr>slog := slog s @ msg\<rparr>)"

text \<open>\<open>seqNum += req.seqLen\<close>, a signed addition.\<close>

definition advance :: "request \<Rightarrow> (unit, seq_state) cmd" where
  "advance req s = (case int_add (seqNum s) (rq_seqLen req) of
       Ok n \<Rightarrow> (Ok (), s\<lparr>seqNum := n\<rparr>)
     | e \<Rightarrow> (obind e (\<lambda>_. Ok ()), s))"

definition respond :: "int \<Rightarrow> int \<Rightarrow> (unit, seq_state) cmd" where
  "respond pid n = modifyc (\<lambda>s. s\<lparr>replies := replies s @ [(pid, n)]\<rparr>)"

section \<open>fifo_seqnum_server.c\<close>

definition SERVER_FIFO :: string where "SERVER_FIFO = ''./seqnum_sv''"

definition clientFifo :: "int \<Rightarrow> string" where
  "clientFifo pid = ''./seqnum_cl.'' @ dec pid"

text \<open>
  One turn of the loop: a short read (\<open>None\<close>) is discarded; \<open>errMsg\<close> writes
  \<open>err_open\<close>, its message for the failed \<open>open\<close>.  The number is advanced last, and not at
  all when the client's FIFO cannot be opened.
\<close>

definition fifo_turn :: "(string \<Rightarrow> string) \<Rightarrow> (request \<times> delivery) option \<Rightarrow> (unit, seq_state) cmd" where
  "fifo_turn err_text r = (case r of
       None \<Rightarrow> say (''Error reading request; discarding'' @ [newline])
     | Some (req, d) \<Rightarrow>
         (case d of
            No_channel \<Rightarrow> say (err_text (''open '' @ clientFifo (rq_pid req)))
          | Send_fails \<Rightarrow>
              seqc (say (''Error writing to FIFO '' @ clientFifo (rq_pid req) @ [newline])) (advance req)
          | Arrives \<Rightarrow> (\<lambda>s. seqc (respond (rq_pid req) (seqNum s)) (advance req) s)))"

section \<open>server.c of 46_2 and 52_3\<close>

text \<open>
  The System V server exits when \<open>msgrcv\<close> fails; it advances before it sends.  There is one queue
  for all, so \<open>No_channel\<close> does not occur and counts as a failed \<open>msgsnd\<close>.
\<close>

definition sysv_turn :: "(request \<times> delivery) option \<Rightarrow> (unit, seq_state) cmd" where
  "sysv_turn r = (case r of
       None \<Rightarrow> exitc 1
     | Some (req, d) \<Rightarrow> (\<lambda>s.
         seqc (advance req)
           (if d = Arrives then respond (rq_pid req) (seqNum s)
            else say (''Error sending response to client'' @ [newline])) s))"

definition clientQueueName :: "int \<Rightarrow> string" where
  "clientQueueName pid = snprintf 128 (''/seqnum_cl.'' @ dec pid)"

definition mq_turn :: "(request \<times> delivery) option \<Rightarrow> (unit, seq_state) cmd" where
  "mq_turn r = (case r of
       None \<Rightarrow> exitc 1
     | Some (req, d) \<Rightarrow> (\<lambda>s.
         seqc (advance req)
           (case d of
              No_channel \<Rightarrow> say (''Error opening client queue: '' @ clientQueueName (rq_pid req) @ [newline])
            | Send_fails \<Rightarrow> say (''Error sending response to client'' @ [newline])
            | Arrives \<Rightarrow> respond (rq_pid req) (seqNum s)) s))"

text \<open>The endless loop, on the requests received so far.\<close>

fun serve_loop :: "((request \<times> delivery) option \<Rightarrow> (unit, seq_state) cmd) \<Rightarrow>
    (request \<times> delivery) option list \<Rightarrow> (unit, seq_state) cmd" where
  "serve_loop turn [] = ret ()"
| "serve_loop turn (r # rs) = seqc (turn r) (serve_loop turn rs)"


definition sysv_server :: "bool \<Rightarrow> bool \<Rightarrow> (request \<times> delivery) option list \<Rightarrow> (unit, seq_state) cmd" where
  "sysv_server created exists_already rs =
     (if created \<or> exists_already then serve_loop sysv_turn rs else exitc 1)"

definition mq_server :: "bool \<Rightarrow> (request \<times> delivery) option list \<Rightarrow> (unit, seq_state) cmd" where
  "mq_server opened rs = (if opened then serve_loop mq_turn rs else exitc 1)"

section \<open>Clients\<close>

text \<open>
  fifo_seqnum_client.c up to the request it sends, and from the response on.  The fields say which
  system calls succeed.
\<close>

record fifo_calls =
  fc_mkfifo :: bool
  fc_atexit :: bool
  fc_open_server :: bool
  fc_write :: bool
  fc_open_own :: bool
  fc_read :: bool

definition client_request :: "enames \<Rightarrow> os \<Rightarrow> fifo_calls \<Rightarrow> string list \<Rightarrow> int \<Rightarrow> (request, proc) cmd" where
  "client_request en os fc argv pid =
     (if length argv > 1 \<and> strcmp (argv ! 1) ''--help'' = 0
      then usageErr (argv ! 0 @ '' [seq-len]'' @ [newline])
      else if \<not> fc_mkfifo fc then errExit en os (''mkfifo '' @ clientFifo pid)
      else if \<not> fc_atexit fc then errExit en os ''atexit''
      else bindc (if length argv > 1 then getInt (Some (argv ! 1)) GN_GT_0 (Some ''seq-len'') else ret 1) (\<lambda>n.
           if \<not> fc_open_server fc then errExit en os (''open '' @ SERVER_FIFO)
           else if \<not> fc_write fc then fatal en os ''Can't write to server''
           else ret \<lparr>rq_pid = pid, rq_seqLen = n\<rparr>))"


text \<open>fifo_seqnum_bad_client.c sends the same request and exits without reading.\<close>

definition bad_client :: "enames \<Rightarrow> os \<Rightarrow> fifo_calls \<Rightarrow> string list \<Rightarrow> int \<Rightarrow> (request, proc) cmd" where
  "bad_client en os fc argv pid = client_request en os fc argv pid"

definition bad_client_end :: "(unit, proc) cmd" where
  "bad_client_end = seqc (printf (''I'' @ [CHR 0x27] @ ''m a bad client.'' @ [newline])) (exitc 0)"

text \<open>client.c of 46_2: any text is a length.\<close>

definition sysv_client_request :: "bool \<Rightarrow> bool \<Rightarrow> string list \<Rightarrow> int \<Rightarrow> (request, proc) cmd" where
  "sysv_client_request got_queue sent argv pid =
     (if length argv > 1 \<and> strcmp (argv ! 1) ''--help'' = 0
      then seqc (printf (argv ! 0 @ '' [seq-len]'' @ [newline])) (exitc 1)
      else if \<not> got_queue then seqc (printf ''msgget'') (exitc 1)
      else let n = (if length argv > 1 then atoi (argv ! 1) else 1) in
        if \<not> sent then seqc (printf ''msgsnd'') (exitc 1)
        else ret \<lparr>rq_pid = pid, rq_seqLen = n\<rparr>)"

text \<open>client.c of 52_3 (second half): the length is the size of the file it names.\<close>

definition mq_client_request ::
  "os \<Rightarrow> bool \<Rightarrow> bool \<Rightarrow> (string \<Rightarrow> int option) \<Rightarrow> bool \<Rightarrow> string list \<Rightarrow> int \<Rightarrow> (request, proc) cmd" where
  "mq_client_request os own_queue server_queue file_size sent argv pid =
     (if length argv > 1 \<and> strcmp (argv ! 1) ''--help'' = 0
      then seqc (printf (argv ! 0 @ '' [seq-len]'' @ [newline])) (exitc 1)
      else if \<not> own_queue then seqc (perror os ''mq_open client'') (exitc 1)
      else if \<not> server_queue then seqc (perror os ''mq_open server'') (exitc 1)
      else case (if length argv > 1 then file_size (argv ! 1) else None) of
          None \<Rightarrow> seqc (perror os ''server open'') (exitc 1)
        | Some filsiz \<Rightarrow>
            if \<not> sent then seqc (perror os ''mq_send'') (exitc 1)
            else ret \<lparr>rq_pid = pid, rq_seqLen = to_int32 filsiz\<rparr>)"

text \<open>
  The last lines of both clients; the number is what \<open>msgrcv\<close> or \<open>mq_receive\<close> gives, \<open>None\<close> when
  it fails.
\<close>

definition sysv_client_response :: "int option \<Rightarrow> (unit, proc) cmd" where
  "sysv_client_response got = (case got of
       None \<Rightarrow> seqc (printf ''msgrcv'') (exitc 1)
     | Some n \<Rightarrow> seqc (printf (dec n @ [newline])) (exitc 0))"

definition mq_client_response :: "os \<Rightarrow> int option \<Rightarrow> (unit, proc) cmd" where
  "mq_client_response os got = (case got of
       None \<Rightarrow> seqc (perror os ''mq_receive'') (exitc 1)
     | Some n \<Rightarrow> seqc (printf (''Received seq_num: '' @ dec n @ [newline])) (exitc 0))"

text \<open>The first reply for a pid: in the System V queue by its type, in the POSIX service by its queue.\<close>

definition own_reply :: "int \<Rightarrow> seq_state \<Rightarrow> int option" where
  "own_reply pid s = map_of (replies s) pid"

section \<open>What the three servers have in common\<close>

text \<open>The requests that are answered, and the blocks of numbers they were promised.\<close>

definition arrived :: "(request \<times> delivery) option list \<Rightarrow> request list" where
  "arrived rs = map fst (filter (\<lambda>(q, d). d = Arrives) (map the (filter (\<lambda>r. r \<noteq> None) rs)))"

lemma arrived_simps [simp]:
  "arrived [] = []"
  "arrived (None # rs) = arrived rs"
  "arrived (Some (q, d) # rs) = (if d = Arrives then q # arrived rs else arrived rs)"
  by (simp_all add: arrived_def)

definition positive :: "(request \<times> delivery) option list \<Rightarrow> bool" where
  "positive rs \<longleftrightarrow> (\<forall>r \<in> set rs. case r of None \<Rightarrow> True | Some (q, d) \<Rightarrow> 0 < rq_seqLen q)"

text \<open>
  The blocks \<open>[starts ! i, starts ! i + length)\<close> lie one behind the other between two bounds.
\<close>

fun in_order :: "int \<Rightarrow> (int \<times> int) list \<Rightarrow> int \<Rightarrow> bool" where
  "in_order lo [] hi \<longleftrightarrow> lo \<le> hi"
| "in_order lo ((start, n) # bs) hi \<longleftrightarrow> lo \<le> start \<and> in_order (start + n) bs hi"

lemma in_order_mono: "in_order lo bs hi \<Longrightarrow> lo' \<le> lo \<Longrightarrow> in_order lo' bs hi"
  by (cases bs) auto

lemma in_order_bound:
  "in_order lo bs hi \<Longrightarrow> \<forall>(b, n) \<in> set bs. 0 < n \<Longrightarrow> lo \<le> hi \<and> (\<forall>(b, n) \<in> set bs. lo \<le> b \<and> b + n \<le> hi)"
proof (induction bs arbitrary: lo)
  case (Cons p bs)
  obtain b n where p: "p = (b, n)" by (cases p)
  have n: "0 < n" and lo: "lo \<le> b" using Cons.prems p by auto
  have "b + n \<le> hi \<and> (\<forall>(b', n') \<in> set bs. b + n \<le> b' \<and> b' + n' \<le> hi)"
    by (rule Cons.IH) (use Cons.prems p in auto)
  then show ?case using n lo p by fastforce
qed simp

text \<open>Blocks in order do not overlap.\<close>

lemma in_order_disjoint:
  "in_order lo bs hi \<Longrightarrow> \<forall>(b, n) \<in> set bs. 0 < n \<Longrightarrow> i < j \<Longrightarrow> j < length bs \<Longrightarrow>
   fst (bs ! i) + snd (bs ! i) \<le> fst (bs ! j)"
proof (induction bs arbitrary: lo i j)
  case (Cons p bs)
  obtain b n where p: "p = (b, n)" by (cases p)
  obtain j' where j: "j = Suc j'" using Cons.prems(3) by (cases j) auto
  show ?case
  proof (cases i)
    case 0
    have "bs ! j' \<in> set bs" using Cons.prems(4) j by simp
    then have "b + n \<le> fst (bs ! j')"
      using in_order_bound[of "b + n" bs hi] Cons.prems(1,2) p by (auto simp: case_prod_beta)
    then show ?thesis using 0 j p by simp
  next
    case (Suc i')
    then show ?thesis using Cons.IH[of "b + n" i' j'] Cons.prems j p by simp
  qed
qed simp

locale seq_service =
  fixes turn :: "(request \<times> delivery) option \<Rightarrow> (unit, seq_state) cmd"
  assumes turn_None: "turn None s = (Ok (), s') \<Longrightarrow> seqNum s' = seqNum s \<and> replies s' = replies s"
    and turn_Some: "turn (Some (q, d)) s = (Ok (), s') \<Longrightarrow>
      replies s' = replies s @ (if d = Arrives then [(rq_pid q, seqNum s)] else []) \<and>
      (seqNum s' = seqNum s + rq_seqLen q \<or> (d \<noteq> Arrives \<and> seqNum s' = seqNum s))"
begin

lemma blocks_in_order:
  "serve_loop turn rs s = (Ok (), s') \<Longrightarrow> positive rs \<Longrightarrow>
   \<exists>starts. length starts = length (arrived rs) \<and>
     replies s' = replies s @ zip (map rq_pid (arrived rs)) starts \<and>
     in_order (seqNum s) (zip starts (map rq_seqLen (arrived rs))) (seqNum s')"
proof (induction rs arbitrary: s)
  case (Cons r rs)
  from Cons.prems(1) obtain s1 where s1: "turn r s = (Ok (), s1)" "serve_loop turn rs s1 = (Ok (), s')"
    by (auto simp: seqc_def elim: bindc_OkE)
  have "positive rs" using Cons.prems(2) by (simp add: positive_def)
  from Cons.IH[OF s1(2) this] obtain starts where st: "length starts = length (arrived rs)"
      "replies s' = replies s1 @ zip (map rq_pid (arrived rs)) starts"
      "in_order (seqNum s1) (zip starts (map rq_seqLen (arrived rs))) (seqNum s')"
    by blast
  show ?case
  proof (cases r)
    case None
    then show ?thesis using st turn_None[of s s1] s1(1) by auto
  next
    case (Some p)
    obtain q d where p: "p = (q, d)" by (cases p)
    have n: "0 < rq_seqLen q" using Cons.prems(2) Some p by (simp add: positive_def)
    note t = turn_Some[OF s1(1)[unfolded Some p]]
    show ?thesis
    proof (cases "d = Arrives")
      case True
      then show ?thesis using st t Some p by (intro exI[of _ "seqNum s # starts"]) simp
    next
      case False
      then have "seqNum s \<le> seqNum s1" using t n by auto
      then show ?thesis using st t Some p False in_order_mono by (intro exI[of _ starts]) auto
    qed
  qed
qed (auto intro: exI[of _ "[]"])

end

text \<open>A server that advances for every request it reads, whether the reply arrives or not.\<close>

fun answers :: "int \<Rightarrow> (request \<times> delivery) list \<Rightarrow> (int \<times> int) list" where
  "answers n [] = []"
| "answers n ((q, d) # qs) = (if d = Arrives then [(rq_pid q, n)] else []) @ answers (n + rq_seqLen q) qs"

abbreviation peers :: "(request \<times> delivery) list \<Rightarrow> int list" where
  "peers qs \<equiv> map (\<lambda>q. rq_pid (fst q)) qs"

abbreviation lens :: "(request \<times> delivery) list \<Rightarrow> int list" where
  "lens qs \<equiv> map (\<lambda>q. rq_seqLen (fst q)) qs"

lemma answers_pids: "set (map fst (answers n qs)) \<subseteq> set (peers qs)"
  by (induction n qs rule: answers.induct) auto

lemma map_of_answers:
  "distinct (peers qs) \<Longrightarrow> i < length qs \<Longrightarrow>
   map_of (answers n qs) (rq_pid (fst (qs ! i))) =
     (if snd (qs ! i) = Arrives then Some (n + sum_list (lens (take i qs))) else None)"
proof (induction n qs arbitrary: i rule: answers.induct)
  case (2 n q d qs)
  have none: "map_of (answers (n + rq_seqLen q) qs) (rq_pid q) = None"
    using answers_pids[of "n + rq_seqLen q" qs] 2(2) by (auto simp: map_of_eq_None_iff)
  show ?case
  proof (cases i)
    case 0
    then show ?thesis using none by simp
  next
    case (Suc j)
    then have "qs ! j \<in> set qs" using 2(3) by simp
    then have "rq_pid (fst (qs ! j)) \<in> set (peers qs)" by simp
    moreover have "rq_pid q \<notin> set (peers qs)" using 2(2) by simp
    ultimately have "rq_pid (fst (qs ! j)) \<noteq> rq_pid q" by metis
    then show ?thesis using 2 Suc by (simp add: add.assoc)
  qed
qed simp

locale seq_numbering = seq_service +
  assumes turn_counts: "int_range (seqNum s + rq_seqLen q) \<Longrightarrow>
    \<exists>s'. turn (Some (q, d)) s = (Ok (), s') \<and> seqNum s' = seqNum s + rq_seqLen q"
begin

lemma serves_all:
  "0 \<le> seqNum s \<Longrightarrow> \<forall>q \<in> set qs. 0 < rq_seqLen (fst q) \<Longrightarrow>
   seqNum s + sum_list (lens qs) \<le> INT_MAX \<Longrightarrow>
   \<exists>s'. serve_loop turn (map Some qs) s = (Ok (), s') \<and> replies s' = replies s @ answers (seqNum s) qs \<and>
     seqNum s' = seqNum s + sum_list (lens qs)"
proof (induction qs arbitrary: s)
  case (Cons p qs)
  obtain q d where p: "p = (q, d)" by (cases p)
  have pos: "0 < rq_seqLen q" "0 \<le> sum_list (lens qs)"
    using Cons.prems(2) p by (simp, intro sum_list_nonneg) (force simp: less_imp_le)+
  then have "int_range (seqNum s + rq_seqLen q)" using Cons.prems(1,3) p by (simp add: int_range_def INT_MIN_def)
  then obtain s1 where s1: "turn (Some (q, d)) s = (Ok (), s1)" "seqNum s1 = seqNum s + rq_seqLen q"
    using turn_counts by blast
  obtain s' where "serve_loop turn (map Some qs) s1 = (Ok (), s')" "replies s' = replies s1 @ answers (seqNum s1) qs"
      "seqNum s' = seqNum s1 + sum_list (lens qs)"
    using Cons.IH[of s1] Cons.prems pos s1 p by auto
  then show ?case using s1 turn_Some[OF s1(1)] p by (auto simp: seqc_def)
qed simp

lemma own_replies:
  assumes "\<forall>q \<in> set qs. 0 < rq_seqLen (fst q)" and "sum_list (lens qs) \<le> INT_MAX"
    and "distinct (peers qs)"
  shows "\<exists>s'. serve_loop turn (map Some qs) seq_init = (Ok (), s') \<and>
    (\<forall>i < length qs. own_reply (rq_pid (fst (qs ! i))) s' =
       (if snd (qs ! i) = Arrives then Some (sum_list (lens (take i qs))) else None))"
  using serves_all[of seq_init qs] assms map_of_answers[OF assms(3), of _ 0]
  by (fastforce simp: seq_init_def own_reply_def)

end

lemma advance_Ok: "advance q s = (Ok (), s') \<longleftrightarrow> int_range (seqNum s + rq_seqLen q) \<and> s' = s\<lparr>seqNum := seqNum s + rq_seqLen q\<rparr>"
  by (auto simp: advance_def int_add_def)

interpretation fifo: seq_service "fifo_turn err_text" for err_text
  by unfold_locales
    (auto simp: fifo_turn_def say_def respond_def seqc_def advance_Ok bindc_eq_Ok split: delivery.splits)

interpretation sysv: seq_numbering sysv_turn
  by unfold_locales
    (auto simp: sysv_turn_def say_def respond_def seqc_def advance_Ok bindc_eq_Ok split: if_splits)

interpretation mq: seq_numbering mq_turn
proof unfold_locales
  show "\<exists>s'. mq_turn (Some (q, d)) s = (Ok (), s') \<and> seqNum s' = seqNum s + rq_seqLen q"
    if "int_range (seqNum s + rq_seqLen q)" for s q d
    using that by (cases d) (auto simp: mq_turn_def say_def respond_def seqc_def advance_Ok bindc_eq_Ok)
qed (auto simp: mq_turn_def say_def respond_def seqc_def advance_Ok bindc_eq_Ok split: delivery.splits)

section \<open>Properties\<close>

text \<open>
  C25: No number is given out twice: for each of the three servers, any sequence of requests of
  positive length and any loss of replies, as long as \<open>seqNum\<close> does not overflow, the blocks that
  two different answered requests were promised do not overlap, and later requests get later blocks.
\<close>

theorem seq_blocks_disjoint:
  assumes "turn \<in> {fifo_turn err_text, sysv_turn, mq_turn}"
    and "serve_loop turn rs seq_init = (Ok (), s')" and "positive rs"
  shows "\<exists>starts. length starts = length (arrived rs) \<and> replies s' = zip (map rq_pid (arrived rs)) starts \<and>
    (\<forall>i j. i < j \<longrightarrow> j < length starts \<longrightarrow> starts ! i + rq_seqLen (arrived rs ! i) \<le> starts ! j)"
proof -
  have "\<exists>starts. length starts = length (arrived rs) \<and>
     replies s' = replies seq_init @ zip (map rq_pid (arrived rs)) starts \<and>
     in_order (seqNum seq_init) (zip starts (map rq_seqLen (arrived rs))) (seqNum s')"
    using assms(1) fifo.blocks_in_order[of err_text rs seq_init s', OF _ assms(3)]
      sysv.blocks_in_order[of rs seq_init s', OF _ assms(3)] mq.blocks_in_order[of rs seq_init s', OF _ assms(3)] assms(2)
    by (elim insertE emptyE) simp_all
  then obtain starts where st: "length starts = length (arrived rs)"
      "replies s' = zip (map rq_pid (arrived rs)) starts"
      "in_order 0 (zip starts (map rq_seqLen (arrived rs))) (seqNum s')"
    by (auto simp: seq_init_def)
  have "\<forall>(b, n) \<in> set (zip starts (map rq_seqLen (arrived rs))). 0 < n"
    using assms(3) by (fastforce simp: positive_def arrived_def dest!: set_zip_rightD)
  from in_order_disjoint[OF st(3) this] show ?thesis using st(1,2) by (intro exI[of _ starts]) auto
qed

theorem seq_blocks_disjoint_witness:
  "\<exists>s'. serve_loop mq_turn [Some (\<lparr>rq_pid = 7, rq_seqLen = 3\<rparr>, Arrives), Some (\<lparr>rq_pid = 8, rq_seqLen = 2\<rparr>, Arrives)] seq_init
     = (Ok (), s') \<and> (\<exists>starts. length starts = 2 \<and> replies s' = zip [7, 8] starts \<and> starts ! 0 + 3 \<le> starts ! 1)"
proof -
  let ?rs = "[Some (\<lparr>rq_pid = 7, rq_seqLen = 3\<rparr>, Arrives), Some (\<lparr>rq_pid = 8, rq_seqLen = 2\<rparr>, Arrives)]"
  have r: "serve_loop mq_turn ?rs seq_init = (Ok (), \<lparr>seqNum = 5, replies = [(7, 0), (8, 3)], slog = []\<rparr>)"
    by (simp add: mq_turn_def seqc_def bindc_def advance_def int_add_def int_range_def INT_MIN_def INT_MAX_def
        respond_def seq_init_def)
  have "positive ?rs" by (simp add: positive_def)
  from seq_blocks_disjoint[OF _ r this, of "\<lambda>_. []"] obtain starts where
      "length starts = 2" "replies (\<lparr>seqNum = 5, replies = [(7, 0), (8, 3)], slog = []\<rparr>) = zip [7, 8] starts"
      "\<forall>i j. i < j \<longrightarrow> j < 2 \<longrightarrow> starts ! i + rq_seqLen ([\<lparr>rq_pid = 7, rq_seqLen = 3\<rparr>, \<lparr>rq_pid = 8, rq_seqLen = 2\<rparr>] ! i) \<le> starts ! j"
    by (auto simp: numeral_2_eq_2)
  moreover from this(3)[rule_format, of 0 1] have "starts ! 0 + 3 \<le> starts ! 1" by simp
  ultimately show ?thesis using r by blast
qed

lemma dec_not_help:
  assumes "0 < n"
  shows "dec n \<noteq> ''--help''"
proof
  assume "dec n = ''--help''"
  then have "CHR ''h'' \<in> set (dec_nat (nat n))" using assms by (simp add: dec_def)
  then have "is_digit_in 10 (CHR ''h'')" using dec_nat_digits by blast
  then show False by (simp add: is_digit_in_def digit_val_def)
qed

text \<open>The running sums of a list.\<close>

fun starts_from :: "int \<Rightarrow> int list \<Rightarrow> int list" where
  "starts_from n [] = []"
| "starts_from n (l # ls) = n # starts_from (n + l) ls"


lemma starts_from_length [simp]: "length (starts_from n ls) = length ls"
  by (induction ls arbitrary: n) simp_all




text \<open>
  C22: The two queue services from end to end: clients with different pids, started with decimal
  arguments (System V) or with the names of files (POSIX, where the size of the file counts), send
  exactly these lengths, as long as they are positive and their sum fits an \<open>int\<close>; the server takes
  them all, and a client whose reply arrives receives the sum of all lengths before its own, those whose
  replies were lost included, prints it and exits with status 0, while the others receive nothing.
\<close>

theorem queue_services:
  assumes "\<forall>q \<in> set qs. 0 < rq_seqLen (fst q)" and "sum_list (lens qs) \<le> INT_MAX"
    and "distinct (peers qs)" and "f \<noteq> ''--help''"
    and "serve = sysv_server True again \<or> serve = mq_server True"
  shows "\<exists>s'. serve (map Some qs) seq_init = (Ok (), s') \<and>
    (\<forall>i < length qs. case qs ! i of (q, d) \<Rightarrow>
       sysv_client_request True True [prog, dec (rq_seqLen q)] (rq_pid q) t = (Ok q, t) \<and>
       mq_client_request os True True [f \<mapsto> rq_seqLen q] True [prog, f] (rq_pid q) t = (Ok q, t) \<and>
       (if d = Arrives
        then sysv_client_response (own_reply (rq_pid q) s') t
              = (Exit 0, t\<lparr>pout := pout t @ dec (sum_list (lens (take i qs))) @ [newline]\<rparr>) \<and>
            mq_client_response os (own_reply (rq_pid q) s') t
              = (Exit 0, t\<lparr>pout := pout t @ ''Received seq_num: '' @ dec (sum_list (lens (take i qs))) @ [newline]\<rparr>)
        else own_reply (rq_pid q) s' = None))"
proof -
  obtain s' where s': "serve (map Some qs) seq_init = (Ok (), s')"
      "\<And>i. i < length qs \<Longrightarrow> own_reply (rq_pid (fst (qs ! i))) s' =
         (if snd (qs ! i) = Arrives then Some (sum_list (lens (take i qs))) else None)"
    using assms(5) sysv.own_replies[OF assms(1-3)] mq.own_replies[OF assms(1-3)]
    by (auto simp: sysv_server_def mq_server_def)
  have req: "sysv_client_request True True [prog, dec (rq_seqLen q)] (rq_pid q) t = (Ok q, t)"
      "mq_client_request os True True [f \<mapsto> rq_seqLen q] True [prog, f] (rq_pid q) t = (Ok q, t)"
    if q: "(q, d) \<in> set qs" for q d
  proof -
    have n: "0 < rq_seqLen q" using assms(1) q by force
    have "rq_seqLen q \<le> sum_list (lens qs)"
      by (rule member_le_sum_list) (use q assms(1) in \<open>force simp: less_imp_le\<close>)+
    then have r: "int_range (rq_seqLen q)" using n assms(2) by (simp add: int_range_def INT_MIN_def)
    show "sysv_client_request True True [prog, dec (rq_seqLen q)] (rq_pid q) t = (Ok q, t)"
      using dec_not_help[OF n] by (simp add: sysv_client_request_def atoi_dec[OF r])
    show "mq_client_request os True True [f \<mapsto> rq_seqLen q] True [prog, f] (rq_pid q) t = (Ok q, t)"
      using assms(4) by (simp add: mq_client_request_def to_int32_small[OF r])
  qed
  have "case qs ! i of (q, d) \<Rightarrow>
       sysv_client_request True True [prog, dec (rq_seqLen q)] (rq_pid q) t = (Ok q, t) \<and>
       mq_client_request os True True [f \<mapsto> rq_seqLen q] True [prog, f] (rq_pid q) t = (Ok q, t) \<and>
       (if d = Arrives
        then sysv_client_response (own_reply (rq_pid q) s') t
              = (Exit 0, t\<lparr>pout := pout t @ dec (sum_list (lens (take i qs))) @ [newline]\<rparr>) \<and>
            mq_client_response os (own_reply (rq_pid q) s') t
              = (Exit 0, t\<lparr>pout := pout t @ ''Received seq_num: '' @ dec (sum_list (lens (take i qs))) @ [newline]\<rparr>)
        else own_reply (rq_pid q) s' = None)" if i: "i < length qs" for i
  proof -
    obtain q d where qd: "qs ! i = (q, d)" by (cases "qs ! i")
    then have "(q, d) \<in> set qs" using i by (metis nth_mem)
    then show ?thesis using req qd s'(2)[OF i]
      by (simp add: sysv_client_response_def mq_client_response_def seqc_def)
  qed
  then show ?thesis using s'(1) by blast
qed

theorem queue_services_witness:
  "\<exists>s'. mq_server True [Some (\<lparr>rq_pid = 7, rq_seqLen = 3\<rparr>, No_channel), Some (\<lparr>rq_pid = 8, rq_seqLen = 2\<rparr>, Arrives)] seq_init
     = (Ok (), s') \<and>
   mq_client_response exact_os (own_reply 8 s') (start_proc [])
     = (Exit 0, (start_proc [])\<lparr>pout := ''Received seq_num: '' @ dec 3 @ [newline]\<rparr>)"
proof -
  let ?qs = "[(\<lparr>rq_pid = 7, rq_seqLen = 3\<rparr>, No_channel), (\<lparr>rq_pid = 8, rq_seqLen = 2\<rparr>, Arrives)]"
  from queue_services[of ?qs "''f''" "mq_server True" True "[]" "start_proc []" exact_os] obtain s' where
    s': "mq_server True (map Some ?qs) seq_init = (Ok (), s')"
    and r: "\<forall>i < length ?qs. case ?qs ! i of (q, d) \<Rightarrow> (if d = Arrives
        then mq_client_response exact_os (own_reply (rq_pid q) s') (start_proc [])
              = (Exit 0, (start_proc [])\<lparr>pout := pout (start_proc []) @ ''Received seq_num: '' @ dec (sum_list (lens (take i ?qs))) @ [newline]\<rparr>)
        else True)"
    by (auto simp: INT_MAX_def less_Suc_eq)
  from r[rule_format, of 1] s' show ?thesis by (simp add: start_proc_def)
qed

text \<open>
  A client that goes away: when the reply to a request has no channel, the FIFO server gives its
  numbers to the next client, while the two queue servers, which advance before they send, lose them.
\<close>

theorem lost_reply_numbers:
  assumes "0 < rq_seqLen q1" and "0 < rq_seqLen q2" and "rq_seqLen q1 + rq_seqLen q2 \<le> INT_MAX"
  shows "replies (snd (serve_loop (fifo_turn err_text) [Some (q1, No_channel), Some (q2, Arrives)] seq_init)) = [(rq_pid q2, 0)]
    \<and> replies (snd (serve_loop mq_turn [Some (q1, No_channel), Some (q2, Arrives)] seq_init)) = [(rq_pid q2, rq_seqLen q1)]
    \<and> replies (snd (serve_loop sysv_turn [Some (q1, Send_fails), Some (q2, Arrives)] seq_init)) = [(rq_pid q2, rq_seqLen q1)]"
  using assms
  by (simp add: fifo_turn_def mq_turn_def sysv_turn_def seqc_def bindc_def advance_def int_add_def int_range_def INT_MIN_def
      respond_def say_def seq_init_def)

theorem lost_reply_numbers_witness:
  "replies (snd (serve_loop mq_turn [Some (\<lparr>rq_pid = 7, rq_seqLen = 3\<rparr>, No_channel), Some (\<lparr>rq_pid = 8, rq_seqLen = 1\<rparr>, Arrives)]
     seq_init)) = [(8, 3)]"
  using lost_reply_numbers[of "\<lparr>rq_pid = 7, rq_seqLen = 3\<rparr>" "\<lparr>rq_pid = 8, rq_seqLen = 1\<rparr>" "\<lambda>_. []"]
  by (simp add: INT_MAX_def)

text \<open>
  Unchecked lengths: the System V client takes whatever \<open>atoi\<close> makes of its argument.  Two
  clients started with an argument whose value is 0 (any text without digits, say) get the same number
  as each other, while the FIFO client refuses such an argument with status 1.
\<close>

theorem sysv_zero_length:
  assumes "a \<noteq> ''--help''" and "atoi a = 0"
  shows "sysv_client_request True True [prog, a] p t = (Ok \<lparr>rq_pid = p, rq_seqLen = 0\<rparr>, t)
    \<and> replies (snd (sysv_server True False
        [Some (\<lparr>rq_pid = p, rq_seqLen = 0\<rparr>, Arrives), Some (\<lparr>rq_pid = p', rq_seqLen = 0\<rparr>, Arrives)] seq_init))
      = [(p, 0), (p', 0)]
    \<and> (if fc_mkfifo fc \<and> fc_atexit fc then fst (client_request en os fc [prog, a] p t) = Exit 1 else True)"
proof -
  have "fst (getInt (Some a) GN_GT_0 (Some ''seq-len'') t) = Exit 1"
  proof -
    have b: "gn_base GN_GT_0 = 10" "has_flag GN_GT_0 GN_GT_0"
      by (simp_all add: gn_base_def has_flag_def GN_GT_0_def GN_ANY_BASE_def GN_BASE_8_def GN_BASE_16_def)
    show ?thesis
    proof (cases "fst (getNum ''getInt'' (Some a) GN_GT_0 (Some ''seq-len'') t) = Exit 1")
      case True
      then show ?thesis by (cases "getNum ''getInt'' (Some a) GN_GT_0 (Some ''seq-len'') t") (simp add: getInt_def)
    next
      case False
      let ?v = "sl_value (strtol a 10)"
      have v: "getNum ''getInt'' (Some a) GN_GT_0 (Some ''seq-len'') t = (Ok ?v, t\<lparr>perrno := 0\<rparr>)" "0 < ?v"
        using getNum_cases[of "''getInt''" "Some a" GN_GT_0 "Some ''seq-len''" t] False b by auto
      have "?v > INT_MAX"
      proof (rule ccontr)
        assume "\<not> ?v > INT_MAX"
        then have "int_range ?v" using v(2) by (simp add: int_range_def INT_MIN_def)
        then have "atoi a = ?v" by (simp add: atoi_def to_int32_small)
        then show False using assms(2) v(2) by simp
      qed
      then show ?thesis using v(1) by (simp add: getInt_def)
    qed
  qed
  then have "if fc_mkfifo fc \<and> fc_atexit fc then fst (client_request en os fc [prog, a] p t) = Exit 1 else True"
    using assms(1) by (cases "getInt (Some a) GN_GT_0 (Some ''seq-len'') t") (simp add: client_request_def)
  then show ?thesis using assms
    by (simp add: sysv_client_request_def sysv_server_def sysv_turn_def seqc_def bindc_def advance_def int_add_def
        respond_def seq_init_def)
qed

theorem sysv_zero_length_witness:
  "replies (snd (sysv_server True False
     [Some (\<lparr>rq_pid = 7, rq_seqLen = 0\<rparr>, Arrives), Some (\<lparr>rq_pid = 8, rq_seqLen = 0\<rparr>, Arrives)] seq_init)) = [(7, 0), (8, 0)]"
proof -
  have "atoi ''x'' = 0"
    by (simp add: atoi_def strtol_def is_space_def strip_sign_def base_and_rest_def is_digit_in_def digit_val_def to_int32_def)
  from sysv_zero_length[OF _ this, where p = 7 and p' = 8] show ?thesis by simp
qed

end
