(* ===== verification/FifoRace.thy ===== *)
theory FifoRace
  imports SeqNum StepSys
begin

text \<open>
  The FIFO service of SP_HW8/44_6 as a system of processes: fifo_seqnum_server.c, and any number of
  clients that run fifo_seqnum_client.c or fifo_seqnum_bad_client.c, one system call at a time.  The
  server opens a client's FIFO with \<open>O_WRONLY | O_NONBLOCK\<close>, which fails unless the client is
  already inside its own blocking \<open>open\<close>.
\<close>

section \<open>State and steps\<close>

text \<open>
  A client: before \<open>write\<close> of its request; after it; blocked in \<open>open(clientFifo, O_RDONLY)\<close>; in
  \<open>read\<close>; finished with a number; or (the bad client) exited, its FIFO unlinked.
\<close>

datatype fclient_pc = C_start | C_sent | C_opening | C_reading | C_done int | C_gone

text \<open>The server: in \<open>read\<close>, at \<open>open\<close> for a request, or at \<open>write\<close> with the client's FIFO open.\<close>

datatype fserver_pc = S_read | S_open request | S_write request

record fifo_sys =
  fq :: "request list"
  spc :: fserver_pc
  snum :: int
  cpc :: "int \<Rightarrow> fclient_pc"
  chan :: "int \<Rightarrow> int option"

definition fifo_start :: fifo_sys where
  "fifo_start = \<lparr>fq = [], spc = S_read, snum = 0, cpc = (\<lambda>_. C_start), chan = (\<lambda>_. None)\<rparr>"

definition client_is :: "int \<Rightarrow> fclient_pc \<Rightarrow> fifo_sys \<Rightarrow> fifo_sys" where
  "client_is p c s = s\<lparr>cpc := (cpc s)(p := c)\<rparr>"

inductive fifo_step :: "fifo_sys \<Rightarrow> fifo_sys \<Rightarrow> bool" where
  c_write: "cpc s p = C_start \<Longrightarrow> 0 < n \<Longrightarrow>
    fifo_step s (client_is p C_sent (s\<lparr>fq := fq s @ [\<lparr>rq_pid = p, rq_seqLen = n\<rparr>]\<rparr>))"
| c_open: "cpc s p = C_sent \<Longrightarrow> fifo_step s (client_is p C_opening s)"
| c_bad_exit: "cpc s p = C_sent \<Longrightarrow> fifo_step s (client_is p C_gone s)"
| c_read: "cpc s p = C_reading \<Longrightarrow> chan s p = Some n \<Longrightarrow> fifo_step s (client_is p (C_done n) s)"
| s_read: "spc s = S_read \<Longrightarrow> fq s = r # rs \<Longrightarrow> fifo_step s (s\<lparr>fq := rs, spc := S_open r\<rparr>)"
| s_open: "spc s = S_open r \<Longrightarrow> cpc s (rq_pid r) = C_opening \<Longrightarrow>
    fifo_step s (client_is (rq_pid r) C_reading (s\<lparr>spc := S_write r\<rparr>))"
| s_open_fails: "spc s = S_open r \<Longrightarrow> cpc s (rq_pid r) \<noteq> C_opening \<Longrightarrow> fifo_step s (s\<lparr>spc := S_read\<rparr>)"
| s_write: "spc s = S_write r \<Longrightarrow> int_add (snum s) (rq_seqLen r) = Ok m \<Longrightarrow>
    fifo_step s (s\<lparr>spc := S_read, snum := m, chan := (chan s)(rq_pid r := Some (snum s))\<rparr>)"

inductive_cases fifo_stepE: "fifo_step s t"

text \<open>The requests the server has not decided about yet.\<close>

definition undecided :: "fifo_sys \<Rightarrow> request list" where
  "undecided s = (case spc s of S_open r \<Rightarrow> r # fq s | _ \<Rightarrow> fq s)"

definition awaits :: "fifo_sys \<Rightarrow> int \<Rightarrow> bool" where
  "awaits s p \<longleftrightarrow> p \<in> rq_pid ` set (undecided s)"

text \<open>What is left of the numbers: those still to be promised.\<close>

definition owed :: "fifo_sys \<Rightarrow> int" where
  "owed s = (case spc s of S_write r \<Rightarrow> rq_seqLen r | _ \<Rightarrow> 0) + sum_list (map rq_seqLen (undecided s))"

definition fifo_inv :: "fifo_sys \<Rightarrow> bool" where
  "fifo_inv s \<longleftrightarrow> distinct (map rq_pid (undecided s)) \<and>
    (\<forall>p. awaits s p \<longrightarrow> cpc s p \<in> {C_sent, C_opening, C_gone}) \<and>
    (\<forall>p. cpc s p = C_start \<longrightarrow> \<not> awaits s p) \<and>
    (\<forall>r \<in> set (undecided s). 0 < rq_seqLen r) \<and>
    (\<forall>r. spc s = S_write r \<longrightarrow> 0 < rq_seqLen r \<and> cpc s (rq_pid r) = C_reading \<and> chan s (rq_pid r) = None) \<and>
    (\<forall>p. cpc s p \<in> {C_start, C_sent, C_opening} \<longrightarrow> chan s p = None) \<and>
    0 \<le> snum s"

lemma fifo_inv_start: "fifo_inv fifo_start"
  by (simp add: fifo_inv_def fifo_start_def undecided_def awaits_def)

lemma fifo_inv_step: "fifo_step s t \<Longrightarrow> fifo_inv s \<Longrightarrow> fifo_inv t"
  by (induction rule: fifo_step.induct)
    (auto simp: fifo_inv_def undecided_def awaits_def client_is_def int_add_def
      split: fserver_pc.splits if_splits)

interpretation fifos: kept fifo_step fifo_inv
  by unfold_locales (rule fifo_inv_step)

section \<open>A client whose request was given up\<close>

lemma stuck_step:
  "fifo_step s t \<Longrightarrow> cpc s p = C_opening \<Longrightarrow> \<not> awaits s p \<Longrightarrow> cpc t p = C_opening \<and> \<not> awaits t p"
  by (induction rule: fifo_step.induct)
    (auto simp: undecided_def awaits_def client_is_def split: fserver_pc.splits if_splits)

interpretation abandoned: kept fifo_step "\<lambda>s. cpc s p = C_opening \<and> \<not> awaits s p" for p
  by unfold_locales (blast dest: stuck_step)

section \<open>A client whose request is still to be decided\<close>

definition work :: "fifo_sys \<Rightarrow> nat" where
  "work s = 3 * length (fq s) + (case spc s of S_read \<Rightarrow> 0 | S_write _ \<Rightarrow> 1 | S_open _ \<Rightarrow> 2)"

lemma owed_nonneg: "fifo_inv s \<Longrightarrow> 0 \<le> owed s"
  unfolding owed_def
  by (rule add_nonneg_nonneg)
    (auto simp: fifo_inv_def less_imp_le intro!: sum_list_nonneg split: fserver_pc.splits)

text \<open>The server alone gets on with its work, and keeps a waiting client waiting or lets it in.\<close>

lemma server_progress:
  assumes "fifo_inv s" and "cpc s p = C_opening" and "awaits s p" and "snum s + owed s \<le> INT_MAX"
  obtains t where "fifo_step s t" and "work t < work s" and "snum t + owed t \<le> INT_MAX"
    and "(cpc t p = C_opening \<and> awaits t p) \<or> (cpc t p = C_reading \<and> (\<exists>r. rq_pid r = p \<and> spc t = S_write r))"
proof (cases "spc s")
  case S_read
  then obtain r rs where q: "fq s = r # rs"
    using assms(3) by (cases "fq s") (auto simp: awaits_def undecided_def)
  show ?thesis
    by (rule that[OF s_read[OF S_read q]])
      (use S_read q assms in \<open>auto simp: work_def owed_def awaits_def undecided_def\<close>)
next
  case (S_write r)
  have "rq_seqLen r \<le> owed s"
    using assms(1) S_write by (auto simp: owed_def undecided_def fifo_inv_def less_imp_le intro!: sum_list_nonneg)
  then have "int_add (snum s) (rq_seqLen r) = Ok (snum s + rq_seqLen r)"
    using assms(1,4) S_write by (auto simp: int_add_def int_range_def INT_MIN_def fifo_inv_def)
  from s_write[OF S_write this] show ?thesis
    by (rule that) (use S_write assms in \<open>auto simp: work_def owed_def awaits_def undecided_def\<close>)
next
  case (S_open r)
  show ?thesis
  proof (cases "cpc s (rq_pid r) = C_opening")
    case True
    show ?thesis
      by (rule that[OF s_open[OF S_open True]])
        (use S_open True assms in \<open>auto simp: work_def owed_def awaits_def undecided_def client_is_def\<close>)
  next
    case False
    have "0 < rq_seqLen r" using assms(1) S_open by (simp add: fifo_inv_def undecided_def)
    then show ?thesis
      by (intro that[OF s_open_fails[OF S_open False]])
        (use S_open False assms in \<open>auto simp: work_def owed_def awaits_def undecided_def\<close>)
  qed
qed

lemma let_in_is_answered:
  assumes "fifo_inv s" and "spc s = S_write r" and "snum s + owed s \<le> INT_MAX"
  shows "\<exists>t n. fifo_step\<^sup>*\<^sup>* s t \<and> cpc t (rq_pid r) = C_done n"
proof -
  have c: "cpc s (rq_pid r) = C_reading" using assms(1,2) by (simp add: fifo_inv_def)
  have "rq_seqLen r \<le> owed s"
    using assms(1,2) by (auto simp: owed_def undecided_def fifo_inv_def less_imp_le intro!: sum_list_nonneg)
  then have "int_add (snum s) (rq_seqLen r) = Ok (snum s + rq_seqLen r)"
    using assms by (auto simp: int_add_def int_range_def INT_MIN_def fifo_inv_def)
  from s_write[OF assms(2) this]
  obtain u where u: "fifo_step s u" "cpc u (rq_pid r) = C_reading" "chan u (rq_pid r) = Some (snum s)"
    using c by fastforce
  from c_read[OF u(2,3)] have "fifo_step u (client_is (rq_pid r) (C_done (snum s)) u)" .
  with u(1) have "fifo_step\<^sup>*\<^sup>* s (client_is (rq_pid r) (C_done (snum s)) u)" by (meson converse_rtranclp_into_rtranclp r_into_rtranclp)
  then show ?thesis by (intro exI conjI) (auto simp: client_is_def)
qed

lemma awaited_is_answered:
  "fifo_inv s \<Longrightarrow> cpc s p = C_opening \<Longrightarrow> awaits s p \<Longrightarrow> snum s + owed s \<le> INT_MAX \<Longrightarrow>
   \<exists>t n. fifo_step\<^sup>*\<^sup>* s t \<and> cpc t p = C_done n"
proof (induction "work s" arbitrary: s rule: less_induct)
  case less
  from server_progress[OF less.prems] obtain t where t: "fifo_step s t" "work t < work s" "snum t + owed t \<le> INT_MAX"
    "(cpc t p = C_opening \<and> awaits t p) \<or> (cpc t p = C_reading \<and> (\<exists>r. rq_pid r = p \<and> spc t = S_write r))"
    by blast
  have i: "fifo_inv t" using fifo_inv_step[OF t(1) less.prems(1)] .
  have "\<exists>t' n. fifo_step\<^sup>*\<^sup>* t t' \<and> cpc t' p = C_done n"
    using t(4) less.hyps[OF t(2) i _ _ t(3)] let_in_is_answered[OF i _ t(3)] by blast
  then show ?case using t(1) by (meson converse_rtranclp_into_rtranclp)
qed

section \<open>Properties\<close>

text \<open>
  C23: Which waiting clients can be answered: in every reachable state in which a client is blocked
  opening its own FIFO (and the numbers still owed fit an \<open>int\<close>), some continuation gives it a
  number if and only if the server has not yet decided about its request; once the server's
  non-blocking \<open>open\<close> has failed, the client is blocked in every continuation.
\<close>

theorem fifo_waiting_clients:
  assumes "fifo_step\<^sup>*\<^sup>* fifo_start s" and "cpc s p = C_opening" and "snum s + owed s \<le> INT_MAX"
  shows "((\<exists>t n. fifo_step\<^sup>*\<^sup>* s t \<and> cpc t p = C_done n) \<longleftrightarrow> awaits s p) \<and>
    (awaits s p \<or> {cpc t p | t. fifo_step\<^sup>*\<^sup>* s t} = {C_opening})"
proof -
  note i = fifos.reach[OF assms(1) fifo_inv_start]
  have st: "cpc t p = C_opening" if "\<not> awaits s p" "fifo_step\<^sup>*\<^sup>* s t" for t
    using abandoned.reach[OF that(2)] assms(2) that(1) by blast
  then have "awaits s p \<or> {cpc t p | t. fifo_step\<^sup>*\<^sup>* s t} = {C_opening}" by force
  moreover have "(\<exists>t n. fifo_step\<^sup>*\<^sup>* s t \<and> cpc t p = C_done n) \<longleftrightarrow> awaits s p"
    using awaited_is_answered[OF i assms(2) _ assms(3)] st by fastforce
  ultimately show ?thesis by blast
qed

text \<open>One client that has sent its request and waits in \<open>open\<close>.\<close>

definition one_waiting :: fifo_sys where
  "one_waiting = client_is 7 C_opening (client_is 7 C_sent (fifo_start\<lparr>fq := [\<lparr>rq_pid = 7, rq_seqLen = 1\<rparr>]\<rparr>))"

lemma one_waiting_reach: "fifo_step\<^sup>*\<^sup>* fifo_start one_waiting"
proof -
  have "fifo_step fifo_start (client_is 7 C_sent (fifo_start\<lparr>fq := [\<lparr>rq_pid = 7, rq_seqLen = 1\<rparr>]\<rparr>))"
    using c_write[of fifo_start 7 1] by (simp add: fifo_start_def)
  moreover have "fifo_step (client_is 7 C_sent (fifo_start\<lparr>fq := [\<lparr>rq_pid = 7, rq_seqLen = 1\<rparr>]\<rparr>)) one_waiting"
    unfolding one_waiting_def by (rule c_open) (simp add: client_is_def)
  ultimately show ?thesis by (meson converse_rtranclp_into_rtranclp r_into_rtranclp)
qed

theorem fifo_waiting_clients_witness:
  "\<exists>t n. fifo_step\<^sup>*\<^sup>* one_waiting t \<and> cpc t 7 = C_done n"
  using fifo_waiting_clients[OF one_waiting_reach, of 7]
  by (simp add: one_waiting_def client_is_def fifo_start_def owed_def undecided_def awaits_def INT_MAX_def)

text \<open>
  The race that \<open>O_NONBLOCK\<close> opens: a good client that has sent its request can be
  overtaken by the server, which then finds no reader on the client's FIFO and gives up on it; the
  client goes on to open its FIFO and stays blocked there for ever, with no request left and the
  server idle.
\<close>

theorem fifo_reply_race:
  "\<exists>s. fifo_step\<^sup>*\<^sup>* fifo_start s \<and> cpc s p = C_opening \<and> fq s = [] \<and> spc s = S_read \<and> \<not> awaits s p \<and>
     \<not> (\<exists>t. fifo_step\<^sup>*\<^sup>* s t \<and> cpc t p \<noteq> C_opening)"
proof -
  let ?r = "\<lparr>rq_pid = p, rq_seqLen = 1\<rparr>"
  let ?a = "client_is p C_sent (fifo_start\<lparr>fq := [?r]\<rparr>)"
  let ?b = "?a\<lparr>fq := [], spc := S_open ?r\<rparr>"
  let ?c = "?b\<lparr>spc := S_read\<rparr>"
  let ?d = "client_is p C_opening ?c"
  have "fifo_step fifo_start ?a" using c_write[of fifo_start p 1] by (simp add: fifo_start_def)
  moreover have "fifo_step ?a ?b" by (rule s_read) (simp_all add: client_is_def fifo_start_def)
  moreover have "fifo_step ?b ?c" by (rule s_open_fails) (simp_all add: client_is_def fifo_start_def)
  moreover have "fifo_step ?c ?d" by (rule c_open) (simp add: client_is_def)
  ultimately have r: "fifo_step\<^sup>*\<^sup>* fifo_start ?d"
    by (meson converse_rtranclp_into_rtranclp r_into_rtranclp)
  have d: "cpc ?d p = C_opening" "fq ?d = []" "spc ?d = S_read" "\<not> awaits ?d p"
    by (simp_all add: client_is_def awaits_def undecided_def)
  then show ?thesis using r abandoned.reach[of ?d _ p] by blast
qed

end
