(* ===== verification/FifoSpec.thy ===== *)
theory FifoSpec
  imports FifoRace
begin

text \<open>
  The FIFO service of SP_HW8/44_6 as an allocator: an abstract system that gives a client the next
  numbers in one step, without FIFOs, blocking or a server process.
\<close>

section \<open>The allocator\<close>

record allocator =
  upcoming :: int
  given :: "int \<Rightarrow> int option"

inductive allocate :: "allocator \<Rightarrow> allocator \<Rightarrow> bool" where
  grant: "given a p = None \<Longrightarrow> 0 < n \<Longrightarrow> upcoming a + n \<le> INT_MAX \<Longrightarrow>
    allocate a (a\<lparr>upcoming := upcoming a + n, given := (given a)(p := Some (upcoming a))\<rparr>)"

definition untouched :: allocator where
  "untouched = \<lparr>upcoming = 0, given = (\<lambda>_. None)\<rparr>"

text \<open>A number is given when the server writes it to the client's FIFO.\<close>

definition alloc_abs :: "fifo_sys \<Rightarrow> allocator" where
  "alloc_abs s = \<lparr>upcoming = snum s, given = chan s\<rparr>"

lemma alloc_abs_start: "alloc_abs fifo_start = untouched"
  by (simp add: alloc_abs_def fifo_start_def untouched_def)

text \<open>No number is given twice.\<close>

definition sound_alloc :: "allocator \<Rightarrow> bool" where
  "sound_alloc a \<longleftrightarrow> (\<forall>p n. given a p = Some n \<longrightarrow> n < upcoming a) \<and> inj_on (given a) (dom (given a))"

lemma sound_allocate: "allocate a b \<Longrightarrow> sound_alloc a \<Longrightarrow> sound_alloc b"
  by (induction rule: allocate.induct) (fastforce simp: sound_alloc_def inj_on_def)

section \<open>Every step is a grant or none\<close>

lemma fifo_simulates:
  assumes "fifo_step s t" and "fifo_inv s"
  shows "alloc_abs t = alloc_abs s \<or> allocate (alloc_abs s) (alloc_abs t)"
  using assms(1)
proof cases
  case (s_write r m)
  then have "chan s (rq_pid r) = None" "0 < rq_seqLen r" using assms(2) by (simp_all add: fifo_inv_def)
  moreover have "m = snum s + rq_seqLen r" "m \<le> INT_MAX"
    using s_write(3) by (auto simp: int_add_def int_range_def split: if_splits)
  ultimately show ?thesis using grant[of "alloc_abs s" "rq_pid r" "rq_seqLen r"] s_write(1) by (simp add: alloc_abs_def)
qed (simp_all add: alloc_abs_def client_is_def)

section \<open>Every grant can be made\<close>

text \<open>The server waits, no request is there, and every client has a number or has not begun.\<close>

definition idle_service :: "fifo_sys \<Rightarrow> bool" where
  "idle_service s \<longleftrightarrow> spc s = S_read \<and> fq s = [] \<and> 0 \<le> snum s \<and> (\<forall>p. cpc s p = C_start \<or> chan s p \<noteq> None)"

lemma grant_made:
  assumes "idle_service s" and "chan s p = None" and "0 < n" and "snum s + n \<le> INT_MAX"
  shows "\<exists>t. fifo_step\<^sup>*\<^sup>* s t \<and> idle_service t \<and>
    alloc_abs t = \<lparr>upcoming = snum s + n, given = (chan s)(p := Some (snum s))\<rparr>"
proof -
  let ?r = "\<lparr>rq_pid = p, rq_seqLen = n\<rparr>"
  let ?s1 = "client_is p C_sent (s\<lparr>fq := fq s @ [?r]\<rparr>)"
  let ?s2 = "client_is p C_opening ?s1"
  let ?s3 = "?s2\<lparr>fq := [], spc := S_open ?r\<rparr>"
  let ?s4 = "client_is (rq_pid ?r) C_reading (?s3\<lparr>spc := S_write ?r\<rparr>)"
  let ?s5 = "?s4\<lparr>spc := S_read, snum := snum s + n, chan := (chan ?s4)(rq_pid ?r := Some (snum ?s4))\<rparr>"
  note s = assms(1)[unfolded idle_service_def]
  have m: "int_add (snum ?s4) (rq_seqLen ?r) = Ok (snum s + n)"
    using assms(3,4) s by (simp add: client_is_def int_add_def int_range_def INT_MIN_def)
  have "fifo_step s ?s1" by (rule c_write) (use s assms(2,3) in auto)
  moreover have "fifo_step ?s1 ?s2" by (rule c_open) (simp add: client_is_def)
  moreover have "fifo_step ?s2 ?s3" by (rule s_read) (use s in \<open>simp_all add: client_is_def\<close>)
  moreover have "fifo_step ?s3 ?s4" by (rule s_open) (simp_all add: client_is_def)
  moreover have "fifo_step ?s4 ?s5" by (rule s_write[OF _ m]) (simp add: client_is_def)
  ultimately have r: "fifo_step\<^sup>*\<^sup>* s ?s5" by (meson converse_rtranclp_into_rtranclp r_into_rtranclp)
  have "idle_service ?s5" using s assms(3) by (simp add: idle_service_def client_is_def)
  moreover have "alloc_abs ?s5 = \<lparr>upcoming = snum s + n, given = (chan s)(p := Some (snum s))\<rparr>"
    by (simp add: alloc_abs_def client_is_def)
  ultimately show ?thesis using r by blast
qed

interpretation service: realising fifo_step fifo_inv allocate alloc_abs idle_service
proof unfold_locales
  fix s b
  assume "allocate (alloc_abs s) b" and "idle_service s"
  then show "\<exists>t. fifo_step\<^sup>*\<^sup>* s t \<and> idle_service t \<and> alloc_abs t = b"
    by (cases rule: allocate.cases) (use grant_made in \<open>auto simp: alloc_abs_def\<close>)
qed (rule fifo_simulates)

text \<open>What a client has read is what the server wrote for it.\<close>

lemma delivered_step:
  assumes "fifo_step s t" and "fifo_inv s" and "\<And>p n. cpc s p = C_done n \<Longrightarrow> chan s p = Some n" and "cpc t p = C_done n"
  shows "chan t p = Some n"
  using assms(1)
proof cases
  case (s_write r m)
  then have "cpc s (rq_pid r) = C_reading" using assms(2) by (simp add: fifo_inv_def)
  then show ?thesis using s_write(1) assms(3,4) by auto
qed (use assms(3,4) in \<open>simp_all add: client_is_def split: if_splits\<close>)

definition hands_over :: "fifo_sys \<Rightarrow> bool" where
  "hands_over s \<longleftrightarrow> (\<forall>p n. cpc s p = C_done n \<longrightarrow> chan s p = Some n)"

interpretation delivered: kept fifo_step "\<lambda>s. fifo_inv s \<and> hands_over s"
proof unfold_locales
  fix s t
  assume st: "fifo_step s t" and i: "fifo_inv s \<and> hands_over s"
  have h: "chan s p = Some n" if "cpc s p = C_done n" for p n using i that by (simp add: hands_over_def)
  have "chan t p = Some n" if "cpc t p = C_done n" for p n
    by (rule delivered_step[OF st conjunct1[OF i] h that])
  then have "hands_over t" by (simp add: hands_over_def)
  then show "fifo_inv t \<and> hands_over t" using fifo_inv_step[OF st] i by simp
qed

section \<open>The service is the allocator\<close>

text \<open>
  C24: The FIFO service, with any number of good and bad clients and under any interleaving of their system
  calls with the server's, is exactly an allocator that gives the next numbers in one step: the numbers given
  that the one can reach are those the other can reach.  In every reachable state different
  clients have been given different numbers, and a client that is done has the number given to it.
\<close>

theorem fifo_exact_allocator:
  "alloc_abs ` {s. fifo_step\<^sup>*\<^sup>* fifo_start s} = {a. allocate\<^sup>*\<^sup>* untouched a} \<and>
   {s. fifo_step\<^sup>*\<^sup>* fifo_start s} \<subseteq>
     {s. inj_on (chan s) (dom (chan s)) \<and> {(p, n). cpc s p = C_done n} \<subseteq> {(p, n). chan s p = Some n}}"
proof -
  have "idle_service fifo_start" by (simp add: idle_service_def fifo_start_def)
  then have "alloc_abs ` {s. fifo_step\<^sup>*\<^sup>* fifo_start s} = {a. allocate\<^sup>*\<^sup>* untouched a}"
    using service.exact[OF fifo_inv_start] by (simp add: alloc_abs_start)
  moreover have "inj_on (chan s) (dom (chan s))" if "fifo_step\<^sup>*\<^sup>* fifo_start s" for s
  proof -
    have "sound_alloc (alloc_abs fifo_start)" by (simp add: sound_alloc_def alloc_abs_start untouched_def)
    from service.inherits[where P = sound_alloc, OF _ that fifo_inv_start this]
    have "sound_alloc (alloc_abs s)" using sound_allocate by blast
    then show ?thesis by (simp add: sound_alloc_def alloc_abs_def)
  qed
  moreover have "chan s p = Some n" if "fifo_step\<^sup>*\<^sup>* fifo_start s" "cpc s p = C_done n" for s p n
    using delivered.reach[OF that(1)] that(2) fifo_inv_start by (simp add: hands_over_def fifo_start_def)
  ultimately show ?thesis by blast
qed

end
