(* ===== verification/MqFile.thy ===== *)
theory MqFile
  imports SeqNum
begin

text \<open>
  The file service of SP_HW9/52_3 (the first half of its two files, down to the line of equal signs
  of the unresolved merge): the client sends a path in a POSIX message, the server answers with the
  contents of that file in messages of fixed size, and an empty message at the end.
\<close>

section \<open>Messages\<close>

definition MSG_SIZE :: nat where "MSG_SIZE = 2048"

definition PATH_MAX :: nat where "PATH_MAX = 4096"

definition SERVER_MQ_NAME :: string where "SERVER_MQ_NAME = ''/server_mq''"

definition CLIENT_MQ_NAME :: string where "CLIENT_MQ_NAME = ''/client_mq''"

definition mq_client_name :: "int \<Rightarrow> string" where
  "mq_client_name pid = snprintf 1024 (CLIENT_MQ_NAME @ dec pid)"

record request_msg =
  rm_pid :: int
  rm_pathname :: string

section \<open>The server\<close>

text \<open>
  A file that can be opened: \<open>read\<close> gives its bytes, or fails (a directory, say).
\<close>

datatype file_data = Readable string | Unreadable

definition file_bytes :: "file_data \<Rightarrow> string" where
  "file_bytes f = (case f of Readable c \<Rightarrow> c | Unreadable \<Rightarrow> [])"

text \<open>
  The server's \<open>server_res.data\<close>, the messages in the clients' queues, the queue descriptors it
  holds open, and its standard error.
\<close>

record mqf_state =
  srv_res :: string
  mqueue :: "(int \<times> string) list"
  open_queues :: nat
  flog :: string

text \<open>Which calls of one turn succeed; the sends are numbered.\<close>

record mqf_calls =
  mc_open :: bool
  mc_send :: "nat \<Rightarrow> bool"
  mc_close :: bool
  mc_mqclose :: bool

definition fsay :: "string \<Rightarrow> (unit, mqf_state) cmd" where
  "fsay msg = modifyc (\<lambda>s. s\<lparr>flog := flog s @ msg\<rparr>)"

definition mq_send :: "int \<Rightarrow> (unit, mqf_state) cmd" where
  "mq_send pid = modifyc (\<lambda>s. s\<lparr>mqueue := mqueue s @ [(pid, srv_res s)]\<rparr>)"

text \<open>
  The loop over the file: every chunk of up to \<open>MSG_SIZE - 1\<close> bytes is read to the front of the
  buffer, whose rest stays; the buffer is cleared after a send, and the loop left when a send fails.
  The result is the number of sends.  (\<open>err m\<close> is what \<open>perror\<close> prints.)
\<close>

function send_loop :: "(string \<Rightarrow> string) \<Rightarrow> (nat \<Rightarrow> bool) \<Rightarrow> int \<Rightarrow> nat \<Rightarrow> string \<Rightarrow> (nat, mqf_state) cmd" where
  "send_loop err sends pid k content s =
     (if content = [] then (Ok k, s)
      else let chunk = take (MSG_SIZE - 1) content;
               s1 = s\<lparr>srv_res := chunk @ drop (length chunk) (srv_res s)\<rparr>
        in if \<not> sends k then seqc (fsay (err ''mq_send'')) (ret (Suc k)) s1
           else seqc (mq_send pid) (seqc (modifyc (\<lambda>s. s\<lparr>srv_res := replicate MSG_SIZE NUL\<rparr>))
             (send_loop err sends pid (Suc k) (drop (MSG_SIZE - 1) content))) s1)"
  by pat_completeness auto
termination
  by (relation "measure (\<lambda>(_, _, _, _, content, _). length content)") (auto simp: MSG_SIZE_def)

declare send_loop.simps [simp del]

text \<open>The empty message, and the end of a turn; \<open>continue\<close> leaves the queue open.\<close>

definition send_end :: "(string \<Rightarrow> string) \<Rightarrow> mqf_calls \<Rightarrow> int \<Rightarrow> nat \<Rightarrow> (unit, mqf_state) cmd" where
  "send_end err calls pid k =
     seqc (modifyc (\<lambda>s. s\<lparr>srv_res := (srv_res s)[0 := NUL]\<rparr>))
     (if \<not> mc_send calls k then fsay (err ''mq_send'')
      else seqc (mq_send pid)
        (if \<not> mc_mqclose calls then fsay (err ''mq_close'')
         else modifyc (\<lambda>s. s\<lparr>open_queues := open_queues s - 1\<rparr>)))"

definition file_turn ::
  "(string \<Rightarrow> string) \<Rightarrow> (string \<Rightarrow> file_data option) \<Rightarrow> mqf_calls \<Rightarrow> request_msg \<Rightarrow> (unit, mqf_state) cmd" where
  "file_turn err files calls req =
     seqc (fsay (''mq_client_name: '' @ mq_client_name (rm_pid req) @ [newline]))
     (if \<not> mc_open calls then fsay (err ''mq_open'')
      else seqc (modifyc (\<lambda>s. s\<lparr>open_queues := open_queues s + 1\<rparr>))
       (seqc (fsay (''received file name: '' @ rm_pathname req @ [newline]))
        (case files (rm_pathname req) of
           None \<Rightarrow> fsay (err ''open request file'')
         | Some f \<Rightarrow>
             bindc (send_loop err (mc_send calls) (rm_pid req) 0 (file_bytes f)) (\<lambda>k.
             if \<not> mc_close calls then seqc (fsay (err ''close'')) (exitc 1)
             else send_end err calls (rm_pid req) k))))"

text \<open>The server's \<open>main\<close> on the requests that \<open>mq_receive\<close> returns; \<open>None\<close> is a failure.\<close>

fun file_loop ::
  "(string \<Rightarrow> string) \<Rightarrow> (string \<Rightarrow> file_data option) \<Rightarrow> (mqf_calls \<times> request_msg) option list \<Rightarrow> (unit, mqf_state) cmd" where
  "file_loop err files [] = ret ()"
| "file_loop err files (None # rs) = seqc (fsay (err ''mq_receive'')) (exitc 1)"
| "file_loop err files (Some (calls, req) # rs) = seqc (file_turn err files calls req) (file_loop err files rs)"

definition file_server ::
  "(string \<Rightarrow> string) \<Rightarrow> (string \<Rightarrow> file_data option) \<Rightarrow> bool \<Rightarrow> (mqf_calls \<times> request_msg) option list \<Rightarrow> (unit, mqf_state) cmd" where
  "file_server err files opened rs =
     (if opened then file_loop err files rs else seqc (fsay (err ''mq_open'')) (exitc 1))"

text \<open>Before the first request: the buffer on the stack holds whatever was there.\<close>

definition mqf_init :: "string \<Rightarrow> mqf_state" where
  "mqf_init junk = \<lparr>srv_res = take MSG_SIZE junk @ replicate (MSG_SIZE - length junk) NUL, mqueue = [], open_queues = 0, flog = []\<rparr>"

section \<open>The client\<close>

definition file_client_request :: "os \<Rightarrow> bool \<Rightarrow> bool \<Rightarrow> bool \<Rightarrow> string list \<Rightarrow> int \<Rightarrow> (request_msg, proc) cmd" where
  "file_client_request os own_queue server_queue sent argv pid =
     (if length argv \<noteq> 2 then seqc (perror os ''invalid argument number'') (exitc 1)
      else if length (argv ! 1) \<ge> PATH_MAX then undefc Buffer_overflow
      else if \<not> own_queue then seqc (perror os ''mq_open'') (exitc 1)
      else if \<not> server_queue then seqc (perror os ''mq_open'') (exitc 1)
      else if \<not> sent then seqc (perror os ''mq_send'') (exitc 1)
      else ret \<lparr>rm_pid = pid, rm_pathname = argv ! 1\<rparr>)"

text \<open>
  The loop over the messages in the client's queue, with \<open>receive_byte_num\<close> and
  \<open>receive_msg_num\<close>.  \<open>None\<close>: the queue is empty and \<open>mq_receive\<close> blocks.
\<close>

fun receive_loop :: "string list \<Rightarrow> int \<Rightarrow> int \<Rightarrow> (int \<times> int) outcome option" where
  "receive_loop [] bytes msgs = None"
| "receive_loop (m # ms) bytes msgs =
     (if take 1 m = [NUL] then Some (Ok (bytes, msgs))
      else case obind (cstr m) (\<lambda>d. int_add bytes (int (length d))) of
          Ok bytes' \<Rightarrow>
            (case int_add msgs 1 of Ok msgs' \<Rightarrow> receive_loop ms bytes' msgs' | _ \<Rightarrow> Some (Undef Signed_overflow))
        | Undef u \<Rightarrow> Some (Undef u)
        | Exit n \<Rightarrow> Some (Exit n)
        | Exec p a \<Rightarrow> Some (Exec p a)
        | Killed k \<Rightarrow> Some (Killed k))"

text \<open>What the client prints, and its end; \<open>calls\<close> are \<open>mq_close\<close> twice and \<open>mq_unlink\<close>.\<close>

definition file_client_end :: "os \<Rightarrow> bool \<times> bool \<times> bool \<Rightarrow> int \<times> int \<Rightarrow> (unit, proc) cmd" where
  "file_client_end os calls r =
     seqc (eprintf (''Reiceived '' @ dec (fst r) @ '' bytes ('' @ dec (snd r) @ '' messages)'' @ [newline]))
     (case calls of (c1, c2, u) \<Rightarrow>
        if \<not> c1 then seqc (perror os ''mq_close'') (exitc 1)
        else if \<not> c2 then seqc (perror os ''mq_client'') (exitc 1)
        else if \<not> u then seqc (perror os ''mq_client_name'') (exitc 1)
        else exitc 0)"

definition inbox :: "int \<Rightarrow> mqf_state \<Rightarrow> string list" where
  "inbox pid s = map snd (filter (\<lambda>(p, m). p = pid) (mqueue s))"

section \<open>Chunks\<close>

text \<open>The messages of a file: its bytes in pieces of \<open>MSG_SIZE - 1\<close>.\<close>

function chunks :: "string \<Rightarrow> string list" where
  "chunks c = (if c = [] then [] else take (MSG_SIZE - 1) c # chunks (drop (MSG_SIZE - 1) c))"
  by pat_completeness auto
termination
  by (relation "measure length") (auto simp: MSG_SIZE_def)

declare chunks.simps [simp del]

lemma chunks_Nil [simp]: "chunks [] = []"
  by (simp add: chunks.simps)

lemma chunks_step: "c \<noteq> [] \<Longrightarrow> chunks c = take (MSG_SIZE - 1) c # chunks (drop (MSG_SIZE - 1) c)"
  by (subst chunks.simps) simp

lemma chunks_concat [simp]: "concat (chunks c) = c"
proof (induction c rule: chunks.induct)
  case (1 c)
  then show ?case by (cases "c = []") (simp_all add: chunks_step)
qed

lemma chunks_bounds: "p \<in> set (chunks c) \<Longrightarrow> p \<noteq> [] \<and> length p < MSG_SIZE"
proof (induction c rule: chunks.induct)
  case (1 c)
  then show ?case by (cases "c = []") (auto simp: chunks_step MSG_SIZE_def)
qed

lemma chunks_count: "length (chunks c) = (length c + (MSG_SIZE - 2)) div (MSG_SIZE - 1)"
proof (induction c rule: chunks.induct)
  case (1 c)
  show ?case
  proof (cases "c = []")
    case False
    then have "length c + 2046 = (length c - 1) + 2047" by (cases c) simp_all
    then have d: "(length c + 2046) div 2047 = Suc ((length c - 1) div 2047)" by simp
    show ?thesis
    proof (cases "length c < 2047")
      case True
      then show ?thesis using d False by (simp add: chunks_step MSG_SIZE_def)
    next
      case longer: False
      then have "length c - 2047 + 2046 = length c - 1" by simp
      then show ?thesis using 1[OF False] d False by (simp add: chunks_step MSG_SIZE_def)
    qed
  qed (simp add: MSG_SIZE_def)
qed

text \<open>A chunk in a cleared buffer, and what \<open>strlen\<close> makes of it.\<close>

definition padded :: "string \<Rightarrow> string" where
  "padded p = p @ replicate (MSG_SIZE - length p) NUL"

definition text_part :: "string \<Rightarrow> string" where
  "text_part p = takeWhile (\<lambda>c. c \<noteq> NUL) p"

lemma takeWhile_NUL: "takeWhile (\<lambda>c. c \<noteq> NUL) (p @ NUL # r) = takeWhile (\<lambda>c. c \<noteq> NUL) p"
  by (induction p) simp_all

lemma padded_Suc:
  assumes "length p < MSG_SIZE"
  obtains k where "padded p = p @ NUL # replicate k NUL"
proof -
  obtain k where "MSG_SIZE - length p = Suc k" using assms by (metis Suc_diff_Suc)
  then show ?thesis using that[of k] by (simp add: padded_def)
qed

lemma cstr_padded: "length p < MSG_SIZE \<Longrightarrow> cstr (padded p) = Ok (text_part p)"
  by (erule padded_Suc) (simp add: cstr_def text_part_def takeWhile_NUL)

lemma take1_padded: "p \<noteq> [] \<Longrightarrow> take (Suc 0) (padded p) = [NUL] \<longleftrightarrow> hd p = NUL"
  by (cases p) (simp_all add: padded_def)

abbreviation cleared :: string where
  "cleared \<equiv> replicate MSG_SIZE NUL"

lemma send_loop_cleared:
  "srv_res s = cleared \<Longrightarrow>
   send_loop err (\<lambda>_. True) pid k content s =
     (Ok (k + length (chunks content)), s\<lparr>mqueue := mqueue s @ map (\<lambda>p. (pid, padded p)) (chunks content)\<rparr>)"
proof (induction content arbitrary: k s rule: chunks.induct)
  case (1 c)
  show ?case
  proof (cases "c = []")
    case False
    let ?p = "take (MSG_SIZE - 1) c"
    let ?s = "s\<lparr>mqueue := mqueue s @ [(pid, padded ?p)], srv_res := cleared\<rparr>"
    have s: "s\<lparr>srv_res := cleared, mqueue := q\<rparr> = s\<lparr>mqueue := q\<rparr>" for q using 1(2) by (cases s) simp
    have "send_loop err (\<lambda>_. True) pid k c s = send_loop err (\<lambda>_. True) pid (Suc k) (drop (MSG_SIZE - 1) c) ?s"
      using False 1(2) by (subst send_loop.simps) (simp add: Let_def seqc_def mq_send_def padded_def)
    also have "\<dots> = (Ok (k + length (chunks c)), s\<lparr>mqueue := mqueue s @ map (\<lambda>p. (pid, padded p)) (chunks c)\<rparr>)"
      using 1(1)[OF False, of ?s "Suc k"] False by (simp add: chunks_step s)
    finally show ?thesis .
  qed (simp add: send_loop.simps)
qed

lemma receive_padded:
  "\<forall>p \<in> set ps. p \<noteq> [] \<and> length p < MSG_SIZE \<Longrightarrow> 0 \<le> b \<Longrightarrow> 0 \<le> n \<Longrightarrow>
   b + int (length (concat ps)) \<le> INT_MAX \<Longrightarrow> n + int (length ps) \<le> INT_MAX \<Longrightarrow>
   receive_loop (map padded ps @ cleared # rest) b n =
     Some (Ok (b + int (sum_list (map (\<lambda>p. length (text_part p)) (takeWhile (\<lambda>p. hd p \<noteq> NUL) ps))),
               n + int (length (takeWhile (\<lambda>p. hd p \<noteq> NUL) ps))))"
proof (induction ps arbitrary: b n)
  case (Cons p ps)
  show ?case
  proof (cases "hd p = NUL")
    case False
    have p: "p \<noteq> []" "length p < MSG_SIZE" using Cons.prems(1) by simp_all
    have t: "length (text_part p) \<le> length p" by (simp add: text_part_def length_takeWhile_le)
    then have "int_add b (int (length (text_part p))) = Ok (b + int (length (text_part p)))" "int_add n 1 = Ok (n + 1)"
      using Cons.prems by (auto simp: int_add_def int_range_def INT_MIN_def)
    moreover have "receive_loop (map padded ps @ cleared # rest) (b + int (length (text_part p))) (n + 1) =
        Some (Ok (b + int (length (text_part p)) + int (sum_list (map (\<lambda>p. length (text_part p)) (takeWhile (\<lambda>p. hd p \<noteq> NUL) ps))),
               n + 1 + int (length (takeWhile (\<lambda>p. hd p \<noteq> NUL) ps))))"
      using Cons.prems t by (intro Cons.IH) auto
    ultimately show ?thesis using False p by (simp add: cstr_padded take1_padded)
  qed (use Cons.prems in \<open>simp add: take1_padded\<close>)
qed (simp add: MSG_SIZE_def)

section \<open>Properties\<close>

definition all_well :: mqf_calls where
  "all_well = \<lparr>mc_open = True, mc_send = (\<lambda>_. True), mc_close = True, mc_mqclose = True\<rparr>"

lemma all_well_simps [simp]:
  "mc_open all_well" "mc_send all_well = (\<lambda>_. True)" "mc_close all_well" "mc_mqclose all_well"
  by (simp_all add: all_well_def)

lemma cleared_end: "cleared[0 := NUL] = cleared"
  by (rule nth_equalityI) (auto simp: nth_list_update)

lemma file_turn_cleared:
  assumes "srv_res s = cleared" and "files (rm_pathname req) = Some f"
  shows "\<exists>t. file_turn err files all_well req s = (Ok (), t) \<and> srv_res t = cleared \<and> open_queues t = open_queues s \<and>
    mqueue t = mqueue s @ map (\<lambda>m. (rm_pid req, m)) (map padded (chunks (file_bytes f)) @ [cleared])"
  using assms
  by (simp add: file_turn_def fsay_def seqc_def send_loop_cleared bindc_def send_end_def mq_send_def cleared_end comp_def)

lemma inbox_append: "mqueue t = mqueue s @ map (\<lambda>m. (p, m)) ms \<Longrightarrow> inbox p t = inbox p s @ ms"
  by (induction ms arbitrary: t s rule: rev_induct) (simp_all add: inbox_def filter_map comp_def)

text \<open>
  C29: A transfer as it works: when the server's buffer is clear (which every turn without a failing
  call leaves behind), all calls succeed and the client's queue is empty, the client's loop ends, and
  it reports the lengths of the texts in the chunks of 2047 bytes up to the first chunk that begins
  with a NUL, and their number; for a file without NUL bytes these are its length and the number of
  chunks, rounded up.
\<close>

theorem mq_transfer_report:
  assumes "srv_res s = replicate MSG_SIZE NUL" and "files (rm_pathname req) = Some (Readable c)" and "inbox (rm_pid req) s = []"
    and "int (length c) \<le> INT_MAX"
  shows "\<exists>t. file_turn err files all_well req s = (Ok (), t) \<and> srv_res t = replicate MSG_SIZE NUL \<and> open_queues t = open_queues s \<and>
    (let ps = takeWhile (\<lambda>p. hd p \<noteq> NUL) (chunks c)
     in receive_loop (inbox (rm_pid req) t) 0 0 =
          Some (Ok (int (sum_list (map (\<lambda>p. length (text_part p)) ps)), int (length ps)))) \<and>
    (\<not> nul_free c \<or>
     receive_loop (inbox (rm_pid req) t) 0 0 = Some (Ok (int (length c), int ((length c + 2046) div 2047))))"
proof -
  obtain t where t: "file_turn err files all_well req s = (Ok (), t)" "srv_res t = cleared" "open_queues t = open_queues s"
      "mqueue t = mqueue s @ map (\<lambda>m. (rm_pid req, m)) (map padded (chunks c) @ [cleared])"
    using file_turn_cleared[of s files req "Readable c" err] assms(1,2) by (auto simp: file_bytes_def)
  have cl: "length (chunks c) \<le> length c"
  proof -
    have "(length c + 2046) div 2047 \<le> length c" by (cases c) (simp_all add: div_le_mono)
    then show ?thesis by (simp add: chunks_count MSG_SIZE_def)
  qed
  have i: "inbox (rm_pid req) t = map padded (chunks c) @ [cleared]"
    using inbox_append[OF t(4)] assms(3) by simp
  have r: "receive_loop (inbox (rm_pid req) t) 0 0 =
     Some (Ok (int (sum_list (map (\<lambda>p. length (text_part p)) (takeWhile (\<lambda>p. hd p \<noteq> NUL) (chunks c)))),
               int (length (takeWhile (\<lambda>p. hd p \<noteq> NUL) (chunks c)))))"
    using receive_padded[of "chunks c" 0 0 "[]"] chunks_bounds cl assms(4) unfolding i by simp
  have "receive_loop (inbox (rm_pid req) t) 0 0 = Some (Ok (int (length c), int ((length c + 2046) div 2047)))" if "nul_free c"
  proof -
    have nf: "nul_free p" if "p \<in> set (chunks c)" for p
    proof -
      have "set p \<subseteq> set (concat (chunks c))" using that by (auto simp del: chunks_concat)
      then show ?thesis using \<open>nul_free c\<close> by (auto simp: nul_free_def)
    qed
    have "hd p \<noteq> NUL" "text_part p = p" if "p \<in> set (chunks c)" for p
      using nf[OF that] chunks_bounds[OF that] by (cases p; auto simp: nul_free_def text_part_def takeWhile_eq_all_conv)+
    then have w: "takeWhile (\<lambda>p. hd p \<noteq> NUL) (chunks c) = chunks c"
      and m: "map (\<lambda>p. length (text_part p)) (chunks c) = map length (chunks c)"
      by (auto simp: takeWhile_eq_all_conv)
    moreover have "sum_list (map length (chunks c)) = length c" by (metis chunks_concat length_concat)
    ultimately show ?thesis using r unfolding w m by (simp add: chunks_count MSG_SIZE_def)
  qed
  then show ?thesis using t r by (intro exI[of _ t]) (auto simp: Let_def)
qed

theorem mq_transfer_report_witness:
  "\<exists>t. file_turn (\<lambda>_. []) [''f'' \<mapsto> Readable ''hello''] all_well \<lparr>rm_pid = 7, rm_pathname = ''f''\<rparr> (mqf_init []) = (Ok (), t) \<and>
     receive_loop (inbox 7 t) 0 0 = Some (Ok (5, 1))"
proof -
  have "srv_res (mqf_init []) = replicate MSG_SIZE NUL" "inbox 7 (mqf_init []) = []" by (simp_all add: mqf_init_def inbox_def)
  moreover have "nul_free ''hello''" by (simp add: nul_free_def)
  ultimately show ?thesis
    using mq_transfer_report[of "mqf_init []" "[''f'' \<mapsto> Readable ''hello'']" "\<lparr>rm_pid = 7, rm_pathname = ''f''\<rparr>" "''hello''" "\<lambda>_. []",
        simplified]
    by (fastforce simp: INT_MAX_def)
qed

text \<open>
  The first transfer of a server: \<open>server_res\<close> is not cleared before the first
  \<open>read\<close>, so behind the bytes of a small file the first message carries what was on the stack;
  the client counts it up to the next NUL, and reads past the end of its buffer when there is none.
\<close>

theorem mq_first_transfer_junk:
  assumes "c \<noteq> []" and "length c < MSG_SIZE" and "nul_free c" and "length junk = MSG_SIZE"
    and "files (rm_pathname req) = Some (Readable c)"
  shows "\<exists>t. file_turn err files all_well req (mqf_init junk) = (Ok (), t) \<and>
    receive_loop (inbox (rm_pid req) t) 0 0 =
      Some (if NUL \<in> set (drop (length c) junk)
            then Ok (int (length c + length (text_part (drop (length c) junk))), 1)
            else Undef Out_of_bounds)"
proof -
  let ?m = "c @ drop (length c) junk"
  let ?s = "mqf_init junk\<lparr>flog := (''mq_client_name: '' @ mq_client_name (rm_pid req) @ [newline])
      @ ''received file name: '' @ rm_pathname req @ [newline], open_queues := 1\<rparr>"
  have c: "take (MSG_SIZE - 1) c = c" "drop (MSG_SIZE - 1) c = []" using assms(2) by simp_all
  have "send_loop err (\<lambda>_. True) pid 0 c s = (Ok (Suc 0), s\<lparr>mqueue := mqueue s @ [(pid, c @ drop (length c) (srv_res s))], srv_res := cleared\<rparr>)"
    for pid and s
    using assms(1) c by (subst send_loop.simps) (simp add: seqc_def mq_send_def send_loop.simps)
  then obtain t where t: "file_turn err files all_well req (mqf_init junk) = (Ok (), t)"
      "mqueue t = [(rm_pid req, ?m), (rm_pid req, cleared)]"
    using assms(4,5)
    by (simp add: file_turn_def fsay_def seqc_def bindc_def send_end_def mq_send_def cleared_end mqf_init_def file_bytes_def)
  have i: "inbox (rm_pid req) t = [?m, cleared]" using t(2) by (simp add: inbox_def)
  have h: "take (Suc 0) ?m \<noteq> [NUL]" using assms(1,3) by (cases c) (auto simp: nul_free_def)
  have m: "cstr ?m = (if NUL \<in> set (drop (length c) junk) then Ok (c @ text_part (drop (length c) junk)) else Undef Out_of_bounds)"
    using assms(3) by (auto simp: cstr_def nul_free_def text_part_def takeWhile_append)
  have "length (text_part (drop (length c) junk)) \<le> MSG_SIZE"
    using assms(4) length_takeWhile_le[of _ "drop (length c) junk"] unfolding text_part_def by (metis diff_le_self length_drop le_trans)
  then have "int_add 0 (int (length (c @ text_part (drop (length c) junk)))) = Ok (int (length c + length (text_part (drop (length c) junk))))"
    using assms(2) by (auto simp: int_add_def int_range_def INT_MIN_def INT_MAX_def MSG_SIZE_def)
  moreover have "int_add 0 1 = Ok 1" by (simp add: int_add_def int_range_def INT_MIN_def INT_MAX_def)
  ultimately show ?thesis using t(1) h unfolding i[symmetric]
    by (intro exI[of _ t]) (simp add: i m MSG_SIZE_def)
qed

theorem mq_first_transfer_junk_witness:
  "\<exists>t. file_turn (\<lambda>_. []) [''f'' \<mapsto> Readable ''hi''] all_well \<lparr>rm_pid = 7, rm_pathname = ''f''\<rparr> (mqf_init (replicate MSG_SIZE (CHR ''x''))) = (Ok (), t) \<and>
     receive_loop (inbox 7 t) 0 0 = Some (Undef Out_of_bounds)"
  using mq_first_transfer_junk[of "''hi''" "replicate MSG_SIZE (CHR ''x'')" "[''f'' \<mapsto> Readable ''hi'']" "\<lparr>rm_pid = 7, rm_pathname = ''f''\<rparr>" "\<lambda>_. []"]
  by (simp add: MSG_SIZE_def nul_free_def)

text \<open>
  A file that cannot be opened: the server prints a message and takes the next request without
  answering, so the client that asked waits for ever in \<open>mq_receive\<close>, and the server keeps the
  client's queue open; after \<open>n\<close> such requests it holds \<open>n\<close> descriptors more.
\<close>

theorem mq_missing_file_hangs:
  assumes "\<forall>r \<in> set rs. r \<noteq> None \<and> mc_open (fst (the r)) \<and> files (rm_pathname (snd (the r))) = None"
  shows "\<exists>t. file_loop err files rs (mqf_init junk) = (Ok (), t) \<and> open_queues t = length rs \<and>
    map (\<lambda>r. receive_loop (inbox (rm_pid (snd (the r))) t) 0 0) rs = replicate (length rs) None"
proof -
  have "\<exists>t. file_loop err files rs s = (Ok (), t) \<and> open_queues t = open_queues s + length rs \<and> mqueue t = mqueue s" for s
    using assms
  proof (induction rs arbitrary: s)
    case (Cons r rs)
    then obtain calls req where r: "r = Some (calls, req)" "mc_open calls" "files (rm_pathname req) = None" by force
    then obtain u where u: "file_turn err files calls req s = (Ok (), u)" "open_queues u = open_queues s + 1" "mqueue u = mqueue s"
      by (simp add: file_turn_def fsay_def seqc_def)
    then show ?case using Cons.IH[of u] Cons.prems r by (auto simp: seqc_def)
  qed simp
  from this[of "mqf_init junk"] obtain t where t: "file_loop err files rs (mqf_init junk) = (Ok (), t)"
      "open_queues t = length rs" "mqueue t = []"
    by (auto simp: mqf_init_def)
  then show ?thesis by (intro exI[of _ t]) (simp add: inbox_def map_replicate_const)
qed

theorem mq_missing_file_hangs_witness:
  "\<exists>t. file_loop (\<lambda>_. []) Map.empty [Some (all_well, \<lparr>rm_pid = 7, rm_pathname = ''no''\<rparr>)] (mqf_init []) = (Ok (), t) \<and>
     open_queues t = 1 \<and> receive_loop (inbox 7 t) 0 0 = None"
  using mq_missing_file_hangs[of "[Some (all_well, \<lparr>rm_pid = 7, rm_pathname = ''no''\<rparr>)]" Map.empty "\<lambda>_. []" "[]"] by simp

end
