(* ===== verification/SemXfer.thy ===== *)
theory SemXfer
  imports CProc StepSys
begin

text \<open>
  SP_HW9/54_1: writer.c and reader.c copy the writer's standard input to the reader's standard output
  through one buffer in shared memory, with two POSIX semaphores.  Each statement of the two loops is
  one step of \<open>xfer_step\<close>, so every interleaving is covered, and so are short reads and failing
  \<open>read\<close> and \<open>write\<close> calls.
\<close>

section \<open>The two programs\<close>

definition SHM_BUF :: nat where "SHM_BUF = 4096"

record shmseg =
  cnt :: int
  sbuf :: string

text \<open>Where the writer is in its loop: before each of its statements, or behind the loop.\<close>

datatype writer_pc = W_wait | W_read | W_post | W_check | W_done | W_failed

datatype reader_pc = R_wait | R_check | R_write | R_post | R_done | R_failed

record xfer =
  write_sem :: nat
  read_sem :: nat
  seg :: shmseg
  wpc :: writer_pc
  winput :: string
  rpc :: reader_pc
  routput :: string
  rbytes :: int
  xfrs :: int

text \<open>Both programs at their loops; the semaphores and the segment are what \<open>sem_open\<close> and \<open>mmap\<close> give.\<close>

definition xfer_start :: "nat \<Rightarrow> nat \<Rightarrow> shmseg \<Rightarrow> string \<Rightarrow> xfer" where
  "xfer_start ws rs sg inp =
     \<lparr>write_sem = ws, read_sem = rs, seg = sg, wpc = W_wait, winput = inp,
      rpc = R_wait, routput = [], rbytes = 0, xfrs = 0\<rparr>"

text \<open>
  \<open>sem_open\<close> with \<open>O_CREAT\<close>: the value is given to a new semaphore only; one that is there
  already (\<open>Some\<close>) is opened as it is.
\<close>

definition sem_open :: "nat option \<Rightarrow> nat \<Rightarrow> nat" where
  "sem_open existing v = (case existing of None \<Rightarrow> v | Some n \<Rightarrow> n)"

definition xfer_run :: "nat option \<Rightarrow> nat option \<Rightarrow> shmseg \<Rightarrow> string \<Rightarrow> xfer" where
  "xfer_run wsem rsem sg inp = xfer_start (sem_open wsem 1) (sem_open rsem 0) sg inp"

text \<open>\<open>read\<close> of \<open>k\<close> bytes into the segment: as many as there are up to the size, 0 only at the end.\<close>

definition can_read :: "string \<Rightarrow> nat \<Rightarrow> bool" where
  "can_read inp k \<longleftrightarrow> k \<le> length inp \<and> k \<le> SHM_BUF \<and> (k = 0 \<longleftrightarrow> inp = [])"

definition fill_seg :: "shmseg \<Rightarrow> string \<Rightarrow> shmseg" where
  "fill_seg sg chunk = \<lparr>cnt = int (length chunk), sbuf = chunk @ drop (length chunk) (sbuf sg)\<rparr>"

inductive xfer_step :: "xfer \<Rightarrow> xfer \<Rightarrow> bool" where
  w_wait: "wpc s = W_wait \<Longrightarrow> 0 < write_sem s \<Longrightarrow>
    xfer_step s (s\<lparr>wpc := W_read, write_sem := write_sem s - 1\<rparr>)"
| w_read: "wpc s = W_read \<Longrightarrow> can_read (winput s) k \<Longrightarrow>
    xfer_step s (s\<lparr>wpc := W_post, seg := fill_seg (seg s) (take k (winput s)), winput := drop k (winput s)\<rparr>)"
| w_read_fails: "wpc s = W_read \<Longrightarrow> xfer_step s (s\<lparr>wpc := W_failed, seg := (seg s)\<lparr>cnt := -1\<rparr>\<rparr>)"
| w_post: "wpc s = W_post \<Longrightarrow> xfer_step s (s\<lparr>wpc := W_check, read_sem := read_sem s + 1\<rparr>)"
| w_check: "wpc s = W_check \<Longrightarrow> xfer_step s (s\<lparr>wpc := (if cnt (seg s) = 0 then W_done else W_wait)\<rparr>)"
| r_wait: "rpc s = R_wait \<Longrightarrow> 0 < read_sem s \<Longrightarrow>
    xfer_step s (s\<lparr>rpc := R_check, read_sem := read_sem s - 1\<rparr>)"
| r_eof: "rpc s = R_check \<Longrightarrow> cnt (seg s) = 0 \<Longrightarrow> xfer_step s (s\<lparr>rpc := R_done\<rparr>)"
| r_check: "rpc s = R_check \<Longrightarrow> cnt (seg s) \<noteq> 0 \<Longrightarrow> int_add (rbytes s) (cnt (seg s)) = Ok n \<Longrightarrow>
    xfer_step s (s\<lparr>rpc := R_write, rbytes := n\<rparr>)"
| r_write: "rpc s = R_write \<Longrightarrow>
    xfer_step s (s\<lparr>rpc := R_post, routput := routput s @ take (nat (cnt (seg s))) (sbuf (seg s))\<rparr>)"
| r_write_fails: "rpc s = R_write \<Longrightarrow> xfer_step s (s\<lparr>rpc := R_failed\<rparr>)"
| r_post: "rpc s = R_post \<Longrightarrow> int_add (xfrs s) 1 = Ok n \<Longrightarrow>
    xfer_step s (s\<lparr>rpc := R_wait, write_sem := write_sem s + 1, xfrs := n\<rparr>)"

inductive_cases xfer_stepE: "xfer_step s t"


section \<open>Before and behind the loops\<close>

text \<open>
  The writer makes what is not there; the reader opens what has to be there (\<open>ENOENT\<close>, 2).
  \<open>calls\<close> tells which call fails, and with which \<open>errno\<close>.
\<close>

definition writer_begin :: "os \<Rightarrow> (nat \<Rightarrow> int option) \<Rightarrow> (unit, proc) cmd" where
  "writer_begin os calls = checked os
     [(''shm_open'', calls 0), (''ftruncate'', calls 1), (''mmap'', calls 2),
      (''sem_open write'', calls 3), (''sem_open read'', calls 4)]"

definition reader_begin :: "os \<Rightarrow> bool \<Rightarrow> nat option \<Rightarrow> nat option \<Rightarrow> (nat \<Rightarrow> int option) \<Rightarrow> (unit, proc) cmd" where
  "reader_begin os object wsem rsem calls = checked os
     [(''shm_open'', if object then calls 0 else Some 2), (''mmap'', calls 1),
      (''sem_open write'', if wsem = None then Some 2 else calls 2), (''sem_open read'', if rsem = None then Some 2 else calls 3)]"

text \<open>
  The end of both programs; the second \<open>sem_close\<close> is not reached when the first one fails.
\<close>

definition release_calls :: "(nat \<Rightarrow> int option) \<Rightarrow> syscall list" where
  "release_calls calls =
     [(''munmap'', calls 0), (''close'', calls 1), (''sem_close'', if calls 2 = None then calls 3 else calls 2)]"

definition writer_end :: "os \<Rightarrow> (nat \<Rightarrow> int option) \<Rightarrow> (unit, proc) cmd" where
  "writer_end os calls = seqc (checked os (release_calls calls)) (exitc 0)"




lemma reader_needs_writer:
  "wsem = None \<or> rsem = None \<or> \<not> object \<Longrightarrow> fst (reader_begin os object wsem rsem calls s) = Exit 1"
  by (auto simp: reader_begin_def seqc_def split: option.splits)

section \<open>The invariant\<close>

text \<open>
  There is one token: the right to touch the buffer.  It is in a semaphore or in the hands of one of
  the programs, and gone once the reader has seen the end or a call has failed.
\<close>

definition w_holds :: "xfer \<Rightarrow> nat" where
  "w_holds s = (if wpc s \<in> {W_read, W_post, W_failed} then 1 else 0)"

definition r_holds :: "xfer \<Rightarrow> nat" where
  "r_holds s = (if rpc s \<in> {R_check, R_write, R_post, R_done, R_failed} then 1 else 0)"

text \<open>The bytes that are in the buffer and not yet in the output.\<close>

definition in_transit :: "xfer \<Rightarrow> string" where
  "in_transit s =
     (if wpc s = W_post \<or> 0 < read_sem s \<or> rpc s \<in> {R_check, R_write, R_failed}
      then take (nat (cnt (seg s))) (sbuf (seg s)) else [])"

definition xfer_inv :: "string \<Rightarrow> xfer \<Rightarrow> bool" where
  "xfer_inv whole s \<longleftrightarrow>
     write_sem s + read_sem s + w_holds s + r_holds s = 1 \<and>
     routput s @ in_transit s @ winput s = whole \<and>
     rbytes s = int (length (routput s) + (if rpc s \<in> {R_write, R_failed} then length (in_transit s) else 0)) \<and>
     0 \<le> xfrs s \<and> xfrs s + (if rpc s = R_post then 1 else 0) \<le> int (length (routput s)) \<and>
     (wpc s \<in> {W_post, W_check} \<or> 0 < read_sem s \<or> rpc s \<in> {R_check, R_write, R_post, R_failed} \<longrightarrow>
        0 \<le> cnt (seg s) \<and> nat (cnt (seg s)) \<le> length (sbuf (seg s)) \<and> (cnt (seg s) = 0 \<longrightarrow> winput s = [])) \<and>
     (rpc s \<in> {R_write, R_post, R_failed} \<longrightarrow> 0 < cnt (seg s)) \<and>
     (wpc s = W_wait \<and> (0 < read_sem s \<or> rpc s \<in> {R_check, R_write, R_post}) \<longrightarrow> 0 < cnt (seg s)) \<and>
     (wpc s = W_done \<longrightarrow> cnt (seg s) = 0 \<and> winput s = []) \<and>
     (rpc s = R_done \<longrightarrow> wpc s \<in> {W_check, W_done} \<and> cnt (seg s) = 0 \<and> winput s = []) \<and>
     (wpc s = W_check \<longrightarrow> 0 < read_sem s \<or> rpc s \<noteq> R_wait \<or> 0 < write_sem s) \<and>
     (wpc s = W_done \<longrightarrow> 0 < read_sem s \<or> rpc s \<in> {R_check, R_done}) \<and>
     (wpc s = W_check \<and> cnt (seg s) = 0 \<longrightarrow> 0 < read_sem s \<or> rpc s \<in> {R_check, R_done})"

lemma xfer_inv_start: "xfer_inv inp (xfer_start 1 0 sg inp)"
  by (simp add: xfer_inv_def xfer_start_def w_holds_def r_holds_def in_transit_def)

lemma fill_seg_cnt [simp]: "cnt (fill_seg sg chunk) = int (length chunk)"
  and fill_seg_take [simp]: "take (length chunk) (sbuf (fill_seg sg chunk)) = chunk"
  and fill_seg_length: "length chunk \<le> length (sbuf (fill_seg sg chunk))"
  by (simp_all add: fill_seg_def)

lemmas xfer_defs = xfer_inv_def w_holds_def r_holds_def in_transit_def

lemma xfer_inv_read:
  assumes "wpc s = W_read" and "can_read (winput s) k" and "xfer_inv whole s"
  shows "xfer_inv whole (s\<lparr>wpc := W_post, seg := fill_seg (seg s) (take k (winput s)), winput := drop k (winput s)\<rparr>)"
proof -
  have k: "length (take k (winput s)) = k" using assms(2) by (simp add: can_read_def)
  show ?thesis
    using assms k fill_seg_length[of "take k (winput s)" "seg s"] fill_seg_take[of "take k (winput s)" "seg s"]
    by (cases "rpc s") (auto simp: xfer_defs can_read_def)
qed

lemma xfer_inv_step:
  assumes "xfer_step s t" and "xfer_inv whole s"
  shows "xfer_inv whole t"
  using assms(1)
proof cases
  case (w_read k)
  then show ?thesis using xfer_inv_read assms(2) by blast
next
  case w_wait
  then show ?thesis using assms(2) by (cases "rpc s") (auto simp: xfer_defs)
next
  case w_read_fails
  then show ?thesis using assms(2) by (cases "rpc s") (auto simp: xfer_defs)
next
  case w_post
  then show ?thesis using assms(2) by (cases "rpc s") (simp_all add: xfer_defs)
next
  case w_check
  then show ?thesis using assms(2) by (cases "rpc s") (auto simp: xfer_defs)
next
  case r_wait
  then show ?thesis using assms(2) by (cases "wpc s") (auto simp: xfer_defs)
next
  case r_eof
  then show ?thesis using assms(2) by (cases "wpc s") (auto simp: xfer_defs)
next
  case (r_check n)
  then show ?thesis using assms(2) by (cases "wpc s") (simp_all add: xfer_defs int_add_def split: if_splits)
next
  case r_write
  then show ?thesis using assms(2) by (cases "wpc s") (auto simp: xfer_defs)
next
  case r_write_fails
  then show ?thesis using assms(2) by (cases "wpc s") (auto simp: xfer_defs)
next
  case (r_post n)
  then show ?thesis using assms(2) by (cases "wpc s") (simp_all add: xfer_defs int_add_def split: if_splits)
qed

interpretation token: kept xfer_step "xfer_inv whole" for whole
  by unfold_locales (rule xfer_inv_step)

lemmas xfer_reach = token.reach[OF _ xfer_inv_start]





section \<open>How many steps are left\<close>






section \<open>Where both programs stop\<close>




section \<open>Properties\<close>

text \<open>
  Nothing is lost, repeated or reordered: at every moment of every run (semaphores new), under
  any interleaving, any short reads and any failing call, what the reader has written is a prefix of
  the writer's input, and the writer and the reader are never both between \<open>sem_wait\<close> and
  \<open>sem_post\<close>.
\<close>

theorem xfer_prefix:
  assumes "xfer_step\<^sup>*\<^sup>* (xfer_run None None sg inp) s"
  shows "routput s = take (length (routput s)) inp \<and>
    \<not> (wpc s \<in> {W_read, W_post} \<and> rpc s \<in> {R_check, R_write, R_post})"
proof -
  have i: "xfer_inv inp s" using assms xfer_reach by (fastforce simp: xfer_run_def sem_open_def)
  then have "routput s @ in_transit s @ winput s = inp" by (simp add: xfer_inv_def)
  then have "routput s = take (length (routput s)) inp" by (metis append_eq_conv_conj)
  moreover have "w_holds s + r_holds s \<le> 1" using i by (simp add: xfer_inv_def)
  ultimately show ?thesis by (auto simp: w_holds_def r_holds_def split: if_splits)
qed


text \<open>A run on one byte, from its first step to its last.\<close>

definition some_seg :: shmseg where
  "some_seg = \<lparr>cnt = 0, sbuf = replicate SHM_BUF (CHR 0x00)\<rparr>"

lemmas xfer_Suc = run_Suc[of xfer_step]

abbreviation one_byte :: xfer where
  "one_byte \<equiv> xfer_run None None some_seg ''x''"

lemma one_byte_run:
  "(xfer_step ^^ 14) one_byte
     \<lparr>write_sem = 0, read_sem = 0, seg = fill_seg (fill_seg some_seg ''x'') [], wpc = W_done, winput = [],
      rpc = R_done, routput = ''x'', rbytes = 1, xfrs = 1\<rparr>"
proof -
  let ?f = "fill_seg some_seg ''x''" and ?g = "fill_seg (fill_seg some_seg ''x'') []"
  let ?s1 = "one_byte\<lparr>wpc := W_read, write_sem := 0\<rparr>"
  let ?s2 = "?s1\<lparr>wpc := W_post, seg := ?f, winput := []\<rparr>"
  let ?s3 = "?s2\<lparr>wpc := W_check, read_sem := 1\<rparr>"
  let ?s4 = "?s3\<lparr>wpc := W_wait\<rparr>"
  let ?s5 = "?s4\<lparr>rpc := R_check, read_sem := 0\<rparr>"
  let ?s6 = "?s5\<lparr>rpc := R_write, rbytes := 1\<rparr>"
  let ?s7 = "?s6\<lparr>rpc := R_post, routput := ''x''\<rparr>"
  let ?s8 = "?s7\<lparr>rpc := R_wait, write_sem := 1, xfrs := 1\<rparr>"
  let ?s9 = "?s8\<lparr>wpc := W_read, write_sem := 0\<rparr>"
  let ?s10 = "?s9\<lparr>wpc := W_post, seg := ?g, winput := []\<rparr>"
  let ?s11 = "?s10\<lparr>wpc := W_check, read_sem := 1\<rparr>"
  let ?s12 = "?s11\<lparr>wpc := W_done\<rparr>"
  let ?s13 = "?s12\<lparr>rpc := R_check, read_sem := 0\<rparr>"
  note d = xfer_run_def sem_open_def xfer_start_def
  note r = int_add_def int_range_def INT_MIN_def INT_MAX_def
  have fourteen: "14 = Suc (Suc (Suc (Suc (Suc (Suc (Suc (Suc (Suc (Suc (Suc (Suc (Suc (Suc (0))))))))))))))"
    by simp
  have 1: "xfer_step one_byte ?s1" using w_wait[of one_byte] by (simp add: d)
  have 2: "xfer_step ?s1 ?s2" using w_read[of ?s1 1] by (simp add: d can_read_def SHM_BUF_def)
  have 3: "xfer_step ?s2 ?s3" using w_post[of ?s2] by (simp add: d)
  have 4: "xfer_step ?s3 ?s4" using w_check[of ?s3] by (simp add: d)
  have 5: "xfer_step ?s4 ?s5" using r_wait[of ?s4] by (simp add: d)
  have 6: "xfer_step ?s5 ?s6" using r_check[of ?s5 1] by (simp add: d r)
  have 7: "xfer_step ?s6 ?s7" using r_write[of ?s6] by (simp add: d fill_seg_def)
  have 8: "xfer_step ?s7 ?s8" using r_post[of ?s7 1] by (simp add: d r)
  have 9: "xfer_step ?s8 ?s9" using w_wait[of ?s8] by (simp add: d)
  have 10: "xfer_step ?s9 ?s10" using w_read[of ?s9 0] by (simp add: d can_read_def)
  have 11: "xfer_step ?s10 ?s11" using w_post[of ?s10] by (simp add: d)
  have 12: "xfer_step ?s11 ?s12" using w_check[of ?s11] by (simp add: d)
  have 13: "xfer_step ?s12 ?s13" using r_wait[of ?s12] by (simp add: d)
  have 14: "xfer_step ?s13 (?s13\<lparr>rpc := R_done\<rparr>)" by (rule r_eof) (simp_all add: d)
  have "(xfer_step ^^ 14) one_byte (?s13\<lparr>rpc := R_done\<rparr>)"
    unfolding fourteen
    by (rule xfer_Suc[OF 1] xfer_Suc[OF 2] xfer_Suc[OF 3] xfer_Suc[OF 4]
        xfer_Suc[OF 5] xfer_Suc[OF 6] xfer_Suc[OF 7] xfer_Suc[OF 8] xfer_Suc[OF 9]
        xfer_Suc[OF 10] xfer_Suc[OF 11] xfer_Suc[OF 12] xfer_Suc[OF 13] xfer_Suc[OF 14]
        relpowp_0_I)+
  then show ?thesis by (simp add: d)
qed

theorem xfer_prefix_witness:
  "routput one_byte = take (length (routput one_byte)) ''x'' \<and> wpc one_byte = W_wait"
  using xfer_prefix[of some_seg "''x''" one_byte] by (simp add: xfer_run_def xfer_start_def)


text \<open>
  A second run never starts: the semaphores are opened with \<open>O_CREAT\<close> and never unlinked or
  reset, and the reader leaves its loop without giving the token back; when both programs are run again
  after a complete first run, the writer and the reader wait for each other from the beginning.
\<close>

theorem xfer_second_run_deadlocks:
  assumes "xfer_step\<^sup>*\<^sup>* (xfer_run None None sg inp) s" and "wpc s = W_done" and "rpc s = R_done"
  shows "stopped xfer_step (xfer_run (Some (write_sem s)) (Some (read_sem s)) (seg s) inp')"
proof -
  have "xfer_inv inp s" using assms(1) xfer_reach by (fastforce simp: xfer_run_def sem_open_def)
  then have "write_sem s = 0" "read_sem s = 0" using assms(2,3) by (auto simp: xfer_inv_def r_holds_def)
  then show ?thesis
    by (auto simp: stopped_def xfer_run_def sem_open_def xfer_start_def elim!: xfer_stepE)
qed

theorem xfer_second_run_deadlocks_witness:
  "stopped xfer_step (xfer_run (Some 0) (Some 0) (fill_seg (fill_seg some_seg ''x'') []) ''hello'')"
  using xfer_second_run_deadlocks[OF relpowp_imp_rtranclp[OF one_byte_run], of "''hello''"] by simp

end
