(* ===== verification/XferSpec.thy ===== *)
theory XferSpec
  imports SemXfer
begin

text \<open>
  The two programs of SP_HW9/54_1 as a buffer with one place: an abstract system without semaphores, in
  which the writer puts a block of its input into the empty buffer and the reader takes it out.
\<close>

section \<open>The buffer with one place\<close>






section \<open>Every step is a step of the buffer or none\<close>



section \<open>Every step of the buffer can be made\<close>







section \<open>The programs are the buffer\<close>



end
