(* ===== verification/RingBuf.thy ===== *)
theory RingBuf
  imports CProc StepSys "HOL-Library.Signed_Division"
begin

text \<open>
  SP_HW10: a producer writes numbered messages round a ring of \<open>b\<close> slots in shared memory and
  tells each of \<open>n\<close> consumers about every message with a queued signal that carries its number;
  the consumers' signal handler counts the message as received when the slot still has that number, as
  lost otherwise.  Every statement of the producer's loop and of the handler that touches shared
  memory or a signal queue is one step, the increment of a counter is a load and a store; the text and the
  number of a message are written in one step, since no one reads the text.
\<close>

section \<open>State\<close>

text \<open>The producer: at the head of the loop with \<open>i\<close>, in the loop over the consumers, or behind it.\<close>

datatype producer_pc = P_msg nat | P_send nat nat | P_done

text \<open>
  A consumer: in \<open>pause\<close>, or in the handler: before the increment of one of the counters, and
  between its load and its store.  For a lost message the handler still has its number to print.
\<close>

datatype handler_pc = H_idle | H_hit | H_add int | H_miss nat | H_loss nat int

record ring =
  slot_num :: "nat \<Rightarrow> nat"
  slot_buf :: "nat \<Rightarrow> string"
  producer :: producer_pc
  sigs :: "nat \<Rightarrow> nat list"
  hand :: "nat \<Rightarrow> handler_pc"
  rcnt :: int
  loss_cnt :: int
  rout :: string

definition BUFSIZE :: nat where "BUFSIZE = 80"

definition message :: "nat \<Rightarrow> string" where
  "message i = take (BUFSIZE - 1) (''This is message '' @ dec (int i))"

text \<open>After the forks; the slots hold whatever the shared memory object held.\<close>

definition ring_start :: "(nat \<Rightarrow> nat) \<Rightarrow> (nat \<Rightarrow> string) \<Rightarrow> ring" where
  "ring_start nums bufs = \<lparr>slot_num = nums, slot_buf = bufs, producer = P_msg 0, sigs = (\<lambda>_. []), hand = (\<lambda>_. H_idle),
     rcnt = 0, loss_cnt = 0, rout = []\<rparr>"

section \<open>Before the loop\<close>

definition atol :: "string \<Rightarrow> int" where
  "atol a = sl_value (strtol a 10)"

definition ring_usage :: "string \<Rightarrow> string" where
  "ring_usage prog = ''Usage: '' @ prog
     @ '' <'' @ [CHR 0xE8, CHR 0xB3, CHR 0x87, CHR 0xE6, CHR 0x96, CHR 0x99, CHR 0xE6, CHR 0x95, CHR 0xB8, CHR 0xE9, CHR 0x87, CHR 0x8F]
     @ '' M> <'' @ [CHR 0xE5, CHR 0x82, CHR 0xB3, CHR 0xE9, CHR 0x80, CHR 0x81, CHR 0xE9, CHR 0x96, CHR 0x93, CHR 0xE9, CHR 0x9A, CHR 0x94]
     @ '' R> <consumer'' @ [CHR 0xE6, CHR 0x95, CHR 0xB8, CHR 0xE9, CHR 0x87, CHR 0x8F] @ '' N> <buffer size B>'' @ [newline]"

record ring_args =
  arg_m :: int
  arg_r :: int
  arg_n :: int
  arg_b :: int

text \<open>
  The arguments, the shared memory, the signal handler and the forks.  \<open>calls\<close> tells how the calls
  fare, \<open>forks\<close> each \<open>fork\<close>.  The kernel refuses (\<open>EINVAL\<close>, 22) to truncate to a
  negative length and to map nothing; the array of pids needs a positive length.
\<close>

definition ring_begin :: "os \<Rightarrow> (nat \<Rightarrow> int option) \<Rightarrow> (nat \<Rightarrow> int option) \<Rightarrow> string list \<Rightarrow> (ring_args, proc) cmd" where
  "ring_begin os calls forks argv =
     (if length argv \<noteq> 5 then seqc (printf (ring_usage (argv ! 0))) (exitc 1)
      else let a = \<lparr>arg_m = atol (argv ! 1), arg_r = atol (argv ! 2), arg_n = atol (argv ! 3), arg_b = to_int32 (atol (argv ! 4))\<rparr> in
        seqc (checked os
          [(''shm_open'', calls 0), (''ftruncate'', if arg_b a < 0 then Some 22 else calls 1),
           (''shm_open_cnt'', calls 2), (''ftruncate_cnt'', calls 3),
           (''mmap'', if arg_b a = 0 then Some 22 else calls 4), (''mmap_cnt'', calls 5), (''sigaction'', calls 6)])
        (seqc (printf (''Please wait'' @ [newline]))
        (if arg_n a \<le> 0 then undefc Out_of_bounds
         else seqc (checked os (map (\<lambda>i. (''fork'', forks i)) [0 ..< nat (arg_n a)])) (ret a))))"

text \<open>
  How long the producer sleeps after a message, if it does, from the times (seconds and nanoseconds) it
  took; \<open>r * 1000\<close> must fit a \<open>long\<close>.
\<close>

definition pause_time :: "int \<Rightarrow> int \<times> int \<Rightarrow> int \<times> int \<Rightarrow> int option outcome" where
  "pause_time r start end =
     (let elapsed = (fst end - fst start) * 1000000 + (snd end - snd start) sdiv 1000; w = r * 1000
      in if w < LONG_MIN \<or> LONG_MAX < w then Undef Signed_overflow
         else Ok (if elapsed < w then Some (w - elapsed) else None))"

lemma pause_time_interval:
  assumes "pause_time r start end = Ok p"
  shows "r * 1000 \<le> (fst end - fst start) * 1000000 + (snd end - snd start) sdiv 1000 + (case p of None \<Rightarrow> 0 | Some d \<Rightarrow> d)
    \<and> (case p of None \<Rightarrow> True | Some d \<Rightarrow> 0 < d)"
  using assms by (auto simp: pause_time_def Let_def split: if_splits)

section \<open>Steps\<close>

definition hand_to :: "nat \<Rightarrow> handler_pc \<Rightarrow> ring \<Rightarrow> ring" where
  "hand_to j h s = s\<lparr>hand := (hand s)(j := h)\<rparr>"

text \<open>
  What the system does with a signal for a process that has one pending already: it queues them all
  (as POSIX asks of \<open>sigqueue\<close> with \<open>SA_SIGINFO\<close>); it does, up to a limit at which
  \<open>sigqueue\<close> fails; or it drops the new one without an error, as Linux does with \<open>SIGUSR1\<close>,
  which is not a realtime signal.
\<close>

datatype queueing = Queued | Limited | Merged

text \<open>\<open>m\<close> messages, \<open>n\<close> consumers, \<open>b\<close> slots.\<close>

inductive ring_step :: "nat \<Rightarrow> nat \<Rightarrow> nat \<Rightarrow> queueing \<Rightarrow> ring \<Rightarrow> ring \<Rightarrow> bool"
  for m n b qu where
  p_write: "producer s = P_msg i \<Longrightarrow> i < m \<Longrightarrow>
    ring_step m n b qu s
      (s\<lparr>producer := P_send i 0, slot_buf := (slot_buf s)(i mod b := message i), slot_num := (slot_num s)(i mod b := i)\<rparr>)"
| p_send: "producer s = P_send i j \<Longrightarrow> j < n \<Longrightarrow> qu \<noteq> Merged \<or> sigs s j = [] \<Longrightarrow>
    ring_step m n b qu s (s\<lparr>producer := P_send i (Suc j), sigs := (sigs s)(j := sigs s j @ [i])\<rparr>)"
| p_send_fails: "producer s = P_send i j \<Longrightarrow> j < n \<Longrightarrow> qu = Limited \<Longrightarrow>
    ring_step m n b qu s (s\<lparr>producer := P_send i (Suc j)\<rparr>)"
| p_send_merged: "producer s = P_send i j \<Longrightarrow> j < n \<Longrightarrow> qu = Merged \<Longrightarrow> sigs s j \<noteq> [] \<Longrightarrow>
    ring_step m n b qu s (s\<lparr>producer := P_send i (Suc j)\<rparr>)"
| p_next: "producer s = P_send i n \<Longrightarrow> int_range (int i + 1) \<Longrightarrow> ring_step m n b qu s (s\<lparr>producer := P_msg (Suc i)\<rparr>)"
| p_end: "producer s = P_msg i \<Longrightarrow> m \<le> i \<Longrightarrow> ring_step m n b qu s (s\<lparr>producer := P_done\<rparr>)"
| c_compare: "j < n \<Longrightarrow> hand s j = H_idle \<Longrightarrow> sigs s j = v # q \<Longrightarrow>
    ring_step m n b qu s
      (hand_to j (if v = slot_num s (v mod b) then H_hit else H_miss v) (s\<lparr>sigs := (sigs s)(j := q)\<rparr>))"
| c_load: "j < n \<Longrightarrow> hand s j = H_hit \<Longrightarrow> ring_step m n b qu s (hand_to j (H_add (rcnt s)) s)"
| c_store: "j < n \<Longrightarrow> hand s j = H_add c \<Longrightarrow> int_add c 1 = Ok c' \<Longrightarrow>
    ring_step m n b qu s (hand_to j H_idle (s\<lparr>rcnt := c'\<rparr>))"
| l_load: "j < n \<Longrightarrow> hand s j = H_miss v \<Longrightarrow> ring_step m n b qu s (hand_to j (H_loss v (loss_cnt s)) s)"
| l_store: "j < n \<Longrightarrow> hand s j = H_loss v c \<Longrightarrow> int_add c 1 = Ok c' \<Longrightarrow>
    ring_step m n b qu s
      (hand_to j H_idle (s\<lparr>loss_cnt := c', rout := rout s @ ''Lost message: '' @ dec (int v) @ [newline]\<rparr>))"

inductive_cases ring_stepE: "ring_step m n b qu s t"

section \<open>Behind the loop\<close>

text \<open>The numbers of the report: all messages, received ones, lost ones.\<close>

definition ring_report :: "int \<Rightarrow> int \<Rightarrow> ring \<Rightarrow> int \<times> int \<times> int" where
  "ring_report m n s = (to_int32 (m * n), rcnt s, loss_cnt s)"

text \<open>
  The report and the cleaning up; \<open>rate cnt total\<close> is what \<open>%.6f\<close> prints of the
  floating-point number \<open>1.0 - cnt / total\<close>.
\<close>

definition ring_end :: "os \<Rightarrow> (nat \<Rightarrow> int option) \<Rightarrow> (int \<Rightarrow> int \<Rightarrow> string) \<Rightarrow> ring_args \<Rightarrow> ring \<Rightarrow> (unit, proc) cmd" where
  "ring_end os calls rate a s = (case ring_report (arg_m a) (arg_n a) s of (allm, got, lost) \<Rightarrow>
     seqc (eprintf (''M: '' @ dec (arg_m a) @ '' R: '' @ dec (arg_r a) @ ''ms N: '' @ dec (arg_n a) @ '' B: '' @ dec (arg_b a)
       @ newline # ''-------------------------------'' @ [newline, newline]))
     (seqc (eprintf (''Total messages: '' @ dec allm @ [newline]))
     (seqc (eprintf (''Received messages: '' @ dec got @ [newline]))
     (seqc (eprintf (''Loss rate: '' @ rate got allm @ [newline]))
     (seqc (printf (''-------------------------------'' @ [newline]))
     (seqc (printf (''Lost messages: '' @ dec lost @ [newline]))
     (seqc (warned os [(''munmap'', calls 0), (''munmap_cnt'', calls 1), (''shm_unlink'', calls 2), (''shm_unlink_cnt'', calls 3)])
     (exitc 0))))))))"

text \<open>Whatever fails in the cleaning up, the report is complete and the status is 0.\<close>

lemma ring_end_status:
  "\<exists>q. ring_end os calls rate a s p = (Exit 0, q) \<and>
     pout q = pout p @ ''-------------------------------'' @ newline # ''Lost messages: '' @ dec (loss_cnt s) @ [newline]"
  unfolding ring_end_def ring_report_def prod.case seqc_Ok[OF eprintf_app] seqc_Ok[OF printf_app]
  by (rule warned_exit) simp

section \<open>Overwritten messages\<close>

text \<open>How many messages the producer has written.\<close>

definition written :: "nat \<Rightarrow> ring \<Rightarrow> nat" where
  "written m s = (case producer s of P_msg i \<Rightarrow> i | P_send i _ \<Rightarrow> Suc i | P_done \<Rightarrow> m)"






section \<open>Counting\<close>

definition busy :: "handler_pc \<Rightarrow> nat" where
  "busy h = (if h = H_idle then 0 else 1)"

text \<open>The signals sent, and those whose handler has not ended.\<close>

definition sent :: "nat \<Rightarrow> nat \<Rightarrow> ring \<Rightarrow> nat" where
  "sent m n s = (case producer s of P_msg i \<Rightarrow> i * n | P_send i j \<Rightarrow> i * n + j | P_done \<Rightarrow> m * n)"

definition unhandled :: "nat \<Rightarrow> ring \<Rightarrow> nat" where
  "unhandled n s = (\<Sum>j<n. length (sigs s j) + busy (hand s j))"

lemma sum_upd:
  fixes f g :: "nat \<Rightarrow> nat"
  assumes "j < n" and "\<And>i. i \<noteq> j \<Longrightarrow> f i = g i"
  shows "(\<Sum>i<n. f i) + g j = (\<Sum>i<n. g i) + f j"
proof -
  have "(\<Sum>i<n. h i) = h j + (\<Sum>i \<in> {..<n} - {j}. h i)" for h :: "nat \<Rightarrow> nat"
    using assms(1) by (simp add: sum.remove)
  moreover have "(\<Sum>i \<in> {..<n} - {j}. f i) = (\<Sum>i \<in> {..<n} - {j}. g i)"
    using assms(2) by (intro sum.cong) auto
  ultimately show ?thesis by simp
qed

lemma unhandled_hand:
  "j < n \<Longrightarrow> unhandled n (hand_to j h s) + busy (hand s j) = unhandled n s + busy h"
  using sum_upd[of j n "\<lambda>i. length (sigs s i) + busy (((hand s)(j := h)) i)" "\<lambda>i. length (sigs s i) + busy (hand s i)"]
  by (simp add: unhandled_def hand_to_def)

lemma unhandled_sigs:
  "j < n \<Longrightarrow> unhandled n (s\<lparr>sigs := (sigs s)(j := q)\<rparr>) + length (sigs s j) = unhandled n s + length q"
  using sum_upd[of j n "\<lambda>i. length (((sigs s)(j := q)) i) + busy (hand s i)" "\<lambda>i. length (sigs s i) + busy (hand s i)"]
  by (simp add: unhandled_def)

lemma unhandled_other [simp]:
  "unhandled n (s\<lparr>producer := p\<rparr>) = unhandled n s" "unhandled n (s\<lparr>rcnt := c\<rparr>) = unhandled n s"
  "unhandled n (s\<lparr>loss_cnt := c\<rparr>) = unhandled n s" "unhandled n (s\<lparr>rout := r\<rparr>) = unhandled n s"
  "unhandled n (s\<lparr>slot_num := f\<rparr>) = unhandled n s" "unhandled n (s\<lparr>slot_buf := g\<rparr>) = unhandled n s"
  by (simp_all add: unhandled_def)

text \<open>The values a counter has or is about to get a successor of.\<close>

definition hit_values :: "nat \<Rightarrow> ring \<Rightarrow> int set" where
  "hit_values n s = insert (rcnt s) {c. \<exists>j<n. hand s j = H_add c}"

definition loss_values :: "nat \<Rightarrow> ring \<Rightarrow> int set" where
  "loss_values n s = insert (loss_cnt s) {c. \<exists>j<n. \<exists>v. hand s j = H_loss v c}"

definition count_inv :: "nat \<Rightarrow> nat \<Rightarrow> ring \<Rightarrow> bool" where
  "count_inv m n s \<longleftrightarrow> written m s \<le> m \<and> (\<forall>i j. producer s = P_send i j \<longrightarrow> j \<le> n) \<and>
     (\<forall>a \<in> hit_values n s. \<forall>c \<in> loss_values n s. 0 \<le> a \<and> 0 \<le> c \<and> a + c + int (unhandled n s) \<le> int (sent m n s))"

lemma count_inv_start: "count_inv m n (ring_start nums bufs)"
  by (simp add: count_inv_def hit_values_def loss_values_def ring_start_def written_def unhandled_def sent_def busy_def)

lemma count_inv_change:
  assumes "count_inv m n s" and "written m t \<le> m" and "\<And>i j. producer t = P_send i j \<Longrightarrow> j \<le> n"
    and "\<And>a. a \<in> hit_values n t \<Longrightarrow> \<exists>a' \<in> hit_values n s. a' \<le> a \<and> a \<le> a' + da"
    and "\<And>c. c \<in> loss_values n t \<Longrightarrow> \<exists>c' \<in> loss_values n s. c' \<le> c \<and> c \<le> c' + dc"
    and "da + dc + int (unhandled n t + sent m n s) \<le> int (unhandled n s + sent m n t)"
  shows "count_inv m n t"
  using assms unfolding count_inv_def by (smt (verit) of_nat_add)

lemma same_values:
  "hand t = hand s \<Longrightarrow> rcnt t = rcnt s \<Longrightarrow> hit_values n t = hit_values n s"
  "hand t = hand s \<Longrightarrow> loss_cnt t = loss_cnt s \<Longrightarrow> loss_values n t = loss_values n s"
  by (simp_all add: hit_values_def loss_values_def)

lemma count_inv_producer:
  assumes "count_inv m n s" and "written m t \<le> m" and "\<And>i j. producer t = P_send i j \<Longrightarrow> j \<le> n"
    and "hand t = hand s" "rcnt t = rcnt s" "loss_cnt t = loss_cnt s"
    and "unhandled n t + sent m n s \<le> unhandled n s + sent m n t"
  shows "count_inv m n t"
  by (rule count_inv_change[OF assms(1-3), where da = 0 and dc = 0])
    (use same_values(1)[OF assms(4,5)] same_values(2)[OF assms(4,6)] assms(7) in auto)

lemma count_inv_hand:
  assumes "count_inv m n s" and "producer t = producer s"
    and "\<And>a. a \<in> hit_values n t \<Longrightarrow> a \<in> hit_values n s \<or> a - 1 \<in> hit_values n s \<and> 0 < da"
    and "\<And>c. c \<in> loss_values n t \<Longrightarrow> c \<in> loss_values n s \<or> c - 1 \<in> loss_values n s \<and> 0 < dc"
    and "da + dc + unhandled n t \<le> unhandled n s"
  shows "count_inv m n t"
proof (rule count_inv_change[OF assms(1), where da = "int da" and dc = "int dc"])
  show "\<exists>a' \<in> hit_values n s. a' \<le> a \<and> a \<le> a' + int da" if "a \<in> hit_values n t" for a
    using assms(3)[OF that] by (elim disjE conjE) ((rule bexI[of _ a]; simp), (rule bexI[of _ "a - 1"]; simp))
  show "\<exists>c' \<in> loss_values n s. c' \<le> c \<and> c \<le> c' + int dc" if "c \<in> loss_values n t" for c
    using assms(4)[OF that] by (elim disjE conjE) ((rule bexI[of _ c]; simp), (rule bexI[of _ "c - 1"]; simp))
qed (use assms(1,2,5) in \<open>auto simp: count_inv_def written_def sent_def\<close>)

lemma count_inv_step:
  assumes "ring_step m n b qu s t" and "count_inv m n s"
  shows "count_inv m n t"
  using assms(1)
proof cases
  case (p_write i)
  then show ?thesis
    by (intro count_inv_producer[OF assms(2)]) (auto simp: written_def sent_def)
next
  case (p_send i j)
  then show ?thesis
    using assms(2) unhandled_sigs[of j n s "sigs s j @ [i]"]
    by (intro count_inv_producer[OF assms(2)]) (auto simp: written_def sent_def count_inv_def unhandled_def)
next
  case (p_send_fails i j)
  then show ?thesis
    using assms(2) by (intro count_inv_producer[OF assms(2)]) (auto simp: written_def sent_def count_inv_def)
next
  case (p_send_merged i j)
  then show ?thesis
    using assms(2) by (intro count_inv_producer[OF assms(2)]) (auto simp: written_def sent_def count_inv_def)
next
  case (p_next i)
  then show ?thesis
    using assms(2) by (intro count_inv_producer[OF assms(2)]) (auto simp: written_def sent_def count_inv_def)
next
  case (p_end i)
  then show ?thesis
    using assms(2) by (intro count_inv_producer[OF assms(2)]) (auto simp: written_def sent_def count_inv_def)
next
  case (c_compare j v q)
  let ?h = "if v = slot_num s (v mod b) then H_hit else H_miss v"
  let ?u = "s\<lparr>sigs := (sigs s)(j := q)\<rparr>"
  have "unhandled n t \<le> unhandled n s"
    using c_compare unhandled_hand[of j n ?h ?u] unhandled_sigs[of j n s q] by (auto simp: busy_def)
  then show ?thesis
    using c_compare by (intro count_inv_hand[OF assms(2), where da = 0 and dc = 0]) (auto simp: hand_to_def hit_values_def loss_values_def split: if_splits)
next
  case (c_load j)
  then show ?thesis
    using unhandled_hand[of j n "H_add (rcnt s)" s]
    by (intro count_inv_hand[OF assms(2), where da = 0 and dc = 0]) (auto simp: hand_to_def hit_values_def loss_values_def busy_def split: if_splits)
next
  case (c_store j c c')
  then show ?thesis
    using unhandled_hand[of j n H_idle "s\<lparr>rcnt := c'\<rparr>"]
    by (intro count_inv_hand[OF assms(2), where da = 1 and dc = 0])
      (auto simp: hand_to_def hit_values_def loss_values_def busy_def int_add_Ok_iff split: if_splits)
next
  case (l_load j v)
  then show ?thesis
    using unhandled_hand[of j n "H_loss v (loss_cnt s)" s]
    by (intro count_inv_hand[OF assms(2), where da = 0 and dc = 0]) (auto simp: hand_to_def hit_values_def loss_values_def busy_def split: if_splits)
next
  case (l_store j v c c')
  then show ?thesis
    using unhandled_hand[of j n H_idle "s\<lparr>loss_cnt := c', rout := rout s @ ''Lost message: '' @ dec (int v) @ [newline]\<rparr>"]
    by (intro count_inv_hand[OF assms(2), where da = 0 and dc = 1])
      (auto simp: hand_to_def hit_values_def loss_values_def busy_def int_add_Ok_iff split: if_splits)
qed

interpretation counts: kept "ring_step m n b qu" "count_inv m n" for m n b qu
  by unfold_locales (rule count_inv_step)

text \<open>With one consumer and every signal queued no signal is unaccounted for.\<close>

definition single_inv :: "nat \<Rightarrow> ring \<Rightarrow> bool" where
  "single_inv m s \<longleftrightarrow> written m s \<le> m \<and> (\<forall>i j. producer s = P_send i j \<longrightarrow> j \<le> 1) \<and>
     (\<forall>c. hand s 0 = H_add c \<longrightarrow> c = rcnt s) \<and> (\<forall>v c. hand s 0 = H_loss v c \<longrightarrow> c = loss_cnt s) \<and>
     rcnt s + loss_cnt s + int (length (sigs s 0) + busy (hand s 0)) = int (sent m 1 s)"

lemma single_inv_step: "ring_step m (Suc 0) b Queued s t \<Longrightarrow> single_inv m s \<Longrightarrow> single_inv m t"
  by (erule ring_stepE)
    (simp_all add: single_inv_def written_def sent_def hand_to_def busy_def int_add_Ok_iff split: if_splits)

interpretation single: kept "ring_step m (Suc 0) b Queued" "single_inv m" for m b
  by unfold_locales (rule single_inv_step)

lemma single_inv_start: "single_inv m (ring_start nums bufs)"
  by (simp add: single_inv_def ring_start_def written_def sent_def busy_def)

section \<open>Every run ends\<close>








definition ring_done :: "nat \<Rightarrow> ring \<Rightarrow> bool" where
  "ring_done n s \<longleftrightarrow> producer s = P_done \<and> unhandled n s = 0"

lemma unhandled_0: "unhandled n s = 0 \<longleftrightarrow> (\<forall>j<n. sigs s j = [] \<and> hand s j = H_idle)"
  by (auto simp: unhandled_def busy_def)

lemma sent_bound: "count_inv m n s \<Longrightarrow> sent m n s \<le> m * n"
proof (cases "producer s")
  case (P_send i' j)
  assume i: "count_inv m n s"
  then have "Suc i' \<le> m" "j \<le> n" using P_send by (auto simp: count_inv_def written_def)
  then have "i' * n + n \<le> m * n" by (metis add.commute mult_Suc mult_le_mono1)
  then show ?thesis using P_send \<open>j \<le> n\<close> by (simp add: sent_def)
qed (auto simp: count_inv_def written_def sent_def)




section \<open>Properties\<close>


lemma one_signal_run:
  "(ring_step 1 1 1 Queued)\<^sup>*\<^sup>* (ring_start (\<lambda>_. 0) (\<lambda>_. []))
     ((ring_start (\<lambda>_. 0) (\<lambda>_. []))\<lparr>producer := P_send 0 1, slot_buf := (\<lambda>_. [])(0 := message 0), sigs := (\<lambda>_. [])(0 := [0])\<rparr>)"
proof -
  let ?z = "ring_start (\<lambda>_. 0) (\<lambda>_. [])"
  let ?a = "?z\<lparr>producer := P_send 0 0, slot_buf := (slot_buf ?z)(0 mod 1 := message 0), slot_num := (slot_num ?z)(0 mod 1 := 0)\<rparr>"
  have "ring_step 1 1 1 Queued ?z ?a" by (rule p_write) (simp_all add: ring_start_def)
  moreover have "ring_step 1 1 1 Queued ?a (?a\<lparr>producer := P_send 0 (Suc 0), sigs := (sigs ?a)(0 := sigs ?a 0 @ [0])\<rparr>)"
    by (rule p_send) simp_all
  ultimately have "(ring_step 1 1 1 Queued)\<^sup>*\<^sup>* ?z (?a\<lparr>producer := P_send 0 (Suc 0), sigs := (sigs ?a)(0 := sigs ?a 0 @ [0])\<rparr>)"
    by (meson converse_rtranclp_into_rtranclp r_into_rtranclp)
  then show ?thesis by (simp add: ring_start_def fun_upd_def if_distrib cong: if_cong)
qed


text \<open>
  C31: The counters: at every moment the received and the lost messages and the signals still to be
  handled are together at most the signals sent, so at most \<open>m n\<close>; with one consumer and a system
  that queues every signal they are exactly the signals sent.
\<close>

theorem ring_counts:
  assumes "(ring_step m n b qu)\<^sup>*\<^sup>* (ring_start nums bufs) s"
  shows "0 \<le> rcnt s \<and> 0 \<le> loss_cnt s \<and> rcnt s + loss_cnt s + int (unhandled n s) \<le> int (sent m n s) \<and> sent m n s \<le> m * n
    \<and> (n \<noteq> 1 \<or> qu \<noteq> Queued \<or> rcnt s + loss_cnt s + int (unhandled 1 s) = int (sent m 1 s))"
proof -
  have i: "count_inv m n s" by (rule counts.reach[OF assms count_inv_start])
  then have "0 \<le> rcnt s \<and> 0 \<le> loss_cnt s \<and> rcnt s + loss_cnt s + int (unhandled n s) \<le> int (sent m n s)"
    by (simp add: count_inv_def hit_values_def loss_values_def)
  moreover have "sent m n s \<le> m * n" by (rule sent_bound[OF i])
  moreover have "rcnt s + loss_cnt s + int (unhandled 1 s) = int (sent m 1 s)" if "n = 1" "qu = Queued"
    using single.reach[OF _ single_inv_start] assms that by (fastforce simp: single_inv_def unhandled_def)
  ultimately show ?thesis by blast
qed

theorem ring_counts_witness:
  "sent 1 1 ((ring_start (\<lambda>_. 0) (\<lambda>_. []))\<lparr>producer := P_send 0 1, slot_buf := (\<lambda>_. [])(0 := message 0), sigs := (\<lambda>_. [])(0 := [0])\<rparr>) = 1"
  using ring_counts[OF one_signal_run] by (simp add: ring_start_def unhandled_def busy_def)



text \<open>
  Messages that vanish: \<open>SIGUSR1\<close> is not a realtime signal, and on a system that keeps only one of
  them pending a consumer that is not scheduled between two messages never hears of the second one.  It
  counts as neither received nor lost, although the ring has room for both.
\<close>

theorem ring_merged_signal:
  "\<exists>s. (ring_step 2 1 (b + 2) Merged)\<^sup>*\<^sup>* (ring_start nums bufs) s \<and> ring_done 1 s \<and> ring_report 2 1 s = (2, 1, 0)"
proof -
  let ?z = "ring_start nums bufs"
  let ?a = "?z\<lparr>producer := P_send 0 0, slot_buf := (slot_buf ?z)(0 mod (b + 2) := message 0), slot_num := (slot_num ?z)(0 mod (b + 2) := 0)\<rparr>"
  let ?b = "?a\<lparr>producer := P_send 0 1, sigs := (sigs ?a)(0 := [0])\<rparr>"
  let ?c = "?b\<lparr>producer := P_msg 1\<rparr>"
  let ?d = "?c\<lparr>producer := P_send 1 0, slot_buf := (slot_buf ?c)(1 mod (b + 2) := message 1), slot_num := (slot_num ?c)(1 mod (b + 2) := 1)\<rparr>"
  let ?e = "?d\<lparr>producer := P_send 1 1\<rparr>"
  let ?f = "?e\<lparr>producer := P_msg 2\<rparr>"
  let ?g = "hand_to 0 H_hit (?f\<lparr>sigs := (sigs ?f)(0 := [])\<rparr>)"
  let ?h = "hand_to 0 (H_add 0) ?g"
  let ?i = "hand_to 0 H_idle (?h\<lparr>rcnt := 1\<rparr>)"
  let ?R = "ring_step 2 1 (b + 2) Merged"
  note d = ring_start_def hand_to_def int_add_def int_range_def INT_MIN_def INT_MAX_def
  have 1: "?R ?z ?a" by (rule p_write) (simp_all add: d)
  have 2: "?R ?a ?b" using p_send[of ?a 0 0 1 Merged 2 "b + 2"] by (simp add: d)
  have 3: "?R ?b ?c" using p_next[of ?b 0 1 2 "b + 2" Merged] by (simp add: d)
  have 4: "?R ?c ?d" by (rule p_write) (simp_all add: d)
  have 5: "?R ?d ?e" using p_send_merged[of ?d 1 0 1 Merged 2 "b + 2"] by (simp add: d)
  have 6: "?R ?e ?f" using p_next[of ?e 1 1 2 "b + 2" Merged] by (simp add: d numeral_2_eq_2)
  have 7: "?R ?f ?g" using c_compare[of 0 1 ?f 0 "[]" 2 "b + 2" Merged] by (simp add: d)
  have 8: "?R ?g ?h" using c_load[of 0 1 ?g 2 "b + 2" Merged] by (simp add: d)
  have 9: "?R ?h ?i" by (rule c_store[where c = 0]) (simp_all add: d)
  have 10: "?R ?i (?i\<lparr>producer := P_done\<rparr>)" by (rule p_end[where i = 2]) (simp_all add: d)
  note run = converse_rtranclp_into_rtranclp[of ?R]
  have "?R\<^sup>*\<^sup>* ?z (?i\<lparr>producer := P_done\<rparr>)"
    by (rule run[OF 1] run[OF 2] run[OF 3] run[OF 4] run[OF 5] run[OF 6] run[OF 7] run[OF 8] run[OF 9] run[OF 10]
        rtranclp.rtrancl_refl)+
  moreover have "ring_done 1 (?i\<lparr>producer := P_done\<rparr>)"
    by (simp add: ring_done_def unhandled_0 hand_to_def ring_start_def)
  moreover have "ring_report 2 1 (?i\<lparr>producer := P_done\<rparr>) = (2, 1, 0)"
    by (simp add: ring_report_def hand_to_def ring_start_def to_int32_small int_range_def INT_MIN_def INT_MAX_def)
  ultimately show ?thesis by blast
qed

text \<open>
  A lost update: the handlers of two consumers add to the same counter in shared memory without
  any lock; there is a run in which both receive the one message and neither loses it, all is handled,
  and the producer reports one received message and no lost one out of two.
\<close>

theorem ring_lost_update:
  "\<exists>s. (ring_step 1 2 b Queued)\<^sup>*\<^sup>* (ring_start nums bufs) s \<and> producer s = P_done \<and> unhandled 2 s = 0 \<and>
     ring_report 1 2 s = (2, 1, 0)"
proof -
  let ?z = "ring_start nums bufs"
  let ?a = "?z\<lparr>producer := P_send 0 0, slot_buf := (slot_buf ?z)(0 mod b := message 0), slot_num := (slot_num ?z)(0 mod b := 0)\<rparr>"
  let ?b = "?a\<lparr>producer := P_send 0 1, sigs := (sigs ?a)(0 := [0])\<rparr>"
  let ?c = "?b\<lparr>producer := P_send 0 2, sigs := (sigs ?b)(1 := [0])\<rparr>"
  let ?d = "?c\<lparr>producer := P_msg 1\<rparr>"
  let ?e = "hand_to 0 H_hit (?d\<lparr>sigs := (sigs ?d)(0 := [])\<rparr>)"
  let ?f = "hand_to 1 H_hit (?e\<lparr>sigs := (sigs ?e)(1 := [])\<rparr>)"
  let ?g = "hand_to 0 (H_add 0) ?f"
  let ?h = "hand_to 1 (H_add 0) ?g"
  let ?i = "hand_to 0 H_idle (?h\<lparr>rcnt := 1\<rparr>)"
  let ?j = "hand_to 1 H_idle (?i\<lparr>rcnt := 1\<rparr>)"
  let ?R = "ring_step 1 2 b Queued"
  note d = ring_start_def hand_to_def int_add_def int_range_def INT_MIN_def INT_MAX_def
  have "?R ?z ?a" by (rule p_write) (simp_all add: d)
  moreover have "?R ?a ?b" using p_send[of ?a 0 0 2 Queued 1 b] by (simp add: d)
  moreover have "?R ?b ?c" using p_send[of ?b 0 1 2 Queued 1 b] by (simp add: d numeral_2_eq_2)
  moreover have "?R ?c ?d" using p_next[of ?c 0 2 1 b Queued] by (simp add: d)
  moreover have "?R ?d ?e" using c_compare[of 0 2 ?d 0 "[]" 1 b Queued] by (simp add: d)
  moreover have "?R ?e ?f" using c_compare[of 1 2 ?e 0 "[]" 1 b Queued] by (simp add: d)
  moreover have "?R ?f ?g" using c_load[of 0 2 ?f 1 b Queued] by (simp add: d)
  moreover have "?R ?g ?h" using c_load[of 1 2 ?g 1 b Queued] by (simp add: d)
  moreover have "?R ?h ?i" by (rule c_store[where c = 0]) (simp_all add: d)
  moreover have "?R ?i ?j" by (rule c_store[where c = 0]) (simp_all add: d)
  moreover have "?R ?j (?j\<lparr>producer := P_done\<rparr>)" by (rule p_end[where i = 1]) (simp_all add: d)
  ultimately have "?R\<^sup>*\<^sup>* ?z (?j\<lparr>producer := P_done\<rparr>)"
    by (meson converse_rtranclp_into_rtranclp r_into_rtranclp)
  moreover have "unhandled 2 (?j\<lparr>producer := P_done\<rparr>) = 0"
    by (simp add: unhandled_def busy_def hand_to_def ring_start_def numeral_2_eq_2)
  moreover have "ring_report 1 2 (?j\<lparr>producer := P_done\<rparr>) = (2, 1, 0)"
    by (simp add: ring_report_def hand_to_def ring_start_def to_int32_small int_range_def INT_MIN_def INT_MAX_def)
  ultimately show ?thesis by (intro exI[of _ "?j\<lparr>producer := P_done\<rparr>"]) simp
qed

end
