(* ===== verification/TextDict.thy ===== *)
theory TextDict
  imports DictFile
begin

text \<open>
  SP_HW5/Part3: the first version of the dictionary.  convert.c copies a text file of words and
  definitions, lookup1.c searches such a file line by line, and main.c asks for words with
  \<open>gets\<close>.  The records are those of dict.h (\<open>DictFile\<close>).
\<close>

section \<open>Streams with an end-of-file flag\<close>

definition BIGLINE :: nat where "BIGLINE = 512"

record fstream =
  unread :: string
  feof :: bool

text \<open>
  \<open>fgets\<close> sets the flag when it wants a character behind the end.  The line is given as the string
  functions see it, up to its first NUL.
\<close>

definition sgets :: "fstream \<Rightarrow> string option \<times> fstream" where
  "sgets f = (case fgets BIGLINE (unread f) of
       None \<Rightarrow> (None, f\<lparr>feof := True\<rparr>)
     | Some (got, r) \<Rightarrow>
         (Some (takeWhile (\<lambda>c. c \<noteq> NUL) got),
          \<lparr>unread = r, feof = feof f \<or> (length got < BIGLINE - 1 \<and> newline \<notin> set got)\<rparr>))"

lemma sgets_shorter: "sgets f = (Some l, f') \<Longrightarrow> length (unread f') < length (unread f)"
  by (auto simp: sgets_def BIGLINE_def split: option.splits dest: fgets_shorter)

text \<open>\<open>strncat (buf, s, n)\<close> for an array.\<close>

definition strncat :: "string \<Rightarrow> string \<Rightarrow> nat \<Rightarrow> string outcome" where
  "strncat buf s n = obind (cstr buf) (\<lambda>t. strcpy buf (t @ take n s))"

section \<open>convert.c\<close>

text \<open>\<open>strncpy (word, line, WORD)\<close>: no NUL is written when the line has \<open>WORD\<close> characters.\<close>

definition strncpy_word :: "string \<Rightarrow> string" where
  "strncpy_word l = take WORD l @ replicate (WORD - length l) NUL"

text \<open>The loop over the lines of a definition.\<close>

function read_definition :: "string \<Rightarrow> fstream \<Rightarrow> string outcome \<times> fstream" where
  "read_definition tx f = (case sgets f of
       (None, f') \<Rightarrow> (Ok tx, f')
     | (Some l, f') \<Rightarrow>
         if take 1 l = [newline] then (Ok tx, f')
         else (case strncat tx l TEXT of
             Ok tx' \<Rightarrow> read_definition tx' f'
           | e \<Rightarrow> (e, f')))"
  by pat_completeness auto
termination
  by (relation "measure (\<lambda>(_, f). length (unread f))") (auto dest: sgets_shorter[OF sym])

declare read_definition.simps [simp del]

lemma read_definition_shorter: "read_definition tx f = (r, f') \<Longrightarrow> length (unread f') \<le> length (unread f)"
proof (induction tx f arbitrary: r f' rule: read_definition.induct)
  case (1 tx f)
  obtain lo g where s: "sgets f = (lo, g)" by (cases "sgets f")
  show ?case
  proof (cases lo)
    case None
    have "unread g = unread f" using s None by (auto simp: sgets_def split: option.splits)
    then show ?thesis using 1(2) s None by (simp add: read_definition.simps[of tx f])
  next
    case (Some l)
    have g: "length (unread g) < length (unread f)" using sgets_shorter s Some by simp
    show ?thesis
    proof (cases "take 1 l = [newline]")
      case True
      then show ?thesis using 1(2) s Some g by (simp add: read_definition.simps[of tx f])
    next
      case False
      show ?thesis
      proof (cases "strncat tx l TEXT")
        case (Ok tx')
        then have "read_definition tx' g = (r, f')"
          using 1(2) s Some False by (simp add: read_definition.simps[of tx f])
        then show ?thesis using 1(1)[OF s[symmetric] Some False Ok] g by fastforce
      qed (use 1(2) s Some False g in \<open>auto simp: read_definition.simps[of tx f]\<close>)
    qed
  qed
qed

text \<open>
  One record: the word, its definition, the newline that is put over the definition's final NUL, and
  what the two \<open>fwrite\<close> calls write, as long as the two strings are.
\<close>

definition convert_entry :: "string \<Rightarrow> string outcome \<Rightarrow> string outcome" where
  "convert_entry word def =
     obind (cstr word) (\<lambda>w.
     obind def (\<lambda>tx.
     obind (cstr tx) (\<lambda>t.
     obind (cstr (tx[length t := newline])) (\<lambda>t'. Ok (w @ t')))))"

text \<open>The main loop: how it ends, and what it has written.  Both arrays are clear at its head.\<close>

function convert_loop :: "fstream \<Rightarrow> unit outcome \<times> string" where
  "convert_loop f =
     (if feof f then (Ok (), [])
      else case sgets f of
        (None, f') \<Rightarrow> (Exit 1, [])
      | (Some l, f') \<Rightarrow>
          (case read_definition (replicate TEXT NUL) f' of (def, f'') \<Rightarrow>
             (case convert_entry (strncpy_word l) def of
                Ok out \<Rightarrow> (case convert_loop f'' of (r, outs) \<Rightarrow> (r, out @ outs))
              | e \<Rightarrow> (obind e (\<lambda>_. Ok ()), []))))"
  by pat_completeness auto
termination
  by (relation "measure (\<lambda>f. length (unread f))")
    (simp, clarsimp, metis sgets_shorter read_definition_shorter order_le_less_trans)

declare convert_loop.simps [simp del]

text \<open>
  \<open>main\<close>: the exit status and the contents of the output file, if it was opened; -1 is status 255.
\<close>

definition convert_main ::
  "(string \<Rightarrow> string option) \<Rightarrow> (string \<Rightarrow> bool) \<Rightarrow> string list \<Rightarrow> unit outcome \<times> string option" where
  "convert_main files writable argv =
     (if length argv \<noteq> 3 then (Exit 255, None)
      else case files (argv ! 1) of
        None \<Rightarrow> (Exit 1, None)
      | Some contents \<Rightarrow>
          if \<not> writable (argv ! 2) then (Exit 1, None)
          else (case convert_loop \<lparr>unread = contents, feof = False\<rparr> of
              (Ok _, out) \<Rightarrow> (Exit 0, Some out)
            | (e, out) \<Rightarrow> (e, Some out)))"

section \<open>lookup1.c\<close>

text \<open>The static variables: whether it is the first call, and the file behind \<open>in\<close>.\<close>

record lookup1_vars =
  l1_first :: bool
  l1_in :: string

text \<open>The lines behind the matching one, appended to the text.\<close>

function collect_text :: "string \<Rightarrow> fstream \<Rightarrow> string outcome" where
  "collect_text tx f = (case sgets f of
       (None, f') \<Rightarrow> Ok tx
     | (Some l, f') \<Rightarrow>
         if l = [] \<or> take 1 l = [newline] then Ok tx
         else (case strncat tx l (length l) of
             Ok tx' \<Rightarrow> collect_text tx' f'
           | e \<Rightarrow> e))"
  by pat_completeness auto
termination
  by (relation "measure (\<lambda>(_, f). length (unread f))") (auto dest: sgets_shorter[OF sym])

declare collect_text.simps [simp del]

text \<open>\<open>text[strlen (text) - 1] = '\0'\<close>\<close>

definition cut_last :: "string \<Rightarrow> string outcome" where
  "cut_last tx = obind (cstr tx) (\<lambda>t. if t = [] then Undef Out_of_bounds else Ok (tx[length t - 1 := NUL]))"

function search_lines :: "string \<Rightarrow> string \<Rightarrow> fstream \<Rightarrow> (int \<times> string) outcome" where
  "search_lines word tx f =
     (if feof f then Ok (NOTFOUND, tx)
      else case sgets f of
        (None, f') \<Rightarrow> Ok (NOTFOUND, tx)
      | (Some l, f') \<Rightarrow>
          obind (cstr word) (\<lambda>w.
          if strncmp l w (length w) = 0
          then obind (collect_text tx f') (\<lambda>tx'. obind (cut_last tx') (\<lambda>tx''. Ok (FOUND, tx'')))
          else search_lines word tx f'))"
  by pat_completeness auto
termination
  by (relation "measure (\<lambda>(_, _, f). length (unread f))") (auto dest: sgets_shorter[OF sym])

declare search_lines.simps [simp del]

definition lookup1 ::
  "(string \<Rightarrow> string option) \<Rightarrow> string \<Rightarrow> dictrec \<Rightarrow> (int \<times> dictrec, lookup1_vars) cmd" where
  "lookup1 files resource sought =
     bindc (\<lambda>s. if l1_first s
         then (case files resource of
             None \<Rightarrow> (Exit 1, s\<lparr>l1_first := False\<rparr>)
           | Some c \<Rightarrow> (Ok (), \<lparr>l1_first = False, l1_in = c\<rparr>))
         else (Ok (), s)) (\<lambda>_ s.
       (obind (search_lines (dword sought) (replicate TEXT NUL) \<lparr>unread = l1_in s, feof = False\<rparr>) (\<lambda>(r, tx).
          Ok (r, sought\<lparr>dtext := tx\<rparr>)), s))"

section \<open>main.c\<close>

text \<open>
  \<open>gets\<close> into the word: at the end of the input it returns a null pointer, which is not looked at,
  and leaves the word as it is.
\<close>

definition gets_word :: "string \<Rightarrow> string \<Rightarrow> string outcome \<times> string" where
  "gets_word buf input =
     (if input = [] then (Ok buf, [])
      else let l = takeWhile (\<lambda>c. c \<noteq> newline) input in (strcpy buf l, drop (Suc (length l)) input))"

definition text_answer :: "int \<Rightarrow> dictrec \<Rightarrow> string outcome" where
  "text_answer r tryit =
     (if r = FOUND then obind (cstr (dword tryit)) (\<lambda>w. obind (cstr (dtext tryit)) (\<lambda>t. Ok (w @ '' : '' @ t @ [newline])))
      else if r = NOTFOUND then obind (cstr (dword tryit)) (\<lambda>w. Ok (w @ '' : Not Found!'' @ [newline]))
      else if r = UNAVAIL then Exit 1
      else Ok [])"

text \<open>
  The endless loop, \<open>n\<close> times round; the result is what the next round starts from, and the output.
\<close>

fun text_rounds ::
  "(dictrec \<Rightarrow> (int \<times> dictrec, 's) cmd) \<Rightarrow> nat \<Rightarrow> string \<Rightarrow> dictrec \<Rightarrow> 's \<Rightarrow> (string \<times> dictrec \<times> 's) outcome \<times> string" where
  "text_rounds lookup 0 input tryit s = (Ok (input, tryit, s), [])"
| "text_rounds lookup (Suc n) input tryit s =
     (case gets_word (dword tryit) input of (w, input') \<Rightarrow>
        (case w of
           Ok word \<Rightarrow>
             (case lookup (tryit\<lparr>dword := word\<rparr>) s of
                (Ok (r, tryit'), s') \<Rightarrow>
                  (case text_answer r tryit' of
                     Ok line \<Rightarrow>
                       (case text_rounds lookup n input' tryit' s' of
                          (e, out) \<Rightarrow> (e, ''What word do you want : '' @ line @ out))
                   | e \<Rightarrow> (obind e (\<lambda>_. Undef Bad_pointer), ''What word do you want : ''))
              | (e, s') \<Rightarrow> (obind e (\<lambda>_. Undef Bad_pointer), ''What word do you want : ''))
         | e \<Rightarrow> (obind e (\<lambda>_. Undef Bad_pointer), ''What word do you want : '')))"

section \<open>Files as lines\<close>

definition good_line :: "string \<Rightarrow> bool" where
  "good_line l \<longleftrightarrow> newline \<notin> set l \<and> nul_free l \<and> length l < BIGLINE - 1"

abbreviation file_at :: "string \<Rightarrow> fstream" where
  "file_at s \<equiv> \<lparr>unread = s, feof = False\<rparr>"

lemma sgets_line [simp]:
  "good_line l \<Longrightarrow> sgets (file_at (l @ newline # rest)) = (Some (l @ [newline]), file_at rest)"
  by (auto simp: sgets_def good_line_def fgets_whole_line nul_free_def takeWhile_eq_all_conv)

lemma sgets_end [simp]: "sgets (file_at []) = (None, \<lparr>unread = [], feof = True\<rparr>)"
  by (simp add: sgets_def fgets_def)

text \<open>A clear buffer with a text at its front.\<close>

definition text_buf :: "string \<Rightarrow> string" where
  "text_buf t = t @ replicate (TEXT - length t) NUL"

lemma text_buf_Nil: "replicate TEXT NUL = text_buf []"
  by (simp add: text_buf_def)

lemma text_buf_Suc: "length t < TEXT \<Longrightarrow> text_buf t = t @ NUL # replicate (TEXT - Suc (length t)) NUL"
  by (simp add: text_buf_def Suc_diff_Suc flip: replicate_Suc)

lemma cstr_text_buf [simp]: "nul_free t \<Longrightarrow> length t < TEXT \<Longrightarrow> cstr (text_buf t) = Ok t"
  by (simp add: text_buf_Suc cstr_append)

lemma text_buf_length: "length t \<le> TEXT \<Longrightarrow> length (text_buf t) = TEXT"
  by (simp add: text_buf_def)

lemma strncat_buf:
  assumes "nul_free t" and "length t < TEXT" and "length s \<le> n"
  shows "strncat (text_buf t) s n = (if length t + length s < TEXT then Ok (text_buf (t @ s)) else Undef Buffer_overflow)"
proof (cases "length t + length s < TEXT")
  case True
  have "drop (Suc (length (t @ s))) (text_buf t) = replicate (TEXT - Suc (length t + length s)) NUL"
    by (simp add: text_buf_def)
  then show ?thesis using True assms
    by (simp add: strncat_def strcpy_def text_buf_length) (simp add: text_buf_Suc)
qed (use assms in \<open>simp add: strncat_def strcpy_def text_buf_length\<close>)

lemma good_line_nul: "good_line l \<Longrightarrow> nul_free (l @ [newline])"
  by (auto simp: good_line_def nul_free_def)

section \<open>What lookup1 answers\<close>

text \<open>
  The definition found: the lines between the first line of the file that begins with the word and
  the next empty one.
\<close>

fun first_match :: "string \<Rightarrow> string list \<Rightarrow> string list option" where
  "first_match w [] = None"
| "first_match w (l # ls) =
     (if take (length w) (l @ [newline]) = w then Some (takeWhile (\<lambda>d. d \<noteq> []) ls) else first_match w ls)"

lemma collect_text_lines:
  "\<forall>l \<in> set ls. good_line l \<Longrightarrow> nul_free t \<Longrightarrow> length t < TEXT \<Longrightarrow>
   collect_text (text_buf t) (file_at (unlines ls)) =
     (let t' = t @ unlines (takeWhile (\<lambda>d. d \<noteq> []) ls)
      in if length t' < TEXT then Ok (text_buf t') else Undef Buffer_overflow)"
proof (induction ls arbitrary: t)
  case Nil
  then show ?case by (simp add: collect_text.simps)
next
  case (Cons l ls)
  show ?case
  proof (cases "l = []")
    case True
    then show ?thesis using Cons.prems by (simp add: collect_text.simps[of _ "file_at (_ # _)"] good_line_def
        sgets_line[of "[]", simplified])
  next
    case False
    have l: "good_line l" "take 1 (l @ [newline]) \<noteq> [newline]"
      using Cons.prems(1) False by (cases l; auto simp: good_line_def)+
    show ?thesis
    proof (cases "length t + Suc (length l) < TEXT")
      case True
      then have "collect_text (text_buf t) (file_at (unlines (l # ls))) = collect_text (text_buf (t @ l @ [newline])) (file_at (unlines ls))"
        using l Cons.prems by (subst collect_text.simps) (simp add: strncat_buf)
      also have "\<dots> = (let t' = t @ unlines (takeWhile (\<lambda>d. d \<noteq> []) (l # ls))
          in if length t' < TEXT then Ok (text_buf t') else Undef Buffer_overflow)"
        using Cons.IH[of "t @ l @ [newline]"] Cons.prems True False good_line_nul[OF l(1)] by (simp add: nul_free_def)
      finally show ?thesis .
    next
      case long: False
      then show ?thesis using l Cons.prems False by (subst collect_text.simps) (simp add: strncat_buf)
    qed
  qed
qed

lemma cut_last_buf:
  assumes "nul_free t" and "length t < TEXT" and "t \<noteq> []"
  shows "\<exists>tx. cut_last (text_buf t) = Ok tx \<and> cstr tx = Ok (butlast t) \<and> length tx = TEXT"
proof -
  obtain u c where t: "t = u @ [c]" using assms(3) by (cases t rule: rev_cases) auto
  have "(text_buf t)[length t - 1 := NUL] = u @ NUL # replicate (TEXT - length t) NUL"
    by (simp add: text_buf_def t list_update_append)
  then have "cstr ((text_buf t)[length t - 1 := NUL]) = Ok u"
    using cstr_append[of u] assms(1) t by (simp add: nul_free_def)
  then show ?thesis using assms t by (auto simp: cut_last_def text_buf_length)
qed

text \<open>How one search ends on a file of lines.\<close>

definition search_result :: "string \<Rightarrow> string list \<Rightarrow> (int \<times> string) outcome \<Rightarrow> bool" where
  "search_result w ls r = (case first_match w ls of
       None \<Rightarrow> r = Ok (NOTFOUND, replicate TEXT NUL)
     | Some ds \<Rightarrow>
         if ds = [] then r = Undef Out_of_bounds
         else if length (unlines ds) < TEXT then \<exists>tx. r = Ok (FOUND, tx) \<and> cstr tx = Ok (butlast (unlines ds)) \<and> length tx = TEXT
         else r = Undef Buffer_overflow)"

lemma search_lines_result:
  "\<forall>l \<in> set ls. good_line l \<Longrightarrow> cstr word = Ok w \<Longrightarrow>
   search_result w ls (search_lines word (replicate TEXT NUL) (file_at (unlines ls)))"
proof (induction ls)
  case Nil
  then show ?case by (simp add: search_lines.simps search_result_def)
next
  case (Cons l ls)
  have l: "good_line l" "\<forall>d \<in> set ls. good_line d" using Cons.prems(1) by simp_all
  show ?case
  proof (cases "take (length w) (l @ [newline]) = w")
    case False
    then have "search_lines word (replicate TEXT NUL) (file_at (unlines (l # ls))) =
        search_lines word (replicate TEXT NUL) (file_at (unlines ls))"
      using l Cons.prems(2) strncmp_prefix[of "l @ [newline]" w] by (subst search_lines.simps) simp
    then show ?thesis using Cons.IH[OF l(2) Cons.prems(2)] False by (simp add: search_result_def)
  next
    case True
    let ?t = "unlines (takeWhile (\<lambda>d. d \<noteq> []) ls)"
    have nf: "nul_free ?t"
      using l(2) good_line_nul by (fastforce simp: nul_free_def unlines_def dest: set_takeWhileD)
    have "search_lines word (replicate TEXT NUL) (file_at (unlines (l # ls))) =
        obind (collect_text (text_buf []) (file_at (unlines ls))) (\<lambda>tx'. obind (cut_last tx') (\<lambda>tx''. Ok (FOUND, tx'')))"
      using l Cons.prems(2) strncmp_prefix[of "l @ [newline]" w] True
      by (subst search_lines.simps) (simp add: text_buf_Nil)
    also have "\<dots> = (if length ?t < TEXT then obind (cut_last (text_buf ?t)) (\<lambda>tx''. Ok (FOUND, tx'')) else Undef Buffer_overflow)"
      using collect_text_lines[OF l(2), of "[]"] by (simp add: nul_free_def TEXT_def)
    finally have eq: "search_lines word (replicate TEXT NUL) (file_at (unlines (l # ls))) = \<dots>" .
    have t0: "?t = [] \<longleftrightarrow> takeWhile (\<lambda>d. d \<noteq> []) ls = []"
      by (cases "takeWhile (\<lambda>d. d \<noteq> []) ls") simp_all
    show ?thesis
    proof (cases "?t = []")
      case True
      then have "cut_last (text_buf ?t) = Undef Out_of_bounds"
        using cstr_text_buf[of "[]"] by (simp add: cut_last_def nul_free_def TEXT_def)
      then show ?thesis using eq True t0 \<open>take (length w) (l @ [newline]) = w\<close> by (simp add: search_result_def TEXT_def)
    next
      case nonempty: False
      then show ?thesis using eq t0 \<open>take (length w) (l @ [newline]) = w\<close> cut_last_buf[OF nf _ nonempty]
        by (auto simp: search_result_def)
    qed
  qed
qed

section \<open>What convert writes\<close>

text \<open>Entries of a dictionary: a word, and the lines of its definition.\<close>

type_synonym entry = "string \<times> string list"

definition good_entry :: "entry \<Rightarrow> bool" where
  "good_entry e \<longleftrightarrow> good_line (fst e) \<and> Suc (length (fst e)) < WORD \<and>
     (\<forall>d \<in> set (snd e). good_line d \<and> d \<noteq> []) \<and> Suc (length (unlines (snd e))) < TEXT"

definition entry_text :: "entry \<Rightarrow> string" where
  "entry_text e = unlines (fst e # snd e)"

text \<open>A file of entries with an empty line between each two, and one with an empty line behind each.\<close>

fun separated :: "entry list \<Rightarrow> string" where
  "separated [] = []"
| "separated [e] = entry_text e"
| "separated (e # e' # es) = entry_text e @ newline # separated (e' # es)"

definition terminated :: "entry list \<Rightarrow> string" where
  "terminated es = concat (map (\<lambda>e. entry_text e @ [newline]) es)"

lemma read_definition_lines:
  "\<forall>d \<in> set ds. good_line d \<and> d \<noteq> [] \<Longrightarrow> nul_free t \<Longrightarrow> length (t @ unlines ds) < TEXT \<Longrightarrow>
   read_definition (text_buf t) (file_at (unlines ds @ rest)) = read_definition (text_buf (t @ unlines ds)) (file_at rest)"
proof (induction ds arbitrary: t)
  case (Cons d ds)
  have d: "good_line d" "take 1 (d @ [newline]) \<noteq> [newline]"
    using Cons.prems(1) by (cases d; auto simp: good_line_def)+
  have "read_definition (text_buf t) (file_at (unlines (d # ds) @ rest)) =
      read_definition (text_buf (t @ d @ [newline])) (file_at (unlines ds @ rest))"
    using d Cons.prems by (subst read_definition.simps) (simp add: strncat_buf)
  also have "\<dots> = read_definition (text_buf ((t @ d @ [newline]) @ unlines ds)) (file_at rest)"
    by (rule Cons.IH) (use Cons.prems good_line_nul[OF d(1)] in \<open>auto simp: nul_free_def\<close>)
  finally show ?case by simp
qed simp

lemma read_definition_blank:
  "read_definition tx (file_at (newline # rest)) = (Ok tx, file_at rest)"
  using sgets_line[of "[]" rest] by (simp add: read_definition.simps[of tx] good_line_def nul_free_def BIGLINE_def)

lemma read_definition_eof:
  "read_definition tx (file_at []) = (Ok tx, \<lparr>unread = [], feof = True\<rparr>)"
  by (simp add: read_definition.simps[of tx])

lemma convert_entry_good:
  assumes "good_entry (w, ds)"
  shows "convert_entry (strncpy_word (w @ [newline])) (Ok (text_buf (unlines ds))) = Ok (entry_text (w, ds) @ [newline])"
proof -
  have w: "nul_free (w @ [newline])" "length (w @ [newline]) < WORD" and len: "Suc (length (unlines ds)) < TEXT"
    using assms good_line_nul by (auto simp: good_entry_def)
  have nf: "nul_free (unlines ds)"
    using assms good_line_nul by (fastforce simp: nul_free_def unlines_def good_entry_def)
  have "strncpy_word (w @ [newline]) = (w @ [newline]) @ NUL # replicate (WORD - Suc (length (w @ [newline]))) NUL"
    using w(2) by (simp add: strncpy_word_def Suc_diff_Suc flip: replicate_Suc)
  then have 1: "cstr (strncpy_word (w @ [newline])) = Ok (w @ [newline])"
    using cstr_append[OF w(1)] by simp
  have "(text_buf (unlines ds))[length (unlines ds) := newline] = unlines ds @ newline # replicate (TEXT - Suc (length (unlines ds))) NUL"
    using len by (simp add: text_buf_Suc list_update_append)
  also have "\<dots> = (unlines ds @ [newline]) @ NUL # replicate (TEXT - Suc (Suc (length (unlines ds)))) NUL"
    using len by (simp add: Suc_diff_Suc flip: replicate_Suc)
  finally have 2: "cstr ((text_buf (unlines ds))[length (unlines ds) := newline]) = Ok (unlines ds @ [newline])"
    using cstr_append[of "unlines ds @ [newline]"] nf by (simp add: nul_free_def)
  show ?thesis using 1 2 nf len by (simp add: convert_entry_def entry_text_def)
qed

lemma convert_loop_entry:
  assumes "good_entry (w, ds)"
    and "read_definition (text_buf (unlines ds)) (file_at rest) = (Ok (text_buf (unlines ds)), f)"
  shows "convert_loop (file_at (entry_text (w, ds) @ rest)) =
    (case convert_loop f of (r, outs) \<Rightarrow> (r, (entry_text (w, ds) @ [newline]) @ outs))"
proof -
  have w: "good_line w" "\<forall>d \<in> set ds. good_line d \<and> d \<noteq> []" "length (unlines ds) < TEXT"
    using assms(1) by (auto simp: good_entry_def)
  have rd: "read_definition (replicate TEXT NUL) (file_at (unlines ds @ rest)) = (Ok (text_buf (unlines ds)), f)"
    using read_definition_lines[OF w(2), of "[]" rest] w(3) assms(2) by (simp add: text_buf_Nil nul_free_def)
  have s: "sgets (file_at (entry_text (w, ds) @ rest)) = (Some (w @ [newline]), file_at (unlines ds @ rest))"
    using w(1) by (simp add: entry_text_def)
  show ?thesis
    using convert_entry_good[OF assms(1)] rd s by (subst convert_loop.simps) simp
qed

lemma convert_loop_separated:
  "es \<noteq> [] \<Longrightarrow> \<forall>e \<in> set es. good_entry e \<Longrightarrow> convert_loop (file_at (separated es)) = (Ok (), terminated es)"
proof (induction es rule: separated.induct)
  case (2 e)
  then show ?case
    using convert_loop_entry[of "fst e" "snd e" "[]"] read_definition_eof
    by (simp add: terminated_def convert_loop.simps[of "\<lparr>unread = [], feof = True\<rparr>"])
next
  case (3 e e' es)
  then show ?case
    using convert_loop_entry[of "fst e" "snd e" "newline # separated (e' # es)"] read_definition_blank
    by (simp add: terminated_def)
qed simp

lemma convert_loop_terminated:
  "\<forall>e \<in> set es. good_entry e \<Longrightarrow> convert_loop (file_at (terminated es)) = (Exit 1, terminated es)"
proof (induction es)
  case Nil
  then show ?case by (simp add: terminated_def convert_loop.simps)
next
  case (Cons e es)
  then show ?case
    using convert_loop_entry[of "fst e" "snd e" "newline # terminated es"] read_definition_blank
    by (simp add: terminated_def)
qed

section \<open>The lookup and the main loop together\<close>

definition lookup1_init :: lookup1_vars where
  "lookup1_init = \<lparr>l1_first = True, l1_in = []\<rparr>"

text \<open>The file is open, or will be opened.\<close>

definition reads_lines :: "(string \<Rightarrow> string option) \<Rightarrow> string \<Rightarrow> string list \<Rightarrow> lookup1_vars \<Rightarrow> bool" where
  "reads_lines files resource ls s \<longleftrightarrow> (\<forall>l \<in> set ls. good_line l) \<and> files resource = Some (unlines ls) \<and>
     (l1_first s \<or> l1_in s = unlines ls)"

lemma lookup1_lines:
  assumes "reads_lines files resource ls s" and "cstr (dword sought) = Ok w"
  shows "\<exists>r s'. lookup1 files resource sought s = (obind r (\<lambda>(q, tx). Ok (q, sought\<lparr>dtext := tx\<rparr>)), s') \<and>
    search_result w ls r \<and> reads_lines files resource ls s'"
  using search_lines_result[of ls "dword sought" w] assms
  by (intro exI[of _ "search_lines (dword sought) (replicate TEXT NUL) (file_at (unlines ls))"]
      exI[of _ "\<lparr>l1_first = False, l1_in = unlines ls\<rparr>"])
    (cases s, auto simp: lookup1_def reads_lines_def bindc_def)

text \<open>Words with an answer, and what is printed for them.\<close>

definition askable :: "string list \<Rightarrow> string \<Rightarrow> bool" where
  "askable ls w \<longleftrightarrow> newline \<notin> set w \<and> nul_free w \<and> length w < WORD \<and>
     (case first_match w ls of None \<Rightarrow> True | Some ds \<Rightarrow> ds \<noteq> [] \<and> length (unlines ds) < TEXT)"

definition text_line :: "string list \<Rightarrow> string \<Rightarrow> string" where
  "text_line ls w = ''What word do you want : '' @ w @ (case first_match w ls of
       None \<Rightarrow> '' : Not Found!'' | Some ds \<Rightarrow> '' : '' @ butlast (unlines ds)) @ [newline]"

lemma text_round:
  assumes "reads_lines files resource ls s" and "askable ls w"
    and "gets_word (dword tryit) input = (Ok word, input')" and "cstr word = Ok w" and "length word = WORD"
  shows "\<exists>tryit' s'. text_rounds (lookup1 files resource) (Suc n) input tryit s =
      (case text_rounds (lookup1 files resource) n input' tryit' s' of (e, out) \<Rightarrow> (e, text_line ls w @ out)) \<and>
    reads_lines files resource ls s' \<and> cstr (dword tryit') = Ok w \<and> length (dword tryit') = WORD"
proof -
  let ?t = "tryit\<lparr>dword := word\<rparr>"
  obtain r s' where r: "lookup1 files resource ?t s = (obind r (\<lambda>(q, tx). Ok (q, ?t\<lparr>dtext := tx\<rparr>)), s')"
      "search_result w ls r" "reads_lines files resource ls s'"
    using lookup1_lines[OF assms(1), of ?t w] assms(4) by auto
  have "\<exists>q tx. r = Ok (q, tx) \<and>
      obind (text_answer q (?t\<lparr>dtext := tx\<rparr>)) (\<lambda>line. Ok (''What word do you want : '' @ line)) = Ok (text_line ls w)"
  proof (cases "first_match w ls")
    case None
    then have "r = Ok (NOTFOUND, replicate TEXT NUL)" using r(2) by (simp add: search_result_def)
    then show ?thesis using None assms(4) by (simp add: text_line_def text_answer_def FOUND_def NOTFOUND_def UNAVAIL_def)
  next
    case (Some ds)
    then have "ds \<noteq> []" "length (unlines ds) < TEXT" using assms(2) by (simp_all add: askable_def)
    then obtain tx where "r = Ok (FOUND, tx)" "cstr tx = Ok (butlast (unlines ds))"
      using r(2) Some by (auto simp: search_result_def)
    then show ?thesis using Some assms(4) by (simp add: text_line_def text_answer_def FOUND_def)
  qed
  then obtain q tx line where q: "r = Ok (q, tx)" "text_answer q (?t\<lparr>dtext := tx\<rparr>) = Ok line"
      "''What word do you want : '' @ line = text_line ls w"
    by (auto simp: obind_Ok_iff)
  have "text_rounds (lookup1 files resource) (Suc n) input tryit s =
      (case text_rounds (lookup1 files resource) n input' (?t\<lparr>dtext := tx\<rparr>) s' of (e, out) \<Rightarrow> (e, text_line ls w @ out))"
    using assms(3) r(1) q by (simp add: flip: q(3) split: prod.split)
  then show ?thesis using r(3) assms(4,5) by (intro exI[of _ "?t\<lparr>dtext := tx\<rparr>"] exI[of _ s']) simp
qed

lemma gets_word_line:
  assumes "newline \<notin> set w" and "nul_free w" and "length w < length buf"
  shows "\<exists>word. gets_word buf (w @ newline # rest) = (Ok word, rest) \<and> cstr word = Ok w \<and> length word = length buf"
proof -
  have "takeWhile (\<lambda>c. c \<noteq> newline) (w @ newline # rest) = w"
    using assms(1) by (induction w) auto
  then show ?thesis
    using assms(2,3) strcpy_Ok[OF assms(3)] cstr_append[OF assms(2)] by (auto simp: gets_word_def)
qed

lemma text_rounds_eof:
  "reads_lines files resource ls s \<Longrightarrow> askable ls w \<Longrightarrow> cstr (dword tryit) = Ok w \<Longrightarrow> length (dword tryit) = WORD \<Longrightarrow>
   \<exists>x. text_rounds (lookup1 files resource) k [] tryit s = (Ok x, concat (replicate k (text_line ls w)))"
proof (induction k arbitrary: tryit s)
  case (Suc k)
  obtain tryit' s' where t: "text_rounds (lookup1 files resource) (Suc k) [] tryit s =
      (case text_rounds (lookup1 files resource) k [] tryit' s' of (e, out) \<Rightarrow> (e, text_line ls w @ out))"
      "reads_lines files resource ls s'" "cstr (dword tryit') = Ok w" "length (dword tryit') = WORD"
    using text_round[OF Suc.prems(1,2), of tryit "[]" "dword tryit" "[]" k] Suc.prems by (auto simp: gets_word_def)
  from Suc.IH[OF t(2) Suc.prems(2) t(3,4)] show ?case unfolding t(1) by auto
qed simp

lemma text_rounds_words:
  "ws \<noteq> [] \<Longrightarrow> \<forall>w \<in> set ws. askable ls w \<Longrightarrow> reads_lines files resource ls s \<Longrightarrow> length (dword tryit) = WORD \<Longrightarrow>
   \<exists>x. text_rounds (lookup1 files resource) (length ws + k) (unlines ws) tryit s =
     (Ok x, concat (map (text_line ls) (ws @ replicate k (last ws))))"
proof (induction ws arbitrary: tryit s)
  case (Cons w ws)
  have w: "askable ls w" using Cons.prems(2) by simp
  then obtain word where g: "gets_word (dword tryit) (w @ newline # unlines ws) = (Ok word, unlines ws)"
      "cstr word = Ok w" "length word = WORD"
    using gets_word_line[of w "dword tryit" "unlines ws"] Cons.prems(4) by (auto simp: askable_def)
  obtain tryit' s' where t: "text_rounds (lookup1 files resource) (Suc (length ws + k)) (w @ newline # unlines ws) tryit s =
      (case text_rounds (lookup1 files resource) (length ws + k) (unlines ws) tryit' s' of (e, out) \<Rightarrow> (e, text_line ls w @ out))"
      "reads_lines files resource ls s'" "cstr (dword tryit') = Ok w" "length (dword tryit') = WORD"
    using text_round[OF Cons.prems(3) w g] by blast
  show ?case
  proof (cases "ws = []")
    case True
    then show ?thesis using t text_rounds_eof[OF t(2) w t(3,4), of k] by (auto simp: map_replicate_const)
  next
    case False
    then show ?thesis using t Cons.IH[OF False _ t(2,4)] Cons.prems(2) by auto
  qed
qed simp





section \<open>Properties\<close>

text \<open>
  convert on a dictionary whose entries are separated by empty lines copies it, with an empty line
  behind every entry (not to records of fixed length, as its comment has it), and exits with status 0;
  run again on what it has written it writes the same and exits with status 1, because the file then
  ends in an empty line.
\<close>

theorem convert_copies:
  assumes "es \<noteq> []" and "\<forall>e \<in> set es. good_entry e" and "writable b"
  shows "convert_main (files(a \<mapsto> separated es)) writable [prog, a, b] = (Exit 0, Some (terminated es)) \<and>
    convert_main (files(a \<mapsto> terminated es)) writable [prog, a, b] = (Exit 1, Some (terminated es))"
  using convert_loop_separated[OF assms(1,2)] convert_loop_terminated[OF assms(2)] assms(3)
  by (simp add: convert_main_def)

definition two_entries :: "entry list" where
  "two_entries = [(''ab'', [''first'', ''second'']), (''abc'', [''third''])]"

lemma two_entries_good: "\<forall>e \<in> set two_entries. good_entry e"
  by (simp add: two_entries_def good_entry_def good_line_def nul_free_def BIGLINE_def WORD_def TEXT_def)

theorem convert_copies_witness:
  "snd (convert_main [''d'' \<mapsto> separated two_entries] (\<lambda>_. True) [''convert'', ''d'', ''o'']) = Some (terminated two_entries)"
  using convert_copies[of two_entries "\<lambda>_. True" "''o''" Map.empty "''d''" "''convert''"] two_entries_good
  by (simp add: two_entries_def)

text \<open>
  lookup1 on any file of lines finds the first line that begins with the word, be it a longer word
  or a line of a definition, and gives the lines up to the next empty one, without their last newline;
  with no line behind the match it writes in front of the text, with 480 characters or more behind it
  past its end.
\<close>

theorem lookup1_first_prefix:
  assumes "reads_lines files resource ls s" and "cstr (dword sought) = Ok w"
  shows "case first_match w ls of
      None \<Rightarrow> fst (lookup1 files resource sought s) = Ok (NOTFOUND, sought\<lparr>dtext := replicate TEXT NUL\<rparr>)
    | Some ds \<Rightarrow>
        if ds = [] then fst (lookup1 files resource sought s) = Undef Out_of_bounds
        else if length (unlines ds) < TEXT
        then \<exists>tx. fst (lookup1 files resource sought s) = Ok (FOUND, sought\<lparr>dtext := tx\<rparr>) \<and> cstr tx = Ok (butlast (unlines ds))
        else fst (lookup1 files resource sought s) = Undef Buffer_overflow"
  using lookup1_lines[OF assms] by (fastforce simp: search_result_def split: option.splits)

theorem lookup1_first_prefix_witness:
  "fst (lookup1 [''d'' \<mapsto> unlines [''abc'']] ''d'' \<lparr>dword = ''ab'' @ [NUL], dtext = []\<rparr> lookup1_init) = Undef Out_of_bounds"
proof -
  have "reads_lines [''d'' \<mapsto> unlines [''abc'']] ''d'' [''abc''] lookup1_init"
    by (simp add: reads_lines_def lookup1_init_def good_line_def nul_free_def BIGLINE_def)
  moreover have "cstr (dword \<lparr>dword = ''ab'' @ [NUL], dtext = []\<rparr>) = Ok ''ab''" by (simp add: cstr_def)
  ultimately show ?thesis using lookup1_first_prefix by fastforce
qed



text \<open>
  The main loop never ends: it answers the words of its input one by one, and when the input has
  ended it goes on for ever, round after round, with the answer to the last word, because nobody looks
  at what \<open>gets\<close> returns.
\<close>

theorem text_main_never_ends:
  assumes "reads_lines files resource ls lookup1_init" and "ws \<noteq> []" and "\<forall>w \<in> set ws. askable ls w"
    and "length (dword tryit) = WORD"
  shows "\<exists>x. text_rounds (lookup1 files resource) (length ws + k) (unlines ws) tryit lookup1_init =
     (Ok x, concat (map (text_line ls) (ws @ replicate k (last ws))))"
  using text_rounds_words[OF assms(2,3,1,4)] .

theorem text_main_never_ends_witness:
  "\<exists>x. text_rounds (lookup1 [''d'' \<mapsto> unlines [''ab'', ''first'']] ''d'') 3 (unlines [''zz'']) \<lparr>dword = replicate WORD NUL, dtext = []\<rparr> lookup1_init =
     (Ok x, concat (replicate 3 (''What word do you want : zz : Not Found!'' @ [newline])))"
proof -
  have "reads_lines [''d'' \<mapsto> unlines [''ab'', ''first'']] ''d'' [''ab'', ''first''] lookup1_init"
    by (simp add: reads_lines_def lookup1_init_def good_line_def nul_free_def BIGLINE_def)
  moreover have "askable [''ab'', ''first''] ''zz''" by (simp add: askable_def nul_free_def WORD_def)
  ultimately show ?thesis
    using text_main_never_ends[of "[''d'' \<mapsto> unlines [''ab'', ''first'']]" "''d''" "[''ab'', ''first'']" "[''zz'']"
        "\<lparr>dword = replicate WORD NUL, dtext = []\<rparr>" 2]
    by (simp add: text_line_def numeral_3_eq_3 numeral_2_eq_2)
qed

end
