(* ===== verification/ProcList.thy ===== *)
theory ProcList
  imports CProc "HOL-Library.Word"
begin

text \<open>
  SP_HW4/12_1.c and 12_3.c: the processes of a user, and the processes that have a file open, read off
  the files under /proc.
\<close>

section \<open>What /proc shows\<close>

definition MAX_SIZE :: nat where "MAX_SIZE = 4096"

text \<open>
  The names in /proc in the order of \<open>readdir\<close>; the status file of a process, the names in its fd
  directory, and the targets of the links there, each absent when it cannot be opened or read (with the
  \<open>errno\<close> this gives); the password file; whether a status file closes; and for /proc (\<open>None\<close>)
  and the fd directories the \<open>errno\<close> that the last \<open>readdir\<close> leaves, 0 at the regular end, and whether
  \<open>closedir\<close> succeeds.
\<close>

record procfs =
  pf_names :: "string list"
  pf_status :: "int \<Rightarrow> string option"
  pf_fds :: "int \<Rightarrow> string list option"
  pf_link :: "int \<Rightarrow> int \<Rightarrow> string option"
  pf_getpwnam :: "string \<Rightarrow> 32 word option"
  pf_errno :: "int \<Rightarrow> int"
  pf_fclose :: "int \<Rightarrow> bool"
  pf_dir_end :: "int option \<Rightarrow> int \<times> bool"

text \<open>\<open>d_name[0] - '0' < 0 || d_name[0] - '0' > 9\<close>\<close>

definition numeric_name :: "string \<Rightarrow> bool" where
  "numeric_name n \<longleftrightarrow> (case n of [] \<Rightarrow> False | c # _ \<Rightarrow> 48 \<le> (of_char c :: nat) \<and> (of_char c :: nat) \<le> 57)"

definition strline :: "string \<Rightarrow> string" where
  "strline got = takeWhile (\<lambda>c. c \<noteq> NUL) got"

text \<open>\<open>line + 6\<close> behind the line's NUL holds what an earlier line left there.\<close>

definition skip_name :: "string \<Rightarrow> string outcome" where
  "skip_name l = (if length l < 6 then Undef Uninit_read else Ok (drop 6 l))"

text \<open>\<open>if (fclose (file) == EOF) printf ("close %s failed", path);\<close>\<close>

definition close_status :: "procfs \<Rightarrow> int \<Rightarrow> (unit, proc) cmd" where
  "close_status fs pid =
     (if pf_fclose fs pid then ret () else printf (''close /proc/'' @ dec pid @ ''/status failed''))"

text \<open>
  Behind a loop over a directory: \<open>if (errno) { complain; exit (1); }\<close> and the check of
  \<open>closedir\<close>.
\<close>

definition leave_dir :: "procfs \<Rightarrow> int option \<Rightarrow> (unit, proc) cmd \<Rightarrow> string \<Rightarrow> (unit, proc) cmd" where
  "leave_dir fs d complain path s =
     (let e = (if fst (pf_dir_end fs d) = 0 then perrno s else fst (pf_dir_end fs d)) in
      (if e \<noteq> 0 then seqc complain (exitc 1)
       else if \<not> snd (pf_dir_end fs d)
       then seqc (printf (''failed to close '' @ [CHR 0x27] @ path @ [CHR 0x27, newline])) (exitc 1)
       else ret ()) (s\<lparr>perrno := e\<rparr>))"

text \<open>Directories that are read to their end, and files and directories that close.\<close>

definition closes_well :: "procfs \<Rightarrow> bool" where
  "closes_well fs \<longleftrightarrow> (\<forall>pid. pf_fclose fs pid) \<and> (\<forall>d. pf_dir_end fs d = (0, True))"

lemma close_status_well [simp]: "closes_well fs \<Longrightarrow> close_status fs pid s = (Ok (), s)"
  by (simp add: closes_well_def close_status_def)

lemma leave_dir_well [simp]:
  "closes_well fs \<Longrightarrow> leave_dir fs d complain path s =
     (if perrno s \<noteq> 0 then seqc complain (exitc 1) s else (Ok (), s))"
  by (simp add: closes_well_def leave_dir_def)

section \<open>12_1.c\<close>

text \<open>A user id is an unsigned 32-bit number; -1 stands for an unknown user.\<close>

definition userIdFromName :: "(string \<Rightarrow> 32 word option) \<Rightarrow> string option \<Rightarrow> 32 word" where
  "userIdFromName getpwnam name = (case name of
       None \<Rightarrow> -1
     | Some n \<Rightarrow>
         if n = [] then -1
         else let r = strtol n 10 in
           if sl_end r = [] then word_of_int (sl_value r)
           else (case getpwnam n of None \<Rightarrow> -1 | Some u \<Rightarrow> u))"

text \<open>
  The loop over a status file: the name (with its newline), whether a Uid line has been seen, and the
  user id.
\<close>

function read_user :: "string \<Rightarrow> string \<Rightarrow> bool \<Rightarrow> 32 word \<Rightarrow> (string \<times> 32 word) outcome" where
  "read_user rest nm seen uid = (case fgets MAX_SIZE rest of
       None \<Rightarrow> Ok (nm, uid)
     | Some (got, rest') \<Rightarrow>
         let l = strline got in
         if strncmp l ''Name:'' 5 = 0
         then obind (skip_name l) (\<lambda>nm'.
                if nm' \<noteq> [] \<and> seen then Ok (nm', uid) else read_user rest' nm' seen uid)
         else if strncmp l ''Uid:'' 4 = 0
         then let t = drop 4 l; uid' = word_of_int (atoi t); seen' = (t \<noteq> []) in
                if nm \<noteq> [] \<and> seen' then Ok (nm, uid') else read_user rest' nm seen' uid'
         else if nm \<noteq> [] \<and> seen then Ok (nm, uid) else read_user rest' nm seen uid)"
  by pat_completeness auto
termination
  by (relation "measure (\<lambda>(rest, _). length rest)") (auto simp: MAX_SIZE_def dest: fgets_shorter)

declare read_user.simps [simp del]

text \<open>The loop over /proc; a status file that cannot be opened is skipped, but it leaves an \<open>errno\<close>.\<close>

fun list_user :: "procfs \<Rightarrow> 32 word \<Rightarrow> string list \<Rightarrow> (unit, proc) cmd" where
  "list_user fs user [] = ret ()"
| "list_user fs user (n # ns) =
     (if \<not> numeric_name n then list_user fs user ns
      else let pid = atoi n in
        case pf_status fs pid of
          None \<Rightarrow> seqc (modifyc (\<lambda>s. s\<lparr>perrno := 2\<rparr>)) (list_user fs user ns)
        | Some st \<Rightarrow>
            bindc (liftc (read_user st [] False (-1))) (\<lambda>(nm, uid).
            seqc (close_status fs pid)
            (seqc (if uid = user then printf (''PID: '' @ dec pid @ newline # ''Name: '' @ nm @ [newline]) else ret ())
              (list_user fs user ns))))"

definition user_main :: "procfs \<Rightarrow> bool \<Rightarrow> string list \<Rightarrow> (unit, proc) cmd" where
  "user_main fs proc_opens argv =
     (if length argv > 2 then seqc (printf (''too many arguements, only needs two'' @ [newline])) (exitc 1)
      else let user = userIdFromName (pf_getpwnam fs) (if length argv = 2 then Some (argv ! 1) else None) in
        if \<not> proc_opens then seqc (printf (''opendir failed on '' @ [CHR 0x27] @ ''/proc'' @ [CHR 0x27, newline])) (exitc 1)
        else seqc (modifyc (\<lambda>s. s\<lparr>perrno := 0\<rparr>))
          (seqc (list_user fs user (pf_names fs))
          (seqc (leave_dir fs None (printf ''readdir'') ''/proc'') (exitc 0))))"

section \<open>12_3.c\<close>

text \<open>The name of a process: the first Name line; without one the array is read uninitialised.\<close>

function read_name :: "string \<Rightarrow> string outcome" where
  "read_name rest = (case fgets MAX_SIZE rest of
       None \<Rightarrow> Undef Uninit_read
     | Some (got, rest') \<Rightarrow>
         let l = strline got in
         if strncmp l ''Name:'' 5 = 0
         then obind (skip_name l) (\<lambda>nm. if nm = [] then Undef Out_of_bounds else Ok (butlast nm))
         else read_name rest')"
  by pat_completeness auto
termination
  by (relation "measure length") (auto simp: MAX_SIZE_def dest: fgets_shorter)

declare read_name.simps [simp del]

text \<open>
  The loop over the descriptors of one process; \<open>readlink\<close> is given one byte less than the buffer
  has.  The target is the argument, a null pointer when there is none.
\<close>

fun list_fds :: "procfs \<Rightarrow> string option \<Rightarrow> int \<Rightarrow> string list \<Rightarrow> (unit, proc) cmd" where
  "list_fds fs target pid [] = ret ()"
| "list_fds fs target pid (n # ns) =
     (if \<not> numeric_name n then list_fds fs target pid ns
      else case pf_link fs pid (atoi n) of
        None \<Rightarrow> seqc (printf (''readlink,errno:'' @ dec (pf_errno fs pid))) (exitc 1)
      | Some buf \<Rightarrow>
          bindc (liftc (case target of None \<Rightarrow> Undef Null_deref | Some t \<Rightarrow> Ok (strcmp (take (MAX_SIZE - 1) buf) t))) (\<lambda>c.
          seqc (if c = 0
            then (case pf_status fs pid of
                None \<Rightarrow> seqc (printf (''failed to open /proc/'' @ dec pid @ ''/status'')) (exitc 1)
              | Some st \<Rightarrow> bindc (liftc (read_name st)) (\<lambda>nm.
                  seqc (printf (''Pid: '' @ dec pid @ '', Cmd Name: '' @ nm @ [newline])) (close_status fs pid)))
            else ret ())
          (list_fds fs target pid ns)))"

fun list_holders :: "procfs \<Rightarrow> string option \<Rightarrow> string list \<Rightarrow> (unit, proc) cmd" where
  "list_holders fs target [] = ret ()"
| "list_holders fs target (n # ns) =
     (if \<not> numeric_name n then list_holders fs target ns
      else let pid = atoi n in
        case pf_fds fs pid of
          None \<Rightarrow> seqc (printf (''opendir failead on '' @ [CHR 0x27] @ ''/proc/'' @ dec pid @ ''/fd'' @ [CHR 0x27]
              @ '', errno: '' @ dec (pf_errno fs pid) @ [newline])) (exitc 1)
        | Some fds \<Rightarrow>
            seqc (modifyc (\<lambda>s. s\<lparr>perrno := 0\<rparr>))
            (seqc (list_fds fs target pid fds)
            (seqc (leave_dir fs (Some pid) (printf ''readdir2'') (''/proc/'' @ dec pid @ ''/fd''))
              (list_holders fs target ns))))"

definition holders_main :: "procfs \<Rightarrow> bool \<Rightarrow> string list \<Rightarrow> (unit, proc) cmd" where
  "holders_main fs proc_opens argv =
     (if length argv > 2 then seqc (printf (''too many arguements, only needs two'' @ [newline])) (exitc 1)
      else if \<not> proc_opens then seqc (printf (''opendir failead on '' @ [CHR 0x27] @ ''/proc'' @ [CHR 0x27, newline])) (exitc 1)
      else seqc (modifyc (\<lambda>s. s\<lparr>perrno := 0\<rparr>))
        (seqc (list_holders fs (if length argv = 2 then Some (argv ! 1) else None) (pf_names fs))
        (seqc (leave_dir fs None (printf ''readdir'') ''/proc'') (exitc 0))))"

section \<open>Well-formed status files\<close>

lemma sl_value_space: "is_space c \<Longrightarrow> sl_value (strtol (c # s) b) = sl_value (strtol s b)"
  by (simp add: strtol_def Let_def split: prod.splits)

lemma word_to_int32: "(word_of_int (to_int32 x) :: 32 word) = word_of_int x"
  by (simp add: to_int32_def)

definition plain_line :: "string \<Rightarrow> bool" where
  "plain_line l \<longleftrightarrow> newline \<notin> set l \<and> nul_free l \<and> length l < MAX_SIZE - 1"

lemma fgets_plain [simp]:
  "plain_line l \<Longrightarrow> fgets MAX_SIZE (l @ newline # rest) = Some (l @ [newline], rest)"
  "plain_line l \<Longrightarrow> strline (l @ [newline]) = l @ [newline]"
  by (auto simp: plain_line_def fgets_whole_line strline_def nul_free_def takeWhile_eq_all_conv)

text \<open>A status file: a Name line first, then lines of other fields, then the Uid line.\<close>

definition status_with :: "string \<Rightarrow> nat \<Rightarrow> string \<Rightarrow> bool" where
  "status_with nm u st \<longleftrightarrow> (\<exists>mids us rest.
     st = (''Name:'' @ CHR 0x09 # nm) @ newline # concat (map (\<lambda>l. l @ [newline]) mids)
       @ (''Uid:'' @ CHR 0x09 # dec_nat u @ CHR 0x09 # us) @ newline # rest \<and>
     plain_line (''Name:'' @ CHR 0x09 # nm) \<and> int u \<le> LONG_MAX \<and>
     plain_line (''Uid:'' @ CHR 0x09 # dec_nat u @ CHR 0x09 # us) \<and>
     (\<forall>l \<in> set mids. plain_line l \<and> take 5 (l @ [newline]) \<noteq> ''Name:'' \<and> take 4 (l @ [newline]) \<noteq> ''Uid:''))"

lemma strncmp_5 [simp]: "strncmp l ''Name:'' 5 = 0 \<longleftrightarrow> take 5 l = ''Name:''"
  and strncmp_4 [simp]: "strncmp l ''Uid:'' 4 = 0 \<longleftrightarrow> take 4 l = ''Uid:''"
  by (simp_all add: strncmp_def)

lemma read_user_skip:
  "\<forall>l \<in> set mids. plain_line l \<and> take 5 (l @ [newline]) \<noteq> ''Name:'' \<and> take 4 (l @ [newline]) \<noteq> ''Uid:'' \<Longrightarrow>
   read_user (concat (map (\<lambda>l. l @ [newline]) mids) @ rest) nm False uid = read_user rest nm False uid"
proof (induction mids)
  case (Cons l mids)
  then show ?case by (subst read_user.simps) (simp add: Let_def)
qed simp

lemma read_user_status:
  assumes "status_with nm u st"
  shows "read_user st [] False (-1) = Ok (nm @ [newline], of_nat u)"
proof -
  obtain mids us rest where st:
      "st = (''Name:'' @ CHR 0x09 # nm) @ newline # concat (map (\<lambda>l. l @ [newline]) mids)
         @ (''Uid:'' @ CHR 0x09 # dec_nat u @ CHR 0x09 # us) @ newline # rest"
      "plain_line (''Name:'' @ CHR 0x09 # nm)" "int u \<le> LONG_MAX"
      "plain_line (''Uid:'' @ CHR 0x09 # dec_nat u @ CHR 0x09 # us)"
      "\<forall>l \<in> set mids. plain_line l \<and> take 5 (l @ [newline]) \<noteq> ''Name:'' \<and> take 4 (l @ [newline]) \<noteq> ''Uid:''"
    using assms unfolding status_with_def by blast
  let ?u = "''Uid:'' @ CHR 0x09 # dec_nat u @ CHR 0x09 # us"
  have "strtol (dec_nat u @ CHR 0x09 # us @ [newline]) 10 = \<lparr>sl_value = int u, sl_end = CHR 0x09 # us @ [newline], sl_erange = False\<rparr>"
    using strtol_dec_nat[OF st(3), of "CHR 0x09 # us @ [newline]"] by (simp add: is_digit_in_def digit_val_def)
  then have v: "word_of_int (atoi (CHR 0x09 # dec_nat u @ CHR 0x09 # us @ [newline])) = (of_nat u :: 32 word)"
    by (simp add: atoi_def sl_value_space is_space_def word_to_int32)
  have "read_user st [] False (-1) =
      read_user (concat (map (\<lambda>l. l @ [newline]) mids) @ ?u @ newline # rest) (nm @ [newline]) False (-1)"
    using fgets_plain[OF st(2)] unfolding st(1) by (subst read_user.simps) (simp add: Let_def skip_name_def)
  also have "\<dots> = read_user (?u @ newline # rest) (nm @ [newline]) False (-1)"
    by (rule read_user_skip[OF st(5)])
  also have "\<dots> = Ok (nm @ [newline], of_nat u)"
    using fgets_plain[OF st(4)] v by (subst read_user.simps) (simp add: Let_def)
  finally show ?thesis .
qed

section \<open>Properties\<close>

text \<open>The processes at the time of the listing: for each pid its name and user, if it is still there.\<close>

definition proc_shown :: "procfs \<Rightarrow> (int \<Rightarrow> (string \<times> nat) option) \<Rightarrow> int \<Rightarrow> bool" where
  "proc_shown fs info pid \<longleftrightarrow> (case info pid of
       None \<Rightarrow> pf_status fs pid = None
     | Some (nm, u) \<Rightarrow> \<exists>st. pf_status fs pid = Some st \<and> status_with nm u st)"

definition pids :: "procfs \<Rightarrow> int list" where
  "pids fs = map atoi (filter numeric_name (pf_names fs))"

definition shows_procs :: "procfs \<Rightarrow> (int \<Rightarrow> (string \<times> nat) option) \<Rightarrow> bool" where
  "shows_procs fs info \<longleftrightarrow> (\<forall>pid \<in> set (pids fs). proc_shown fs info pid)"

definition user_lines :: "(int \<Rightarrow> (string \<times> nat) option) \<Rightarrow> 32 word \<Rightarrow> int \<Rightarrow> string" where
  "user_lines info user pid = (case info pid of
       Some (nm, u) \<Rightarrow> (if of_nat u = user then ''PID: '' @ dec pid @ newline # ''Name: '' @ nm @ [newline, newline] else [])
     | None \<Rightarrow> [])"

lemma user_lines_simps [simp]:
  "info pid = None \<Longrightarrow> user_lines info user pid = []"
  "info pid = Some (nm, u) \<Longrightarrow> user_lines info user pid =
     (if of_nat u = user then ''PID: '' @ dec pid @ newline # ''Name: '' @ nm @ [newline, newline] else [])"
  by (simp_all add: user_lines_def)

lemma list_user_output:
  assumes cw: "closes_well fs" and "\<forall>pid \<in> set (map atoi (filter numeric_name ns)). proc_shown fs info pid"
  shows "list_user fs user ns s = (Ok (), s\<lparr>pout := pout s @ concat (map (user_lines info user) (map atoi (filter numeric_name ns))),
     perrno := (if None \<in> info ` set (map atoi (filter numeric_name ns)) then 2 else perrno s)\<rparr>)"
  using assms(2)
proof (induction ns arbitrary: s)
  case (Cons n ns)
  then have IH: "list_user fs user ns s = (Ok (), s\<lparr>pout := pout s @ concat (map (user_lines info user) (map atoi (filter numeric_name ns))),
     perrno := (if None \<in> info ` set (map atoi (filter numeric_name ns)) then 2 else perrno s)\<rparr>)" for s
    by (cases "numeric_name n") auto
  show ?case
  proof (cases "numeric_name n")
    case True
    show ?thesis
    proof (cases "info (atoi n)")
      case None
      then have "pf_status fs (atoi n) = None" using Cons.prems True by (simp add: proc_shown_def)
      then show ?thesis using True None IH by (simp add: Let_def del: set_map)
    next
      case (Some p)
      obtain nm u where p: "p = (nm, u)" by (cases p)
      then obtain st where "pf_status fs (atoi n) = Some st" "status_with nm u st"
        using Cons.prems True Some by (auto simp: proc_shown_def)
      then show ?thesis using True Some p IH
        by (simp add: Let_def read_user_status seqc_def cw del: set_map)
    qed
  qed (use IH in simp)
qed simp

text \<open>
  12_1 prints, for any processes under /proc, the pid and the name of exactly those whose real
  user id is the user's, in the order of the directory, skipping those that have gone; it exits with
  status 0 if all were there, but as soon as one of them has gone, which the code means to tolerate,
  \<open>errno\<close> is still set after the loop and it reports a failed \<open>readdir\<close> and exits with status 1.
\<close>

theorem user_processes_listed:
  assumes "closes_well fs" and "shows_procs fs info" and "user = userIdFromName (pf_getpwnam fs) (Some u)"
  shows "case user_main fs True [prog, u] s of (r, t) \<Rightarrow>
    if None \<in> info ` set (pids fs)
    then r = Exit 1 \<and> pout t = pout s @ concat (map (user_lines info user) (pids fs)) @ ''readdir''
    else r = Exit 0 \<and> pout t = pout s @ concat (map (user_lines info user) (pids fs))"
proof -
  have "list_user fs user (pf_names fs) (s\<lparr>perrno := 0\<rparr>) = (Ok (), s\<lparr>pout := pout s @ concat (map (user_lines info user) (pids fs)),
     perrno := (if None \<in> info ` set (pids fs) then 2 else 0)\<rparr>)"
    using list_user_output[of fs "pf_names fs" info user "s\<lparr>perrno := 0\<rparr>"] assms(1,2)
    by (simp add: shows_procs_def pids_def)
  then show ?thesis using assms(1,3) by (simp add: user_main_def Let_def seqc_def)
qed

definition two_procs :: procfs where
  "two_procs = \<lparr>pf_names = [''version'', ''1'', ''7''],
     pf_status = [1 \<mapsto> (''Name:'' @ CHR 0x09 # ''init'') @ newline # (''Uid:'' @ CHR 0x09 # dec_nat 0 @ CHR 0x09 # ''0'') @ newline # []],
     pf_fds = (\<lambda>_. None), pf_link = (\<lambda>_ _. None), pf_getpwnam = [''root'' \<mapsto> 0],
     pf_errno = (\<lambda>_. 13), pf_fclose = (\<lambda>_. True), pf_dir_end = (\<lambda>_. (0, True))\<rparr>"

lemma two_procs_close: "closes_well two_procs"
  by (simp add: closes_well_def two_procs_def)

theorem user_processes_listed_witness:
  "fst (user_main two_procs True [''12_1'', ''root''] (start_proc [])) = Exit 1"
proof -
  have a: "atoi ''1'' = 1" "atoi ''7'' = 7"
    by (simp_all add: atoi_def strtol_def is_space_def strip_sign_def base_and_rest_def is_digit_in_def digit_val_def
        LONG_MAX_def LONG_MIN_def to_int32_def)
  have "status_with ''init'' 0 ((''Name:'' @ CHR 0x09 # ''init'') @ newline # (''Uid:'' @ CHR 0x09 # dec_nat 0 @ CHR 0x09 # ''0'') @ newline # [])"
    unfolding status_with_def
    by (rule exI[of _ "[]"], rule exI[of _ "''0''"], rule exI[of _ "[]"])
      (simp add: plain_line_def nul_free_def MAX_SIZE_def LONG_MAX_def dec_nat.simps[of 0] digit_char_def char_of_def)
  then have "shows_procs two_procs [1 \<mapsto> (''init'', 0)]"
    by (simp add: shows_procs_def proc_shown_def pids_def two_procs_def numeric_name_def a)
  note r = user_processes_listed[OF two_procs_close this refl, where u = "''root''" and prog = "''12_1''" and s = "start_proc []"]
  have "pids two_procs = [1, 7]" by (simp add: two_procs_def pids_def numeric_name_def a)
  then show ?thesis using r by (auto split: prod.splits)
qed

text \<open>The processes that can be inspected: their names, descriptors and links.\<close>

definition readable_proc :: "procfs \<Rightarrow> (int \<Rightarrow> string) \<Rightarrow> int \<Rightarrow> bool" where
  "readable_proc fs nameof pid \<longleftrightarrow>
     (\<exists>st u. pf_status fs pid = Some st \<and> status_with (nameof pid) u st) \<and>
     (case pf_fds fs pid of None \<Rightarrow> False
      | Some fds \<Rightarrow> \<forall>n \<in> set fds. numeric_name n \<longrightarrow>
          (case pf_link fs pid (atoi n) of None \<Rightarrow> False | Some l \<Rightarrow> length l < MAX_SIZE))"

definition open_fds :: "procfs \<Rightarrow> int \<Rightarrow> int list" where
  "open_fds fs pid = (case pf_fds fs pid of None \<Rightarrow> [] | Some fds \<Rightarrow> map atoi (filter numeric_name fds))"

definition fd_line :: "procfs \<Rightarrow> (int \<Rightarrow> string) \<Rightarrow> string \<Rightarrow> int \<Rightarrow> int \<Rightarrow> string" where
  "fd_line fs nameof target pid fd =
     (if pf_link fs pid fd = Some target then ''Pid: '' @ dec pid @ '', Cmd Name: '' @ nameof pid @ [newline] else [])"

definition holder_lines :: "procfs \<Rightarrow> (int \<Rightarrow> string) \<Rightarrow> string \<Rightarrow> int \<Rightarrow> string" where
  "holder_lines fs nameof target pid = concat (map (fd_line fs nameof target pid) (open_fds fs pid))"

lemma read_name_first:
  assumes "plain_line (''Name:'' @ CHR 0x09 # nm)"
  shows "read_name ((''Name:'' @ CHR 0x09 # nm) @ newline # rest) = Ok nm"
  using fgets_plain[OF assms] by (subst read_name.simps) (simp add: skip_name_def Let_def)

lemma read_name_status: "status_with nm u st \<Longrightarrow> read_name st = Ok nm"
  unfolding status_with_def using read_name_first by blast

lemma list_fds_output:
  assumes cw: "closes_well fs" and "pf_status fs pid = Some st" and "status_with (nameof pid) u st"
    and "\<forall>n \<in> set fds. numeric_name n \<longrightarrow> (case pf_link fs pid (atoi n) of None \<Rightarrow> False | Some l \<Rightarrow> length l < MAX_SIZE)"
  shows "list_fds fs (Some target) pid fds s =
    (Ok (), s\<lparr>pout := pout s @ concat (map (fd_line fs nameof target pid) (map atoi (filter numeric_name fds)))\<rparr>)"
  using assms(4)
proof (induction fds arbitrary: s)
  case (Cons n fds)
  show ?case
  proof (cases "numeric_name n")
    case True
    then obtain l where l: "pf_link fs pid (atoi n) = Some l" "length l < MAX_SIZE"
      using Cons.prems by (auto split: option.splits)
    then show ?thesis using True Cons assms(2) read_name_status[OF assms(3)]
      by (simp add: seqc_def fd_line_def cw)
  qed (use Cons in simp)
qed simp

lemma list_holders_output:
  "closes_well fs \<Longrightarrow> perrno s = 0 \<Longrightarrow> \<forall>pid \<in> set (map atoi (filter numeric_name ns)). readable_proc fs nameof pid \<Longrightarrow>
   list_holders fs (Some target) (ns @ ms) s =
     list_holders fs (Some target) ms (s\<lparr>pout := pout s @ concat (map (holder_lines fs nameof target) (map atoi (filter numeric_name ns)))\<rparr>)"
proof (induction ns arbitrary: s)
  case (Cons n ns)
  note cw = Cons.prems(1)
  have e: "s\<lparr>perrno := 0\<rparr> = s" using Cons.prems(2) by (cases s) simp
  show ?case
  proof (cases "numeric_name n")
    case True
    then have r: "readable_proc fs nameof (atoi n)" using Cons.prems by simp
    then obtain st u fds where f: "pf_status fs (atoi n) = Some st" "status_with (nameof (atoi n)) u st" "pf_fds fs (atoi n) = Some fds"
      "\<forall>m \<in> set fds. numeric_name m \<longrightarrow> (case pf_link fs (atoi n) (atoi m) of None \<Rightarrow> False | Some l \<Rightarrow> length l < MAX_SIZE)"
      by (auto simp: readable_proc_def split: option.splits)
    show ?thesis using True Cons list_fds_output[where nameof = nameof and target = target, OF cw f(1,2,4)] f(3)
      by (simp add: Let_def seqc_def holder_lines_def open_fds_def e)
  qed (use Cons in simp)
qed simp

text \<open>
  12_3 prints a line for every descriptor, of every process in turn, that is a link to exactly the
  path asked for; it ends with status 0 when all processes could be inspected, and with status 1 at the
  first one whose descriptors it may not read, with the lines of the processes before it.
\<close>

theorem file_holders_listed:
  assumes "closes_well fs" and "pf_names fs = ns @ ms"
    and "\<forall>pid \<in> set (map atoi (filter numeric_name ns)). readable_proc fs nameof pid"
    and "ms = [] \<or> (numeric_name (hd ms) \<and> pf_fds fs (atoi (hd ms)) = None)"
  shows "case holders_main fs True [prog, target] s of (r, t) \<Rightarrow>
    r = (if ms = [] then Exit 0 else Exit 1) \<and>
    pout t = pout s @ concat (map (holder_lines fs nameof target) (map atoi (filter numeric_name ns)))
      @ (if ms = [] then []
         else ''opendir failead on '' @ [CHR 0x27] @ ''/proc/'' @ dec (atoi (hd ms)) @ ''/fd'' @ [CHR 0x27]
           @ '', errno: '' @ dec (pf_errno fs (atoi (hd ms))) @ [newline])"
proof -
  have r: "list_holders fs (Some target) (ns @ ms) (s\<lparr>perrno := 0\<rparr>) = list_holders fs (Some target) ms
      (s\<lparr>perrno := 0, pout := pout s @ concat (map (holder_lines fs nameof target) (map atoi (filter numeric_name ns)))\<rparr>)"
    using list_holders_output[OF assms(1) _ assms(3), of "s\<lparr>perrno := 0\<rparr>" target ms] by simp
  show ?thesis
  proof (cases ms)
    case Nil
    then show ?thesis using r assms(1,2) by (simp add: holders_main_def seqc_def)
  next
    case (Cons m ms')
    then show ?thesis using r assms(2,4) by (simp add: holders_main_def seqc_def Let_def bindc_def)
  qed
qed

theorem file_holders_listed_witness:
  "fst (holders_main two_procs True [''12_3'', ''/dev/null''] (start_proc [])) = Exit 1"
proof -
  have "\<forall>pid \<in> set (map atoi (filter numeric_name [''version''])). readable_proc two_procs (\<lambda>_. []) pid"
    by (simp add: numeric_name_def)
  moreover have "pf_names two_procs = [''version''] @ [''1'', ''7'']" "numeric_name (hd [''1'', ''7''])"
    "pf_fds two_procs (atoi (hd [''1'', ''7''])) = None"
    by (simp_all add: two_procs_def numeric_name_def)
  ultimately show ?thesis
    using two_procs_close file_holders_listed[where fs = two_procs and ns = "[''version'']" and ms = "[''1'', ''7'']" and nameof = "\<lambda>_. []"
        and prog = "''12_3''" and target = "''/dev/null''" and s = "start_proc []"]
    by (auto split: prod.splits)
qed

end
