(* ===== verification/ProcTree.thy ===== *)
theory ProcTree
  imports ProcList
begin

text \<open>
  SP_HW4/12_2.c: the tree of processes.  The program reads the parent of every process under /proc
  into a list and prints, from process 1 on, the children of each process by searching the whole list
  again.  The recursion has a bound on its depth as an argument, the size of the stack.
\<close>

section \<open>The list of processes\<close>

record se =
  se_pid :: int
  se_ppid :: int
  se_name :: string







section \<open>Printing the tree\<close>

text \<open>One \<open>printf\<close>: some characters, or a process behind a prefix.\<close>

datatype item = Chars string | Shown string string int


text \<open>The global variables \<open>f\<close> and \<open>l\<close>, and what has been printed.\<close>

record dfs =
  flag_f :: bool
  len_l :: nat
  items :: "item list"

definition em_dash :: string where "em_dash = [CHR 0xE2, CHR 0x80, CHR 0x94]"

text \<open>The loop that prints the indentation.\<close>

function pad_from :: "int \<Rightarrow> int \<Rightarrow> string" where
  "pad_from j limit =
     (if j < limit
      then (if j = 6 + 7 + 3 then ''  |   '' @ pad_from (j + 6 + 1) limit else '' '' @ pad_from (j + 1) limit)
      else [])"
  by pat_completeness auto
termination
  by (relation "measure (\<lambda>(j, limit). nat (limit - j))") auto

declare pad_from.simps [simp del]

definition indent :: "int \<Rightarrow> string" where
  "indent depth = pad_from 0 ((depth + 1) * (6 + 6 + 7 + 3) - 6) @ (if depth = 1 then replicate 8 (CHR '' '') else [])"

definition show_node :: "se \<Rightarrow> int \<Rightarrow> dfs \<Rightarrow> dfs" where
  "show_node e depth s =
     (let pre = (if \<not> flag_f s then '' '' @ em_dash @ em_dash @ em_dash @ em_dash @ '' ''
                 else indent depth @ ''  |'' @ em_dash @ em_dash @ '' '')
      in s\<lparr>items := items s @ [Shown pre (se_name e) (se_pid e)], flag_f := False, len_l := length (se_name e)\<rparr>)"

definition end_line :: "dfs \<Rightarrow> dfs" where
  "end_line s = (if len_l s = 0 then s else s\<lparr>flag_f := True, items := items s @ [Chars [newline]], len_l := 0\<rparr>)"





section \<open>The descendants of a process\<close>




definition shown_pids :: "item list \<Rightarrow> int list" where
  "shown_pids is = concat (map (\<lambda>i. case i of Chars _ \<Rightarrow> [] | Shown _ _ pid \<Rightarrow> [pid]) is)"

lemma shown_pids_simps [simp]:
  "shown_pids [] = []" "shown_pids (is @ js) = shown_pids is @ shown_pids js"
  "shown_pids [Chars c] = []" "shown_pids [Shown pre nm pid] = [pid]"
  by (simp_all add: shown_pids_def)

lemma shown_steps [simp]:
  "shown_pids (items (end_line s)) = shown_pids (items s)"
  "shown_pids (items (show_node e depth s)) = shown_pids (items s) @ [se_pid e]"
  by (simp_all add: end_line_def show_node_def Let_def)










section \<open>Properties\<close>


lemma strncmp_ppid [simp]: "strncmp l ''PPid:'' 5 = 0 \<longleftrightarrow> take 5 l = ''PPid:''"
  by (simp add: strncmp_def)






definition entries :: "(int \<Rightarrow> (string \<times> nat) option) \<Rightarrow> int list \<Rightarrow> se list" where
  "entries info ps = concat (map (\<lambda>pid. case info pid of None \<Rightarrow> []
     | Some (nm, pp) \<Rightarrow> [\<lparr>se_pid = pid, se_ppid = int pp, se_name = nm\<rparr>]) ps)"

lemma entries_simps [simp]:
  "entries info [] = []"
  "info pid = None \<Longrightarrow> entries info (pid # ps) = entries info ps"
  "info pid = Some (nm, pp) \<Longrightarrow> entries info (pid # ps) = \<lparr>se_pid = pid, se_ppid = int pp, se_name = nm\<rparr> # entries info ps"
  by (simp_all add: entries_def)








end
