(* ===== verification/Popen.thy ===== *)
theory Popen
  imports ShellExecFacts
begin

text \<open>
  SP_HW6/44_2.c: \<open>my_popen\<close> and \<open>my_pclose\<close> with their table of open streams, and the
  program around them.  System calls are those of \<open>CProc\<close> and \<open>ShellExec\<close>.
\<close>

section \<open>The table of streams\<close>

definition MAX_POPEN :: nat where "MAX_POPEN = 128"

text \<open>
  A \<open>FILE *\<close> is a number, different for every \<open>fdopen\<close>, with the descriptor it was made for;
  a null pointer is \<open>None\<close>.
\<close>

record popen =
  pr :: proc
  popen_streams :: "nat option list"
  popen_pids :: "int list"
  popen_count :: nat
  next_file :: nat
  fileno :: "nat \<Rightarrow> nat"

definition popen_start :: "string \<Rightarrow> popen" where
  "popen_start input = \<lparr>pr = start_proc input, popen_streams = replicate MAX_POPEN None,
     popen_pids = replicate MAX_POPEN 0, popen_count = 0, next_file = 0, fileno = (\<lambda>_. 0)\<rparr>"

definition on_proc :: "('a, proc) cmd \<Rightarrow> ('a, popen) cmd" where
  "on_proc m st = (case m (pr st) of (r, p) \<Rightarrow> (r, st\<lparr>pr := p\<rparr>))"

definition fdopen :: "bool \<Rightarrow> nat \<Rightarrow> (nat option, popen) cmd" where
  "fdopen ok fd st =
     (if ok then (Ok (Some (next_file st)), st\<lparr>next_file := Suc (next_file st), fileno := (fileno st)(next_file st := fd)\<rparr>)
      else (Ok None, st))"

section \<open>my_popen\<close>

text \<open>The child closes the descriptors of the streams that are open; \<open>fileno\<close> of a null pointer is undefined.\<close>

fun close_streams :: "(nat \<Rightarrow> nat) \<Rightarrow> nat option list \<Rightarrow> (unit, proc) cmd" where
  "close_streams fno [] = ret ()"
| "close_streams fno (None # hs) = undefc Null_deref"
| "close_streams fno (Some h # hs) = bindc (sys_close (fno h)) (\<lambda>_. close_streams fno hs)"

definition exec_shell :: "os \<Rightarrow> string \<Rightarrow> (unit, proc) cmd" where
  "exec_shell os command =
     bindc tick (\<lambda>t. if os_exec os t ''/bin/sh'' then liftc (Exec ''/bin/sh'' [''sh'', ''-c'', command])
       else seqc (set_errno os t) (seqc (perror os ''execl'') (exitc 1)))"

definition popen_child :: "os \<Rightarrow> string \<Rightarrow> bool \<Rightarrow> nat \<Rightarrow> nat \<Rightarrow> popen \<Rightarrow> ended" where
  "popen_child os command reading r w st =
     (if reading
      then seqc (sys_close r) (seqc (dup2 w 1) (seqc (sys_close w)
             (seqc (close_streams (fileno st) (take (popen_count st) (popen_streams st))) (exec_shell os command))))
      else seqc (sys_close w) (seqc (dup2 r 0) (seqc (sys_close r)
             (seqc (close_streams (fileno st) (take (popen_count st) (popen_streams st))) (exec_shell os command))))) (pr st)"

definition remember :: "nat option \<Rightarrow> int \<Rightarrow> (unit, popen) cmd" where
  "remember f pid = modifyc (\<lambda>st. st\<lparr>popen_streams := (popen_streams st)[popen_count st := f],
     popen_pids := (popen_pids st)[popen_count st := pid], popen_count := Suc (popen_count st)\<rparr>)"

text \<open>The result: the stream or a null pointer, the state of the parent, and how the child ends.\<close>

definition my_popen :: "os \<Rightarrow> bool \<Rightarrow> string \<Rightarrow> string \<Rightarrow> popen \<Rightarrow> (nat option outcome \<times> popen) \<times> ended list" where
  "my_popen os fdopens command mode st =
     (if popen_count st \<ge> MAX_POPEN
      then (seqc (on_proc (printf (''Error: reached maximum popen limit.'' @ [newline]))) (ret None) st, [])
      else if mode \<noteq> ''r'' \<and> mode \<noteq> ''w''
      then (seqc (on_proc (printf (''wrong mode'' @ [newline]))) (ret None) st, [])
      else case on_proc (sys_pipe os) st of
        (Ok (Some (r, w)), st1) \<Rightarrow>
          (case on_proc tick st1 of
             (Ok t, st2) \<Rightarrow>
               (let pid = os_fork os t in
                if pid = -1 then (seqc (on_proc (seqc (set_errno os t) (perror os ''fork''))) (ret None) st2, [])
                else (bindc (on_proc (sys_close (if mode = ''r'' then w else r))) (\<lambda>_.
                      bindc (fdopen fdopens (if mode = ''r'' then r else w)) (\<lambda>f.
                      seqc (remember f pid) (ret f))) st2,
                      [popen_child os command (mode = ''r'') r w st2]))
           | (e, st2) \<Rightarrow> ((obind e (\<lambda>_. Ok None), st2), []))
      | (_, st1) \<Rightarrow> (seqc (on_proc (perror os ''pipe'')) (ret None) st1, []))"

section \<open>my_pclose\<close>

definition show_status :: "wstatus \<Rightarrow> string" where
  "show_status st = (case st of
       Exited n \<Rightarrow> ''exited, status='' @ dec n @ [newline]
     | Signaled n \<Rightarrow> ''killed by signal '' @ dec n @ [newline]
     | Stopped n \<Rightarrow> ''stopped by signal '' @ dec n @ [newline]
     | Continued \<Rightarrow> [])"

text \<open>
  Only the first \<open>popen_count\<close> slots are searched; \<open>None\<close> stands for the result -1.  When
  \<open>waitpid\<close> fails the count stays.
\<close>

definition my_pclose :: "os \<Rightarrow> nat \<Rightarrow> (wstatus option, popen) cmd" where
  "my_pclose os f st =
     (case List.find (\<lambda>i. popen_streams st ! i = Some f) [0..<popen_count st] of
        None \<Rightarrow> (Ok None, st)
      | Some i \<Rightarrow>
          (let pid = popen_pids st ! i in
           bindc (on_proc (sys_close (fileno st f))) (\<lambda>_.
           seqc (modifyc (\<lambda>st. st\<lparr>popen_streams := (popen_streams st)[i := None], popen_pids := (popen_pids st)[i := 0]\<rparr>))
           (bindc (on_proc (waitpid os pid)) (\<lambda>w.
            case w of
              None \<Rightarrow> seqc (on_proc (perror os ''waitpid'')) (ret None)
            | Some stat \<Rightarrow> seqc (on_proc (printf (show_status stat)))
                (seqc (modifyc (\<lambda>st. st\<lparr>popen_count := popen_count st - 1\<rparr>)) (ret (Some stat)))))) st))"

section \<open>main\<close>

text \<open>
  \<open>write\<close> without a reader (\<open>EPIPE\<close>, 32) raises \<open>SIGPIPE\<close>, which ends the program; any other
  failure is reported.
\<close>

definition write_fails :: "os \<Rightarrow> int \<Rightarrow> ('a, proc) cmd" where
  "write_fails os e = (if e = 32 then killedc 13 else seqc (fails_with os ''write'' e) (exitc 1))"

text \<open>
  Reading: every line the command writes (\<open>stream\<close>) goes to standard output, up to its first NUL;
  \<open>writes k\<close> is the error of write \<open>k\<close>, if it fails.
\<close>

function copy_lines :: "os \<Rightarrow> (nat \<Rightarrow> int option) \<Rightarrow> nat \<Rightarrow> string \<Rightarrow> (unit, proc) cmd" where
  "copy_lines os writes k stream = (case fgets 256 stream of
       None \<Rightarrow> ret ()
     | Some (got, rest) \<Rightarrow> (case writes k of
           Some e \<Rightarrow> write_fails os e
         | None \<Rightarrow> seqc (printf (takeWhile (\<lambda>c. c \<noteq> NUL) got)) (copy_lines os writes (Suc k) rest)))"
  by pat_completeness auto
termination
  by (relation "measure (\<lambda>(os, writes, k, stream). length stream)") (auto dest: fgets_shorter)

declare copy_lines.simps [simp del]

lemma copy_lines_shows: "copy_lines os (\<lambda>_. None) k s p = (Ok (), p\<lparr>pout := pout p @ show_lines 256 s\<rparr>)"
proof (induction s arbitrary: k p rule: measure_induct_rule[of length])
  case (less s)
  show ?case
  proof (cases "fgets 256 s")
    case None
    then show ?thesis by (simp add: copy_lines.simps[of os "\<lambda>_. None" k s] show_lines.simps[of 256 s])
  next
    case (Some g)
    then obtain got rest where g: "fgets 256 s = Some (got, rest)" by (cases g) auto
    then show ?thesis using less[OF fgets_shorter[OF g, simplified]]
      by (simp add: copy_lines.simps[of os "\<lambda>_. None" k s] show_lines.simps[of 256 s] seqc_app bindc_def)
  qed
qed

text \<open>The result: how the program ends, the children, and what is written to the command.\<close>

definition popen_main ::
  "os \<Rightarrow> bool \<Rightarrow> (nat \<Rightarrow> int option) \<Rightarrow> string \<Rightarrow> string list \<Rightarrow> popen \<Rightarrow> (unit outcome \<times> popen) \<times> ended list \<times> string" where
  "popen_main os fdopens writes output argv st =
     (if length argv \<noteq> 3 then (seqc (on_proc (printf (''Usage: <command> <mode>'' @ [newline]))) (exitc 1) st, [], [])
      else case my_popen os fdopens (argv ! 1) (argv ! 2) st of
        ((Ok (Some fp), st1), cs) \<Rightarrow>
          (let finish = bindc (my_pclose os fp) (\<lambda>r.
                 if r = None then seqc (on_proc (printf ''my_pclose'')) (exitc 1) else exitc 0)
           in if argv ! 2 = ''r''
              then (seqc (on_proc (copy_lines os writes 0 output)) finish st1, cs, [])
              else (case on_proc (printf ''Enter for command: '') st1 of
                 (_, st2) \<Rightarrow>
                   (case fgets 256 (pin (pr st2)) of
                      None \<Rightarrow> (seqc (on_proc (perror os ''fgets'')) (exitc 1) st2, cs, [])
                    | Some (got, _) \<Rightarrow> (case writes 0 of
                          Some e \<Rightarrow> (on_proc (write_fails os e) st2, cs, [])
                        | None \<Rightarrow> (finish st2, cs, takeWhile (\<lambda>c. c \<noteq> NUL) got)))))
      | ((Ok None, st1), cs) \<Rightarrow> (seqc (on_proc (printf (''Failed to open process.'' @ [newline]))) (exitc 1) st1, cs, [])
      | ((e, st1), cs) \<Rightarrow> ((obind e (\<lambda>_. Ok ()), st1), cs, []))"

section \<open>The table as a stack\<close>

text \<open>
  The abstract table: the streams that are open, with their children, the latest first.  The
  three standard descriptors are open, so that no stream uses one of them.
\<close>

definition table_is :: "popen \<Rightarrow> (nat \<times> int) list \<Rightarrow> bool" where
  "table_is st ts \<longleftrightarrow> length (popen_streams st) = MAX_POPEN \<and> length (popen_pids st) = MAX_POPEN \<and>
     popen_count st = length ts \<and> length ts \<le> MAX_POPEN \<and>
     take (length ts) (popen_streams st) = map (\<lambda>t. Some (fst t)) (rev ts) \<and>
     take (length ts) (popen_pids st) = map snd (rev ts) \<and>
     distinct (map fst ts) \<and> (\<forall>t \<in> set ts. fst t < next_file st \<and> 2 < fileno st (fst t)) \<and>
     (\<forall>fd \<le> 2. pfds (pr st) fd \<noteq> None)"

lemma table_start: "table_is (popen_start input) []"
  by (simp add: table_is_def popen_start_def start_proc_def std_fds_def)

lemma on_proc_app [simp]: "m (pr st) = (r, p) \<Longrightarrow> on_proc m st = (r, st\<lparr>pr := p\<rparr>)"
  by (simp add: on_proc_def)

lemma table_push:
  assumes t: "table_is st ts" and n: "length ts < MAX_POPEN" and fd: "2 < fd" and p: "\<forall>d \<le> 2. pfds p d \<noteq> None"
  shows "table_is (st\<lparr>pr := p, next_file := Suc (next_file st), fileno := (fileno st)(next_file st := fd),
      popen_streams := (popen_streams st)[length ts := Some (next_file st)],
      popen_pids := (popen_pids st)[length ts := pid], popen_count := Suc (length ts)\<rparr>) ((next_file st, pid) # ts)"
  using assms by (auto simp: table_is_def take_Suc_conv_app_nth less_Suc_eq)

lemma sys_pipe_None:
  "sys_pipe os s = (res, p) \<Longrightarrow> \<nexists>r w. res = Ok (Some (r, w)) \<Longrightarrow> res = Ok None \<and> pfds p = pfds s"
  by (auto simp: sys_pipe_def Let_def split: if_splits option.splits)

text \<open>The parent's side of \<open>my_popen\<close>: every way it can end.\<close>

lemma my_popen_cases [consumes 1, case_names refused opened]:
  assumes t: "table_is st ts"
  obtains (refused) p where "my_popen os fo command mode st = ((Ok None, st\<lparr>pr := p\<rparr>), [])"
      and "\<forall>d \<le> 2. pfds p d \<noteq> None"
    | (opened) r w p where "length ts < MAX_POPEN" and "mode = ''r'' \<or> mode = ''w''"
      and "sys_pipe os (pr st) = (Ok (Some (r, w)), p)" and "2 < r" and "2 < w" and "os_fork os (ticks p) \<noteq> - 1"
      and "my_popen os fo command mode st =
        (bindc (on_proc (sys_close (if mode = ''r'' then w else r))) (\<lambda>_.
         bindc (fdopen fo (if mode = ''r'' then r else w)) (\<lambda>f.
         seqc (remember f (os_fork os (ticks p))) (ret f))) (st\<lparr>pr := p\<lparr>ticks := Suc (ticks p)\<rparr>\<rparr>),
         [popen_child os command (mode = ''r'') r w (st\<lparr>pr := p\<lparr>ticks := Suc (ticks p)\<rparr>\<rparr>)])"
proof -
  have std: "\<forall>d \<le> 2. pfds (pr st) d \<noteq> None" and cnt: "popen_count st = length ts"
    using t by (simp_all add: table_is_def)
  show ?thesis
  proof (cases "length ts < MAX_POPEN \<and> (mode = ''r'' \<or> mode = ''w'')")
    case False
    then have "\<exists>str. my_popen os fo command mode st = ((Ok None, st\<lparr>pr := (pr st)\<lparr>pout := pout (pr st) @ str\<rparr>\<rparr>), [])"
      by (auto simp: my_popen_def cnt)
    then show ?thesis using refused std by auto
  next
    case True
    obtain res p where sp: "sys_pipe os (pr st) = (res, p)" by fastforce
    show ?thesis
    proof (cases "\<exists>r w. res = Ok (Some (r, w))")
      case False
      then have res: "res = Ok None" and p: "pfds p = pfds (pr st)" using sys_pipe_None[OF sp] by auto
      have "my_popen os fo command mode st = ((Ok None, st\<lparr>pr := p\<lparr>perr := perr p @ ''pipe'' @ '': '' @ os_strerror os (perrno p) @ [newline]\<rparr>\<rparr>), [])"
        using sp True by (auto simp: my_popen_def cnt res)
      then show ?thesis using refused std by (auto simp: p)
    next
      case rw: True
      then obtain r w where res: "res = Ok (Some (r, w))" by blast
      note fds = sys_pipe_fds[OF sp[unfolded res]]
      have gt: "2 < r" "2 < w" using fds(1,2) std by (metis not_le_imp_less)+
      have std': "\<forall>d \<le> 2. pfds p d \<noteq> None" using std fds(4) by auto
      show ?thesis
      proof (cases "os_fork os (ticks p) = - 1")
        case True
        then have "my_popen os fo command mode st = ((Ok None, st\<lparr>pr := p\<lparr>ticks := Suc (ticks p), perrno := os_errno os (ticks p),
            perr := perr p @ ''fork'' @ '': '' @ os_strerror os (os_errno os (ticks p)) @ [newline]\<rparr>\<rparr>), [])"
          using sp res \<open>length ts < MAX_POPEN \<and> _\<close> by (auto simp: my_popen_def cnt Let_def)
        then show ?thesis using refused std' by auto
      next
        case False
        then show ?thesis using opened[of r w p] sp res True gt
          by (auto simp: my_popen_def cnt Let_def)
      qed
    qed
  qed
qed

lemma my_popen_push:
  assumes t: "table_is st ts" and r: "my_popen os True command mode st = ((Ok (Some f), st1), cs)"
  shows "\<exists>r w p. sys_pipe os (pr st) = (Ok (Some (r, w)), p) \<and> 2 < r \<and> 2 < w \<and> f = next_file st \<and>
    os_fork os (ticks p) \<noteq> - 1 \<and> table_is st1 ((f, os_fork os (ticks p)) # ts) \<and>
    cs = [popen_child os command (mode = ''r'') r w (st\<lparr>pr := p\<lparr>ticks := Suc (ticks p)\<rparr>\<rparr>)]"
  using t
proof (cases rule: my_popen_cases[of st ts, where os = os and fo = True and command = command and mode = mode])
  case (refused p)
  with r show ?thesis by simp
next
  case (opened r w p)
  have "\<forall>d \<le> 2. pfds p d \<noteq> None" using t sys_pipe_fds[OF opened(3)] by (auto simp: table_is_def)
  then have "table_is st1 ((f, os_fork os (ticks p)) # ts) \<and> f = next_file st"
    using r opened(1,4,5,7) t table_push[OF t opened(1), of "if mode = ''r'' then r else w" "p\<lparr>ticks := Suc (ticks p), pfds := (pfds p)((if mode = ''r'' then w else r) := None)\<rparr>"
        "os_fork os (ticks p)"]
    by (auto simp: sys_close_def fdopen_def remember_def table_is_def[of st ts] split: if_splits)
  moreover have "cs = [popen_child os command (mode = ''r'') r w (st\<lparr>pr := p\<lparr>ticks := Suc (ticks p)\<rparr>\<rparr>)]"
    using r opened(7) by simp
  ultimately show ?thesis using opened(3,4,5,6) by blast
qed

lemma my_popen_None:
  assumes t: "table_is st ts" and r: "my_popen os True command mode st = ((Ok None, st1), cs)"
  shows "table_is st1 ts"
  using t
proof (cases rule: my_popen_cases[of st ts, where os = os and fo = True and command = command and mode = mode])
  case (refused p)
  then show ?thesis using r t by (auto simp: table_is_def)
next
  case (opened r w p)
  then show ?thesis using r by (simp add: sys_close_def fdopen_def remember_def split: if_splits)
qed

lemma my_popen_Ok:
  assumes t: "table_is st ts"
  obtains f st1 cs where "my_popen os fo command mode st = ((Ok f, st1), cs)"
  using t
proof (cases rule: my_popen_cases[of st ts, where os = os and fo = fo and command = command and mode = mode])
  case (refused p)
  then show ?thesis using that by blast
next
  case (opened r w p)
  then show ?thesis using that by (cases fo) (simp_all add: sys_close_def fdopen_def remember_def split: if_splits)
qed

lemma find_slot:
  assumes t: "table_is st ts" and i: "i < length ts"
  shows "List.find (\<lambda>j. popen_streams st ! j = Some (fst (rev ts ! i))) [0..<length ts] = Some i"
    and "popen_pids st ! i = snd (rev ts ! i)"
proof -
  have slot: "popen_streams st ! j = Some (fst (rev ts ! j))" if "j < length ts" for j
    using t that by (metis (no_types, lifting) length_rev nth_map nth_take table_is_def)
  have "distinct (map fst (rev ts))" using t by (simp add: table_is_def rev_map[symmetric])
  then have "fst (rev ts ! j) = fst (rev ts ! i) \<longleftrightarrow> j = i" if "j < length ts" for j
    using that i by (metis (no_types, lifting) length_map length_rev nth_eq_iff_index_eq nth_map)
  then show "List.find (\<lambda>j. popen_streams st ! j = Some (fst (rev ts ! i))) [0..<length ts] = Some i"
    using slot i by (auto simp: find_Some_iff intro!: exI[of _ i])
  show "popen_pids st ! i = snd (rev ts ! i)"
    using t i by (metis (no_types, lifting) length_rev nth_map nth_take table_is_def)
qed

text \<open>\<open>my_pclose\<close> of the stream in slot \<open>i\<close>.\<close>

lemma my_pclose_slot:
  assumes t: "table_is st ts" and i: "i < length ts" and h: "rev ts ! i = (f, pid)"
  shows "my_pclose os f st =
    (let p = (pr st)\<lparr>ticks := Suc (ticks (pr st)), pfds := (pfds (pr st))(fileno st f := None), pevents := pevents (pr st) @ [EvWait pid]\<rparr>;
         st1 = st\<lparr>popen_streams := (popen_streams st)[i := None], popen_pids := (popen_pids st)[i := 0]\<rparr>
     in case os_wait os (ticks (pr st)) of
       None \<Rightarrow> (Ok None, st1\<lparr>pr := p\<lparr>perrno := os_errno os (ticks (pr st)),
          perr := perr p @ ''waitpid: '' @ os_strerror os (os_errno os (ticks (pr st))) @ [newline]\<rparr>\<rparr>)
     | Some stat \<Rightarrow> (Ok (Some stat), st1\<lparr>pr := p\<lparr>pout := pout p @ show_status stat\<rparr>, popen_count := length ts - 1\<rparr>))"
proof -
  have "popen_count st = length ts" using t by (simp add: table_is_def)
  then show ?thesis using find_slot[OF t i] h
    by (simp add: my_pclose_def sys_close_def waitpid_def Let_def cmd_simps on_proc_def bindc_def split: option.split)
qed

lemma table_pop:
  assumes t: "table_is st (tp # ts)" and p: "\<forall>d \<le> 2. pfds p d \<noteq> None"
  shows "table_is (st\<lparr>popen_streams := (popen_streams st)[length ts := None], popen_pids := (popen_pids st)[length ts := 0],
     pr := p, popen_count := length ts\<rparr>) ts"
proof -
  have "take (length ts) (take (Suc (length ts)) xs) = take (length ts) xs" for xs :: "'a list" by simp
  then show ?thesis using assms unfolding table_is_def
    by (auto simp: min_def dest!: arg_cong[of "take (Suc (length ts)) _" _ "take (length ts)"])
qed

lemma exact_os_calls:
  "os_pipe exact_os t" "os_fork exact_os t = 4711" "os_wait exact_os t = Some (Exited 0)" "os_exec exact_os t q"
  by (simp_all add: exact_os_def)

text \<open>The first stream of a fresh program takes the descriptors 3 and 4.\<close>

lemma sys_pipe_start:
  "os_pipe os 0 \<Longrightarrow> sys_pipe os (start_proc input) = (Ok (Some (3, 4)),
     (start_proc input)\<lparr>ticks := 1, pfds := std_fds(3 := Some (PipeR 0), 4 := Some (PipeW 0))\<rparr>)"
proof -
  have "free_fd std_fds = Some 3"
    by (auto simp: free_fd_def find_Some_iff std_fds_def less_Suc_eq intro!: exI[of _ 3])
  moreover have "free_fd (std_fds(3 := Some (PipeR 0))) = Some 4"
    by (auto simp: free_fd_def find_Some_iff std_fds_def intro!: exI[of _ 4])
  ultimately show "os_pipe os 0 \<Longrightarrow> ?thesis" by (simp add: sys_pipe_def start_proc_def Let_def)
qed

lemma my_popen_start:
  assumes "os_pipe os 0" and "os_fork os 1 \<noteq> - 1" and "mode = ''r'' \<or> mode = ''w''"
  shows "fst (my_popen os True command mode (popen_start input)) = (Ok (Some 0), (popen_start input)\<lparr>
    pr := (start_proc input)\<lparr>ticks := 2,
       pfds := std_fds((if mode = ''r'' then 3 else 4) := Some (if mode = ''r'' then PipeR 0 else PipeW 0))\<rparr>,
    next_file := 1, fileno := (\<lambda>_. 0)(0 := if mode = ''r'' then 3 else 4),
    popen_streams := (replicate MAX_POPEN None)[0 := Some 0],
    popen_pids := (replicate MAX_POPEN 0)[0 := os_fork os 1], popen_count := 1\<rparr>)"
  using assms sys_pipe_start[OF assms(1), of input]
  by (auto simp: my_popen_def popen_start_def MAX_POPEN_def sys_close_def fdopen_def remember_def fun_eq_iff std_fds_def numeral_2_eq_2)

text \<open>
  C35: The table of open streams is a stack.  As long as \<open>fdopen\<close> does not fail,
  \<open>my_popen\<close> from a table \<open>ts\<close> either returns a null pointer and leaves the table as it was, or pushes a
  new stream with its child; and \<open>my_pclose\<close> of the stream opened last closes it, waits for
  exactly its child and, when that succeeds, pops it.
\<close>

theorem popen_refines_stack:
  assumes "table_is st ts"
  shows "(case fst (my_popen os True command mode st) of
      (Ok None, st1) \<Rightarrow> table_is st1 ts
    | (Ok (Some f), st1) \<Rightarrow> (\<exists>p pid. pid \<noteq> - 1 \<and> sys_pipe os (pr st) = (Ok (Some p), (snd (sys_pipe os (pr st)))) \<and>
        pid = os_fork os (ticks (snd (sys_pipe os (pr st)))) \<and> table_is st1 ((f, pid) # ts))
    | _ \<Rightarrow> False)
    \<and> (case ts of [] \<Rightarrow> True | (f, pid) # rest \<Rightarrow>
        (case my_pclose os f st of (r, st1) \<Rightarrow>
          r = Ok (os_wait os (ticks (pr st))) \<and> pevents (pr st1) = pevents (pr st) @ [EvWait pid]
          \<and> pfds (pr st1) = (pfds (pr st))(fileno st f := None)
          \<and> (case r of Ok (Some stat) \<Rightarrow> table_is st1 rest | _ \<Rightarrow> popen_count st1 = popen_count st)))"
proof
  obtain f st1 cs where r: "my_popen os True command mode st = ((Ok f, st1), cs)"
    using my_popen_Ok[OF assms] by metis
  then show "case fst (my_popen os True command mode st) of
      (Ok None, st1) \<Rightarrow> table_is st1 ts
    | (Ok (Some f), st1) \<Rightarrow> (\<exists>p pid. pid \<noteq> - 1 \<and> sys_pipe os (pr st) = (Ok (Some p), (snd (sys_pipe os (pr st)))) \<and>
        pid = os_fork os (ticks (snd (sys_pipe os (pr st)))) \<and> table_is st1 ((f, pid) # ts))
    | _ \<Rightarrow> False"
    using my_popen_None[OF assms, of os command mode st1 cs] my_popen_push[OF assms, of os command mode _ st1 cs]
    by (cases f) fastforce+
next
  show "case ts of [] \<Rightarrow> True | (f, pid) # rest \<Rightarrow>
        (case my_pclose os f st of (r, st1) \<Rightarrow>
          r = Ok (os_wait os (ticks (pr st))) \<and> pevents (pr st1) = pevents (pr st) @ [EvWait pid]
          \<and> pfds (pr st1) = (pfds (pr st))(fileno st f := None)
          \<and> (case r of Ok (Some stat) \<Rightarrow> table_is st1 rest | _ \<Rightarrow> popen_count st1 = popen_count st))"
  proof (cases ts)
    case (Cons tp rest)
    obtain f pid where tp: "tp = (f, pid)" by (cases tp)
    have d: "\<forall>d \<le> 2. ((pfds (pr st))(fileno st f := None)) d \<noteq> None"
      using assms by (auto simp: table_is_def Cons tp)
    show ?thesis using my_pclose_slot[OF assms, of "length rest" f pid os] table_pop[OF assms[unfolded Cons]] d
      by (auto simp: Cons tp Let_def nth_append split: option.split)
  qed simp
qed

theorem popen_refines_stack_witness:
  "case my_pclose exact_os 0 (snd (fst (my_popen exact_os True ''ls'' ''r'' (popen_start []))))
   of (r, st1) \<Rightarrow> r = Ok (Some (Exited 0)) \<and> pevents (pr st1) = [EvWait 4711]"
proof -
  note r = my_popen_start[of exact_os "''r''" "''ls''" "[]"]
  have pr: "pr (popen_start []) = start_proc []" by (simp add: popen_start_def)
  have t: "table_is (snd (fst (my_popen exact_os True ''ls'' ''r'' (popen_start [])))) [(0, 4711)]"
    using popen_refines_stack[OF table_start[of "[]"], where os = exact_os and command = "''ls''" and mode = "''r''"] sys_pipe_start[of exact_os "[]"] r
    by (simp add: exact_os_calls pr)
  show ?thesis using popen_refines_stack[OF t, where os = exact_os, THEN conjunct2] r
    by (auto simp: exact_os_calls start_proc_def split: prod.splits)
qed

section \<open>The children\<close>

lemma close_streams_some:
  "close_streams fno (map Some hs) p = (Ok (), p\<lparr>pfds := \<lambda>fd. if fd \<in> fno ` set hs then None else pfds p fd\<rparr>)"
proof (induction hs arbitrary: p)
  case (Cons h hs)
  then show ?case by (auto simp: sys_close_def fun_eq_iff)
qed simp

lemma close_streams_none: "None \<in> set hs \<Longrightarrow> fst (close_streams fno hs p) = Undef Null_deref"
proof (induction hs arbitrary: p)
  case (Cons h hs)
  then show ?case by (cases h) (simp_all add: sys_close_def)
qed simp

lemma seqc_Undef_fst: "fst (m s) = Undef u \<Longrightarrow> fst (seqc m n s) = Undef u"
  by (cases "m s") simp

lemma popen_child_none:
  assumes "None \<in> set (take (popen_count st) (popen_streams st))"
  shows "fst (popen_child os command reading r w st) = Undef Null_deref"
  by (simp add: popen_child_def sys_close_def dup2_def seqc_Undef_fst[OF close_streams_none[OF assms]])

lemma my_popen_children:
  assumes "c \<in> set (snd (my_popen os fo command mode st))"
    and "None \<in> set (take (popen_count st) (popen_streams st))"
  shows "fst c = Undef Null_deref"
proof -
  obtain reading r w p where "c = popen_child os command reading r w (st\<lparr>pr := p\<rparr>)"
    using assms(1) by (auto simp: my_popen_def on_proc_def Let_def split: if_splits prod.splits outcome.splits option.splits)
  then show ?thesis using popen_child_none[of "st\<lparr>pr := p\<rparr>"] assms(2) by simp
qed

text \<open>
  The command that \<open>my_popen\<close> starts is run by the shell with its standard output (mode
  \<open>r\<close>) or its standard input (mode \<open>w\<close>) on the pipe.  Every other descriptor is as in the
  parent, except that the streams that were open are closed: no child keeps an end of another
  child's pipe.
\<close>

theorem popen_child_connected:
  assumes "table_is st ts" and "my_popen os True command mode st = ((Ok (Some f), st1), cs)"
    and "\<And>t p. os_exec os t p"
  shows "\<exists>p. cs = [(Exec ''/bin/sh'' [''sh'', ''-c'', command], p)]
    \<and> pfds p = (\<lambda>fd. if fd \<in> (\<lambda>t. fileno st (fst t)) ` set ts then None
        else ((pfds (pr st))(if mode = ''r'' then 1 else 0
          := Some (if mode = ''r'' then PipeW (ticks (pr st)) else PipeR (ticks (pr st))))) fd)"
proof -
  obtain r w p where sp: "sys_pipe os (pr st) = (Ok (Some (r, w)), p)" and gt: "2 < r" "2 < w"
      and cs: "cs = [popen_child os command (mode = ''r'') r w (st\<lparr>pr := p\<lparr>ticks := Suc (ticks p)\<rparr>\<rparr>)]"
    using my_popen_push[OF assms(1,2)] by blast
  have streams: "take (popen_count st) (popen_streams st) = map Some (map fst (rev ts))"
    and off: "\<And>t. t \<in> set ts \<Longrightarrow> 2 < fileno st (fst t)"
    using assms(1) by (simp_all add: table_is_def)
  show ?thesis using sys_pipe_fds[OF sp] gt assms(3) off
    by (auto simp: cs popen_child_def streams sys_close_def dup2_def exec_shell_def seqc_def bindc_def
        close_streams_some fun_eq_iff simp del: map_map)
qed

theorem popen_child_connected_witness:
  "\<exists>p. snd (my_popen exact_os True ''ls'' ''r'' (popen_start [])) = [(Exec ''/bin/sh'' [''sh'', ''-c'', ''ls''], p)]
    \<and> pfds p = std_fds(1 := Some (PipeW 0))"
proof -
  note r = my_popen_start[of exact_os "''r''" "''ls''" "[]"]
  have "fst (my_popen exact_os True ''ls'' ''r'' (popen_start [])) = (Ok (Some 0), snd (fst (my_popen exact_os True ''ls'' ''r'' (popen_start []))))"
    by (simp add: r exact_os_calls)
  then have "my_popen exact_os True ''ls'' ''r'' (popen_start []) = ((Ok (Some 0), snd (fst (my_popen exact_os True ''ls'' ''r'' (popen_start [])))),
      snd (my_popen exact_os True ''ls'' ''r'' (popen_start [])))"
    by (metis prod.collapse)
  from popen_child_connected[OF table_start this exact_os_calls(4)] show ?thesis
    by (simp add: popen_start_def start_proc_def fun_upd_def)
qed

text \<open>
  The count of open streams is also the length of the table that is searched.  Closing a
  stream that is not the one opened last leaves a hole and hides the last one: \<open>my_pclose\<close> of that
  one returns -1 without closing it or waiting for its child, and the child of every later
  \<open>my_popen\<close> calls \<open>fileno\<close> on the null pointer in the hole.
\<close>

theorem popen_out_of_order:
  assumes t: "table_is st ((g, q) # ts)" and f: "(f, p) \<in> set ts"
    and c: "my_pclose os f st = (Ok (Some stat), st1)"
  shows "my_pclose os2 g st1 = (Ok None, st1) \<and>
    fst ` set (snd (my_popen os2 fo command mode st1)) \<subseteq> {Undef Null_deref}"
proof -
  obtain i where i: "i < length ts" "rev ts ! i = (f, p)"
    using f by (metis in_set_conv_nth length_rev set_rev)
  then have ri: "rev ((g, q) # ts) ! i = (f, p)" by (simp add: nth_append)
  have st1: "popen_streams st1 = (popen_streams st)[i := None]" "popen_count st1 = length ts"
    using my_pclose_slot[OF t _ ri, of os] i(1) c by (auto simp: Let_def split: option.splits)
  have slot: "popen_streams st ! j = Some (fst (rev ((g, q) # ts) ! j))" if "j \<le> length ts" for j
    using t that unfolding table_is_def
    by (metis (no_types, lifting) length_Cons length_rev less_Suc_eq_le nth_map nth_take)
  have len: "length ts < length (popen_streams st)" using t by (auto simp: table_is_def)
  have "popen_streams st1 ! j \<noteq> Some g" if "j < length ts" for j
  proof -
    have "rev ts ! j \<in> set ts" using that by (metis length_rev nth_mem set_rev)
    then have "fst (rev ts ! j) \<noteq> g" using t by (auto simp: table_is_def)
    then show ?thesis using that slot[of j] len by (cases "j = i") (simp_all add: st1 nth_append)
  qed
  then have "List.find (\<lambda>j. popen_streams st1 ! j = Some g) [0..<length ts] = None"
    by (auto simp: find_None_iff)
  moreover have "None \<in> set (take (popen_count st1) (popen_streams st1))"
    using i(1) len by (auto simp: st1 in_set_conv_nth intro!: exI[of _ i])
  ultimately show ?thesis using my_popen_children[of _ os2 fo command mode st1]
    by (auto simp: my_pclose_def st1(2))
qed

definition two_streams :: popen where
  "two_streams = snd (fst (my_popen exact_os True ''wc'' ''r'' (snd (fst (my_popen exact_os True ''ls'' ''r'' (popen_start []))))))"

lemma two_streams_table: "table_is two_streams [(1, 4711), (0, 4711)]"
proof -
  note r = my_popen_start[of exact_os "''r''" "''ls''" "[]"]
  obtain st1 cs where r1: "my_popen exact_os True ''ls'' ''r'' (popen_start []) = ((Ok (Some 0), st1), cs)"
    using r by (cases "my_popen exact_os True ''ls'' ''r'' (popen_start [])") (simp add: exact_os_calls)
  have st1: "pr st1 = (start_proc [])\<lparr>ticks := 2, pfds := std_fds(3 := Some (PipeR 0))\<rparr>" "popen_count st1 = 1" "next_file st1 = 1"
    using r r1 by (auto simp: exact_os_calls)
  have t1: "table_is st1 [(0, 4711)]"
    using my_popen_push[OF table_start r1] by (auto simp: exact_os_calls)
  have "free_fd (std_fds(3 := Some (PipeR 0))) = Some 4"
    by (auto simp: free_fd_def find_Some_iff std_fds_def intro!: exI[of _ 4])
  moreover have "free_fd (std_fds(3 := Some (PipeR 0), 4 := Some (PipeR 2))) = Some 5"
    by (auto simp: free_fd_def find_Some_iff std_fds_def intro!: exI[of _ 5])
  ultimately have "fst (fst (my_popen exact_os True ''wc'' ''r'' st1)) = Ok (Some 1)"
    by (simp add: my_popen_def st1 sys_pipe_def exact_os_calls Let_def MAX_POPEN_def sys_close_def fdopen_def remember_def)
  then have r2: "my_popen exact_os True ''wc'' ''r'' st1 = ((Ok (Some 1), two_streams), snd (my_popen exact_os True ''wc'' ''r'' st1))"
    by (simp add: two_streams_def r1 prod_eq_iff)
  show ?thesis using my_popen_push[OF t1 r2] by (auto simp: exact_os_calls)
qed

theorem popen_out_of_order_witness:
  "my_pclose exact_os 1 (snd (my_pclose exact_os 0 two_streams)) = (Ok None, snd (my_pclose exact_os 0 two_streams))"
proof -
  have "fst (my_pclose exact_os 0 two_streams) = Ok (Some (Exited 0))"
    using my_pclose_slot[OF two_streams_table, of 0 0 4711 exact_os] by (simp add: exact_os_calls Let_def)
  then have c: "my_pclose exact_os 0 two_streams = (Ok (Some (Exited 0)), snd (my_pclose exact_os 0 two_streams))"
    by (metis prod.collapse)
  show ?thesis using popen_out_of_order[OF two_streams_table _ c, of 4711] by simp
qed

section \<open>The program\<close>

text \<open>
  The program from end to end, when the pipe, the fork and the wait succeed and no NUL is sent:
  \<open>44_2 command r\<close> writes out everything the command writes, \<open>44_2 command w\<close> asks for a
  line and sends it, cut after 255 characters, to the command.  Both then wait for exactly the
  command, report how it ended, have no descriptor left open, and exit 0.
\<close>

theorem popen_main_runs:
  assumes calls: "os_pipe os 0" "os_fork os 1 \<noteq> - 1" "os_wait os 2 = Some stat"
    and ok: "mode = ''r'' \<and> NUL \<notin> set out \<or> mode = ''w'' \<and> input \<noteq> [] \<and> NUL \<notin> set input"
  shows "case popen_main os True (\<lambda>_. None) out [prog, command, mode] (popen_start input) of ((r, st), cs, sent) \<Rightarrow>
      r = Exit 0 \<and> sent = (if mode = ''r'' then [] else take 255 (fgets_line input)) \<and> length cs = 1
    \<and> pout (pr st) = (if mode = ''r'' then out else ''Enter for command: '') @ show_status stat
    \<and> pevents (pr st) = [EvWait (os_fork os 1)] \<and> pfds (pr st) = std_fds \<and> table_is st []"
proof -
  have m: "mode = ''r'' \<or> mode = ''w''" using ok by blast
  note r = my_popen_start[OF calls(1,2) m, of command input]
  obtain st1 cs where r1: "my_popen os True command mode (popen_start input) = ((Ok (Some 0), st1), cs)"
    using r by (metis (no_types, lifting) fst_conv prod.collapse)
  obtain p where push: "table_is st1 [(0, os_fork os (ticks p))]" "length cs = 1"
      and sp: "sys_pipe os (pr (popen_start input)) = (Ok (Some (3, 4)), p)"
    using my_popen_push[OF table_start r1] sys_pipe_start[OF calls(1), of input] by (fastforce simp: popen_start_def)
  have tp: "ticks p = 1" using sp sys_pipe_start[OF calls(1), of input] by (auto simp: popen_start_def)
  define st2 where "st2 = st1\<lparr>pr := (pr st1)\<lparr>pout := pout (pr st1) @ (if mode = ''r'' then out else ''Enter for command: '')\<rparr>\<rparr>"
  have t2: "table_is st2 [(0, os_fork os 1)]" using push(1) by (auto simp: table_is_def st2_def tp)
  have st2: "pfds (pr st2) = std_fds((if mode = ''r'' then 3 else 4) := Some (if mode = ''r'' then PipeR 0 else PipeW 0))"
      "fileno st2 0 = (if mode = ''r'' then 3 else 4)" "ticks (pr st2) = 2" "pevents (pr st2) = []" "pin (pr st2) = input"
      "pout (pr st2) = (if mode = ''r'' then out else ''Enter for command: '')"
    using r r1 by (auto simp: st2_def start_proc_def)
  define st3 where "st3 = st2\<lparr>popen_streams := (popen_streams st2)[0 := None], popen_pids := (popen_pids st2)[0 := 0],
     pr := (pr st2)\<lparr>ticks := 3, pfds := (pfds (pr st2))(fileno st2 0 := None), pevents := [EvWait (os_fork os 1)],
       pout := pout (pr st2) @ show_status stat\<rparr>, popen_count := 0\<rparr>"
  have close: "my_pclose os 0 st2 = (Ok (Some stat), st3)"
    using my_pclose_slot[OF t2, of 0 0 "os_fork os 1" os] calls(3) st2(3,4) by (simp add: Let_def st3_def)
  have "(pfds (pr st2))(fileno st2 0 := None) = std_fds" using st2(1,2) by (auto simp: fun_eq_iff std_fds_def)
  then have fin: "pout (pr st3) = pout (pr st2) @ show_status stat" "pevents (pr st3) = [EvWait (os_fork os 1)]"
      "pfds (pr st3) = std_fds" "table_is st3 []"
    using table_pop[OF t2, of "pr st3"] by (simp_all add: st3_def std_fds_def)
  have main: "popen_main os True (\<lambda>_. None) out [prog, command, mode] (popen_start input) =
    (let finish = bindc (my_pclose os 0) (\<lambda>r. if r = None then seqc (on_proc (printf ''my_pclose'')) (exitc 1) else exitc 0)
     in if mode = ''r'' then (seqc (on_proc (copy_lines os (\<lambda>_. None) 0 out)) finish st1, cs, [])
        else case on_proc (printf ''Enter for command: '') st1 of (_, st2) \<Rightarrow> (case fgets 256 (pin (pr st2)) of
            None \<Rightarrow> (seqc (on_proc (perror os ''fgets'')) (exitc 1) st2, cs, [])
          | Some (got, _) \<Rightarrow> (finish st2, cs, takeWhile (\<lambda>c. c \<noteq> NUL) got)))"
    by (simp add: popen_main_def r1 cong: option.case_cong prod.case_cong if_cong)
  have said: "on_proc (printf (if mode = ''r'' then out else ''Enter for command: '')) st1 = (Ok (), st2)"
    by (simp add: on_proc_def st2_def)
  show ?thesis
  proof (cases "mode = ''r''")
    case True
    then show ?thesis using ok close fin push(2)
      unfolding main using said by (simp add: on_proc_def copy_lines_shows show_lines_all st2(6) seqc_app bindc_def)
  next
    case False
    then show ?thesis using ok close fin push(2)
      unfolding main using said by (auto simp: st2(5,6) fgets_def take_NUL_free)
  qed
qed

theorem popen_main_runs_witness:
  "case popen_main exact_os True (\<lambda>_. None) (''a'' @ [newline]) [''44_2'', ''ls'', ''r''] (popen_start []) of
     ((r, st), cs, sent) \<Rightarrow> r = Exit 0 \<and> pout (pr st) = ''a'' @ newline # ''exited, status='' @ dec 0 @ [newline]"
  using popen_main_runs[of exact_os "Exited 0" "''r''" "''a'' @ [newline]" "[]" "''44_2''" "''ls''"]
  by (simp add: exact_os_calls show_status_def split: prod.splits)

end
