(* ===== verification/FileCopy.thy ===== *)
theory FileCopy
  imports CNum
begin

text \<open>
  Programs that copy files: the tee of SP_HW1 (SP_hw1-1.c), its file with holes and the copy of one
  (create_hole_file.c, SP_hw1-2.c), the tail of SP_HW2 and the copy with \<open>mmap\<close> of SP_HW9/49_1.
  Every call can fail: whether each of them does is an argument, and \<open>err m\<close> is the line that
  \<open>perror (m)\<close> prints.
\<close>

section \<open>Files\<close>

record disk =
  files :: "string \<Rightarrow> string option"
  stdout :: string
  stderr :: string

definition emit :: "string \<Rightarrow> (unit, disk) cmd" where
  "emit bs = modifyc (\<lambda>d. d\<lparr>stdout := stdout d @ bs\<rparr>)"

definition complain :: "string \<Rightarrow> (unit, disk) cmd" where
  "complain msg = modifyc (\<lambda>d. d\<lparr>stderr := stderr d @ msg\<rparr>)"

text \<open>\<open>perr_exit\<close> of SP_HW1, and \<open>perror (m); exit (1);\<close>.\<close>

definition perr_exit :: "(string \<Rightarrow> string) \<Rightarrow> string \<Rightarrow> ('a, disk) cmd" where
  "perr_exit err pe = seqc (complain (err pe)) (exitc 1)"

text \<open>\<open>if (call == -1) perr_exit (pe);\<close>\<close>

definition must :: "(string \<Rightarrow> string) \<Rightarrow> bool \<Rightarrow> string \<Rightarrow> (unit, disk) cmd" where
  "must err succeeds pe = (if succeeds then ret () else perr_exit err pe)"

definition set_file :: "string \<Rightarrow> string \<Rightarrow> (unit, disk) cmd" where
  "set_file p c = modifyc (\<lambda>d. d\<lparr>files := (files d)(p \<mapsto> c)\<rparr>)"

definition contents :: "disk \<Rightarrow> string \<Rightarrow> string" where
  "contents d p = (case files d p of None \<Rightarrow> [] | Some c \<Rightarrow> c)"

text \<open>\<open>write\<close> at an offset: a gap behind the end of the file reads as zeros.\<close>

definition write_at :: "string \<Rightarrow> nat \<Rightarrow> string \<Rightarrow> string" where
  "write_at f off bs = (if bs = [] then f
     else take off f @ replicate (off - length f) NUL @ bs @ drop (off + length bs) f)"

lemma emit_app [simp, cmd_simps]: "emit bs d = (Ok (), d\<lparr>stdout := stdout d @ bs\<rparr>)"
  by (simp add: emit_def)

lemma complain_app [simp, cmd_simps]: "complain msg d = (Ok (), d\<lparr>stderr := stderr d @ msg\<rparr>)"
  by (simp add: complain_def)

lemma perr_exit_app [simp, cmd_simps]: "perr_exit err pe d = (Exit 1, d\<lparr>stderr := stderr d @ err pe\<rparr>)"
  by (simp add: perr_exit_def cmd_simps)

lemma must_True [simp]: "must err True pe = ret ()"
  by (simp add: must_def)

lemma set_file_app [simp, cmd_simps]: "set_file p c d = (Ok (), d\<lparr>files := (files d)(p \<mapsto> c)\<rparr>)"
  by (simp add: set_file_def)

lemma write_at_length: "bs \<noteq> [] \<Longrightarrow> length (write_at f off bs) = max (length f) (off + length bs)"
  by (simp add: write_at_def)

lemma write_at_char:
  "i < max (length f) (Suc off) \<Longrightarrow>
   write_at f off [c] ! i = (if i = off then c else if i < length f then f ! i else NUL)"
  by (auto simp: write_at_def nth_append min_def)

lemma write_at_Nil [simp]: "write_at [] n bs = (if bs = [] then [] else replicate n NUL @ bs)"
  by (simp add: write_at_def)

section \<open>tee\<close>

definition TEE_READ :: nat where "TEE_READ = 1024"








section \<open>A file with holes\<close>

definition FILE_SIZE :: nat where "FILE_SIZE = 1024"
definition HOLE_SIZE :: nat where "HOLE_SIZE = 5"

text \<open>
  The writing loop, with the offset of the descriptor and the file; it is left when the \<open>write\<close> of
  character \<open>i\<close> fails.
\<close>

fun hole_loop :: "(nat \<Rightarrow> bool) \<Rightarrow> nat \<Rightarrow> string \<Rightarrow> nat \<Rightarrow> string \<Rightarrow> bool \<times> string" where
  "hole_loop writes i [] off f = (True, f)"
| "hole_loop writes i (c # cs) off f =
     (if \<not> writes i then (False, f) else hole_loop writes (Suc i) cs (off + 1 + HOLE_SIZE) (write_at f off [c]))"

text \<open>
  The result of \<open>fgets\<close> is not looked at: at the end of the input the array is not set.  The
  \<open>perr_exit\<close> of this program prints the word \<open>message\<close>, not its argument.
\<close>

definition create_hole_file :: "(string \<Rightarrow> string) \<Rightarrow> bool \<Rightarrow> (nat \<Rightarrow> bool) \<Rightarrow> bool \<Rightarrow> string \<Rightarrow> (unit, disk) cmd" where
  "create_hole_file err opens writes closes input =
     seqc (emit (''Enter content for hole_file: '' @ [newline]))
     (case fgets FILE_SIZE input of
        None \<Rightarrow> undefc Uninit_read
      | Some (content, _) \<Rightarrow>
          if \<not> opens then perr_exit err ''message''
          else bindc (\<lambda>d. case hole_loop writes 0 (takeWhile (\<lambda>c. c \<noteq> NUL) content) 0 (contents d ''hole_file'') of
              (done_all, f) \<Rightarrow> seqc (set_file ''hole_file'' f) (ret done_all) d) (\<lambda>done_all.
            seqc (must err done_all ''message'')
            (seqc (must err closes ''message'')
            (emit (CHR 0x22 # ''hole_file'' @ CHR 0x22 # '' is created successfully'' @ [newline])))))"

section \<open>The copy of a file with holes\<close>

definition COPY_BUF :: nat where "COPY_BUF = 1024"

text \<open>\<open>strcmp\<close> of two arrays, neither of which need hold a NUL: whether it gives 0.\<close>

fun same_string :: "string \<Rightarrow> string \<Rightarrow> bool outcome" where
  "same_string (x # xs) (y # ys) = (if x \<noteq> y then Ok False else if x = NUL then Ok True else same_string xs ys)"
| "same_string _ _ = Undef Out_of_bounds"

text \<open>How the calls fare; \<open>write\<close> of so many bytes writes that many, fewer, or fails.\<close>

record copy_calls =
  cc_open :: bool
  cc_read :: bool
  cc_write :: "nat \<Rightarrow> nat option"
  cc_close_in :: bool
  cc_close_out :: bool

text \<open>
  What the two arrays hold before they are written is an argument; \<open>null_char\<close> is never written.
  The output file is truncated before the input is read.  With a name missing the
  null pointer does not open.
\<close>

definition copy_hole :: "(string \<Rightarrow> string) \<Rightarrow> copy_calls \<Rightarrow> string \<Rightarrow> string \<Rightarrow> string list \<Rightarrow> (unit, disk) cmd" where
  "copy_hole err calls buf null_char argv d =
     (if length argv > 3 then perr_exit err ''too many argument in cmd line'' d
      else if length argv < 3 then perr_exit err ''open'' d
      else case files d (argv ! 1) of
        None \<Rightarrow> perr_exit err ''open'' d
      | Some _ \<Rightarrow>
          if \<not> cc_open calls then perr_exit err ''open'' d
          else seqc (set_file (argv ! 2) []) (seqc (must err (cc_read calls) ''read'') (\<lambda>d.
            let got = take COPY_BUF (contents d (argv ! 1)) in
            bindc (liftc (same_string (got @ drop (length got) buf) null_char)) (\<lambda>same.
            case cc_write calls (length got) of
              None \<Rightarrow> perr_exit err ''write() returned error or partial write occurred''
            | Some n \<Rightarrow>
                seqc (set_file (argv ! 2) (write_at [] (if same then length got else 0) (take n got)))
                (seqc (must err (n = length got) ''write() returned error or partial write occurred'')
                (seqc (must err (cc_close_in calls) ''close input'') (must err (cc_close_out calls) ''close output'')))) d)) d)"

section \<open>tail\<close>

definition BUFF_SIZE :: nat where "BUFF_SIZE = 4096"

text \<open>
  The loop over \<open>getopt (argc, argv, "n:")\<close>: the number, whether \<open>-n\<close> was given, and the
  words in their new order, the options first.  An option word can end the options, hold only other
  letters, or hold an \<open>n\<close> with its argument behind it or in the next word.
\<close>

datatype word_kind = Plain | Ends | Flags | Takes string | Wants

definition kind_of :: "string \<Rightarrow> word_kind" where
  "kind_of w =
     (if w = ''--'' then Ends
      else if take 1 w \<noteq> ''-'' \<or> length w = 1 then Plain
      else case dropWhile (\<lambda>c. c \<noteq> CHR ''n'') (tl w) of
          [] \<Rightarrow> Flags | _ # v \<Rightarrow> (if v = [] then Wants else Takes v))"

fun tail_opts :: "string list \<Rightarrow> int \<times> bool \<Rightarrow> (int \<times> bool) \<times> string list \<times> string list" where
  "tail_opts [] num = (num, [], [])"
| "tail_opts [w] num = (case kind_of w of
       Plain \<Rightarrow> (num, [], [w]) | Takes v \<Rightarrow> ((atoi v, True), [w], []) | _ \<Rightarrow> (num, [w], []))"
| "tail_opts (w # v # ws) num = (case kind_of w of
       Ends \<Rightarrow> (num, [w], v # ws)
     | Plain \<Rightarrow> (case tail_opts (v # ws) num of (num', opts, rest) \<Rightarrow> (num', opts, w # rest))
     | Flags \<Rightarrow> (case tail_opts (v # ws) num of (num', opts, rest) \<Rightarrow> (num', w # opts, rest))
     | Takes x \<Rightarrow> (case tail_opts (v # ws) (atoi x, True) of (num', opts, rest) \<Rightarrow> (num', w # opts, rest))
     | Wants \<Rightarrow> (case tail_opts ws (atoi v, True) of (num', opts, rest) \<Rightarrow> (num', w # v # opts, rest)))"

text \<open>\<open>argv[n]\<close> of \<open>argc\<close> words: the last one is followed by a null pointer.\<close>

definition argv_at :: "string list \<Rightarrow> nat \<Rightarrow> string option outcome" where
  "argv_at argv n = (if n < length argv then Ok (Some (argv ! n)) else if n = length argv then Ok None
     else Undef Out_of_bounds)"

text \<open>The loop from the end of the buffer: the newlines counted, and where it breaks.\<close>

fun scan_back :: "string \<Rightarrow> int \<Rightarrow> nat \<Rightarrow> int \<Rightarrow> int \<times> nat option" where
  "scan_back buf goal 0 coun = (coun, None)"
| "scan_back buf goal (Suc i) coun =
     (let coun' = (if buf ! i = newline then coun + 1 else coun) in
      if coun' = goal then (coun', Some i) else scan_back buf goal i coun')"

text \<open>The \<open>perr_exit\<close> of this program prints its argument on standard output.\<close>

definition say_exit :: "string \<Rightarrow> ('a, disk) cmd" where
  "say_exit pe = seqc (emit pe) (exitc 1)"

lemma say_exit_app [simp, cmd_simps]: "say_exit pe d = (Exit 1, d\<lparr>stdout := stdout d @ pe\<rparr>)"
  by (simp add: say_exit_def cmd_simps)

text \<open>A negative length makes \<open>write\<close> fail.\<close>

definition tail_write :: "bool \<Rightarrow> bool \<Rightarrow> int \<Rightarrow> string \<Rightarrow> (unit, disk) cmd" where
  "tail_write writes closes num buf =
     bindc (liftc (int_add num 1)) (\<lambda>goal.
     case scan_back buf goal (length buf) 0 of (coun, at) \<Rightarrow>
       let offset = (if coun = num then int (length buf) + 1
                     else case at of Some i \<Rightarrow> int (length buf) - int i | None \<Rightarrow> 0)
       in if coun < num then say_exit ''num is too big''
          else if offset - 1 < 0 \<or> \<not> writes then say_exit ''write''
          else seqc (emit (take (nat (offset - 1)) (drop (nat (int (length buf) - offset + 1)) buf)))
            (if closes then ret () else say_exit ''close''))"

record tail_calls =
  tl_setvbuf :: bool
  tl_fadvise :: bool
  tl_read :: bool
  tl_write :: bool
  tl_close :: bool

text \<open>
  Whether \<open>posix_fadvise\<close>, which is given a descriptor that has no value yet, succeeds is an
  argument.  A full buffer leaves no room for the NUL behind it.
\<close>

definition tail_main :: "tail_calls \<Rightarrow> string list \<Rightarrow> (unit, disk) cmd" where
  "tail_main calls argv d =
     (case tail_opts (tl argv) (10, False) of ((num, given), opts, rest) \<Rightarrow>
        if \<not> tl_setvbuf calls then say_exit ''setvbuf'' d
        else if \<not> tl_fadvise calls then say_exit ''posix_fadvise'' d
        else bindc (liftc (argv_at (hd argv # opts @ rest) (if given then 3 else 1))) (\<lambda>p.
          case (case p of None \<Rightarrow> None | Some p \<Rightarrow> files d p) of
            None \<Rightarrow> say_exit (''failed to open '' @ CHR 0x22 # ''file'' @ [CHR 0x22])
          | Some c \<Rightarrow> if \<not> tl_read calls then say_exit ''file_size unfound''
              else if length c \<ge> BUFF_SIZE then undefc Buffer_overflow
              else tail_write (tl_write calls) (tl_close calls) num c) d)"

section \<open>The copy with mmap\<close>

text \<open>
  A mapping that has not been touched shows the file as it is when it is read; a mapping of length 0
  is refused.  The calls are numbered from \<open>fstat\<close> on.
\<close>

definition mmap_copy :: "(string \<Rightarrow> string) \<Rightarrow> (nat \<Rightarrow> bool) \<Rightarrow> string list \<Rightarrow> (unit, disk) cmd" where
  "mmap_copy err calls argv d =
     (let fatal = (\<lambda>succeeds msg. must err succeeds (msg @ [newline])) in
      if length argv \<noteq> 3
      then seqc (emit (''Usage: '' @ hd argv @ '' <source_file> <dest_file>'' @ [newline])) (exitc 1) d
      else case files d (argv ! 1) of
        None \<Rightarrow> perr_exit err (''open src'' @ [newline]) d
      | Some c \<Rightarrow>
          seqc (fatal (calls 0) ''fstat'')
          (seqc (fatal (calls 1 \<and> c \<noteq> []) ''mmap src_addr'')
          (seqc (fatal (calls 2) ''open dest'')
          (seqc (set_file (argv ! 2) [])
          (seqc (fatal (calls 3) ''ftruncate'')
          (seqc (set_file (argv ! 2) (replicate (length c) NUL))
          (seqc (fatal (calls 4) ''mmap dest_addr'')
          (seqc (\<lambda>d. set_file (argv ! 2) (take (length c) (contents d (argv ! 1))) d)
          (seqc (emit (argv ! 1 @ '' has been successfully copyed to '' @ argv ! 2 @ '' using memmory mapping.'' @ [newline]))
          (seqc (fatal (calls 5) ''close src_fd'')
          (seqc (fatal (calls 6) ''close src_fd'')
          (seqc (fatal (calls 7) ''munmap src_fd'')
          (fatal (calls 8) ''munmap dest_fd'')))))))))))) d)"

section \<open>Properties\<close>









text \<open>The file the writing loop makes when every character is written.\<close>

fun spread :: "string \<Rightarrow> nat \<Rightarrow> string \<Rightarrow> string" where
  "spread [] off f = f"
| "spread (c # cs) off f = spread cs (off + 1 + HOLE_SIZE) (write_at f off [c])"

lemma hole_loop_spread: "hole_loop (\<lambda>_. True) i cs off f = (True, spread cs off f)"
  by (induction cs arbitrary: i off f) auto

lemma spread_length:
  "s \<noteq> [] \<Longrightarrow> length (spread s off f) = max (length f) (off + 6 * (length s - 1) + 1)"
proof (induction s arbitrary: off f)
  case (Cons c cs)
  show ?case
  proof (cases cs)
    case Nil
    then show ?thesis by (simp add: write_at_length)
  next
    case (Cons c' cs')
    then have "cs \<noteq> []" by simp
    then show ?thesis using Cons.IH[of "off + 1 + HOLE_SIZE" "write_at f off [c]"]
      by (simp add: Cons HOLE_SIZE_def write_at_length del: spread.simps(2)) (simp add: HOLE_SIZE_def)
  qed
qed simp

lemma spread_nth:
  "i < max (length f) (off + 6 * (length s - 1) + 1) \<Longrightarrow> s \<noteq> [] \<Longrightarrow> spread s off f ! i =
    (if off \<le> i \<and> (i - off) mod 6 = 0 \<and> (i - off) div 6 < length s then s ! ((i - off) div 6)
     else if i < length f then f ! i else NUL)"
proof (induction s arbitrary: off f)
  case (Cons c cs)
  let ?f = "write_at f off [c]"
  have len: "length ?f = max (length f) (off + 1)" by (simp add: write_at_length)
  show ?case
  proof (cases "cs = []")
    case True
    then show ?thesis using Cons.prems by (auto simp: write_at_char)
  next
    case False
    then have "spread (c # cs) off f ! i = (if off + 6 \<le> i \<and> (i - (off + 6)) mod 6 = 0 \<and> (i - (off + 6)) div 6 < length cs
        then cs ! ((i - (off + 6)) div 6) else if i < length ?f then ?f ! i else NUL)"
      using Cons.prems len by (subst Cons.IH[symmetric]) (auto simp: HOLE_SIZE_def add.commute)
    also have "\<dots> = (if off \<le> i \<and> (i - off) mod 6 = 0 \<and> (i - off) div 6 < length (c # cs) then (c # cs) ! ((i - off) div 6)
        else if i < length f then f ! i else NUL)"
    proof (cases "off + 6 \<le> i")
      case True
      then obtain k where k: "i = off + 6 + k" by (metis le_Suc_ex)
      then show ?thesis using len by (auto simp: write_at_char)
    next
      case False
      then show ?thesis using len by (cases "off \<le> i") (auto simp: write_at_char mod_less div_less)
    qed
    finally show ?thesis .
  qed
qed simp

text \<open>
  The file that create_hole_file makes of a line holds its characters at the multiples of 6 and
  zeros in the five bytes behind each of them; nothing is written behind the last character.  A file
  that was there before is not truncated: its old bytes fill the holes and stay behind the end.
\<close>

theorem hole_file_layout:
  assumes "fgets FILE_SIZE input = Some (got, rest)" and "s = takeWhile (\<lambda>c. c \<noteq> NUL) got" and "s \<noteq> []"
  shows "case create_hole_file err True (\<lambda>_. True) True input d of (r, t) \<Rightarrow>
    (\<exists>f. r = Ok () \<and> files t = (files d)(''hole_file'' \<mapsto> f)
      \<and> length f = max (length (contents d ''hole_file'')) (6 * (length s - 1) + 1)
      \<and> f = map (\<lambda>i. if i mod 6 = 0 \<and> i div 6 < length s then s ! (i div 6)
          else if i < length (contents d ''hole_file'') then contents d ''hole_file'' ! i else NUL) [0..<length f])"
proof -
  let ?f = "spread s 0 (contents d ''hole_file'')"
  have "?f = map (\<lambda>i. if i mod 6 = 0 \<and> i div 6 < length s then s ! (i div 6)
          else if i < length (contents d ''hole_file'') then contents d ''hole_file'' ! i else NUL) [0..<length ?f]"
    by (rule nth_equalityI) (simp_all add: spread_nth spread_length[OF assms(3)] assms(3))
  moreover have "fst (create_hole_file err True (\<lambda>_. True) True input d) = Ok () \<and> files (snd (create_hole_file err True (\<lambda>_. True) True input d)) = (files d)(''hole_file'' \<mapsto> ?f)"
    by (simp add: create_hole_file_def hole_loop_spread cmd_simps contents_def assms(1) assms(2)[symmetric])
  ultimately show ?thesis using spread_length[OF assms(3), of 0 "contents d ''hole_file''"]
    by (cases "create_hole_file err True (\<lambda>_. True) True input d") (auto intro!: exI[of _ ?f])
qed

theorem hole_file_layout_witness:
  "files (snd (create_hole_file id True (\<lambda>_. True) True ''ab'' \<lparr>files = Map.empty, stdout = [], stderr = []\<rparr>)) ''hole_file''
    = Some (''a'' @ [NUL, NUL, NUL, NUL, NUL] @ ''b'')"
proof -
  have "fgets FILE_SIZE ''ab'' = Some (''ab'', [])" by (simp add: fgets_def fgets_line_def FILE_SIZE_def)
  have c: "contents \<lparr>files = Map.empty, stdout = [], stderr = []\<rparr> ''hole_file'' = []" by (simp add: contents_def)
  have "''ab'' = takeWhile (\<lambda>c. c \<noteq> NUL) ''ab''" by simp
  from hole_file_layout[OF \<open>fgets _ _ = _\<close> this, where err = id and d = "\<lparr>files = Map.empty, stdout = [], stderr = []\<rparr>", unfolded c list.size(3) less_nat_zero_code if_False]
  obtain f where f: "files (snd (create_hole_file id True (\<lambda>_. True) True ''ab'' \<lparr>files = Map.empty, stdout = [], stderr = []\<rparr>)) ''hole_file'' = Some f"
      "length f = 7" "f = map (\<lambda>i. if i mod 6 = 0 \<and> i div 6 < 2 then ''ab'' ! (i div 6) else NUL) [0..<length f]"
    by (auto simp: numeral_2_eq_2 split: prod.splits)
  have "[0..<7] = [0, 1, 2, 3, 4, 5, 6 :: nat]" by (simp add: upt_rec)
  then have "f = ''a'' @ [NUL, NUL, NUL, NUL, NUL] @ ''b''" using f(3) unfolding f(2) by simp
  then show ?thesis using f(1) by simp
qed

text \<open>
  SP_hw1-2 copies at most the first 1024 bytes of a file; and when those, read as a string, are
  equal to what happened to be in an array that is never written (for an empty or zero-filled start of
  the stack: when the file begins with a NUL), they are written behind a hole of their own length.
\<close>

theorem copy_first_block:
  assumes "files d a = Some c" and "a \<noteq> b"
    and "same_string (take COPY_BUF c @ drop (length c) buf) null_char = Ok same"
    and "length buf = COPY_BUF"
  shows "copy_hole err \<lparr>cc_open = True, cc_read = True, cc_write = Some, cc_close_in = True, cc_close_out = True\<rparr>
      buf null_char [prog, a, b] d = (Ok (), d\<lparr>files := (files d)(b \<mapsto>
    (if same \<and> c \<noteq> [] then replicate (length (take COPY_BUF c)) NUL else []) @ take COPY_BUF c)\<rparr>)"
proof -
  have "drop (length (take COPY_BUF c)) buf = drop (length c) buf" using assms(4) by (simp add: min_def)
  then show ?thesis using assms(1-3) by (auto simp: copy_hole_def contents_def Let_def cmd_simps COPY_BUF_def)
qed

theorem copy_first_block_witness:
  "files (snd (copy_hole id \<lparr>cc_open = True, cc_read = True, cc_write = Some, cc_close_in = True, cc_close_out = True\<rparr>
     (replicate COPY_BUF NUL) (replicate COPY_BUF NUL) [''cp'', ''a'', ''b'']
     \<lparr>files = [''a'' \<mapsto> [NUL, CHR ''x'']], stdout = [], stderr = []\<rparr>)) ''b'' = Some [NUL, NUL, NUL, CHR ''x'']"
proof -
  have "same_string (take COPY_BUF [NUL, CHR ''x''] @ drop 2 (replicate COPY_BUF NUL)) (replicate COPY_BUF NUL) = Ok True"
    by (simp add: COPY_BUF_def numeral_eq_Suc)
  then show ?thesis
    using copy_first_block[where d = "\<lparr>files = [''a'' \<mapsto> [NUL, CHR ''x'']], stdout = [], stderr = []\<rparr>" and a = "''a''" and c = "[NUL, CHR ''x'']"
        and b = "''b''" and buf = "replicate COPY_BUF NUL" and null_char = "replicate COPY_BUF NUL" and same = True and err = id
        and prog = "''cp''"]
    by (simp add: COPY_BUF_def numeral_2_eq_2)
qed

text \<open>
  The copy with \<open>mmap\<close>, when no call fails, gives the new file the contents of the source, and when both
  names are the same file it replaces the contents with zeros; an empty source is refused before the new
  file is made.  Whatever fails, it ends with status 1 and no file but the new one changes.
\<close>

theorem mmap_copies:
  assumes "files d a = Some c"
  shows "case mmap_copy err calls [prog, a, b] d of (r, t) \<Rightarrow>
    (if c = [] then r = Exit 1 \<and> files t = files d
     else if \<forall>k. calls k then r = Ok () \<and> files t = (files d)(b \<mapsto> (if a = b then replicate (length c) NUL else c))
     else (r = Ok () \<or> r = Exit 1) \<and> (\<forall>p. p \<noteq> b \<longrightarrow> files t p = files d p))"
proof -
  have "fst (mmap_copy err calls [prog, a, b] d) = Ok () \<or> fst (mmap_copy err calls [prog, a, b] d) = Exit 1"
    "p \<noteq> b \<Longrightarrow> files (snd (mmap_copy err calls [prog, a, b] d)) p = files d p" for p
    using assms by (auto simp: mmap_copy_def must_def contents_def cmd_simps)
  moreover have "c = [] \<Longrightarrow> fst (mmap_copy err calls [prog, a, b] d) = Exit 1 \<and> files (snd (mmap_copy err calls [prog, a, b] d)) = files d"
    using assms by (auto simp: mmap_copy_def must_def cmd_simps)
  moreover have "c \<noteq> [] \<Longrightarrow> \<forall>k. calls k \<Longrightarrow> fst (mmap_copy err calls [prog, a, b] d) = Ok () \<and>
      files (snd (mmap_copy err calls [prog, a, b] d)) = (files d)(b \<mapsto> (if a = b then replicate (length c) NUL else c))"
    using assms by (auto simp: mmap_copy_def contents_def cmd_simps)
  ultimately show ?thesis by (auto split: prod.splits)
qed

theorem mmap_copies_witness:
  "files (snd (mmap_copy id (\<lambda>_. True) [''49_1'', ''a'', ''a''] \<lparr>files = [''a'' \<mapsto> ''xy''], stdout = [], stderr = []\<rparr>)) ''a''
    = Some [NUL, NUL]"
  using mmap_copies[where d = "\<lparr>files = [''a'' \<mapsto> ''xy''], stdout = [], stderr = []\<rparr>" and a = "''a''" and c = "''xy''" and err = id
      and calls = "\<lambda>_. True" and prog = "''49_1''" and b = "''a''"]
  by (simp add: numeral_2_eq_2 split: prod.splits)

section \<open>The last lines\<close>

definition newlines :: "string \<Rightarrow> int" where
  "newlines s = int (length (filter (\<lambda>c. c = newline) s))"

lemma newlines_simps [simp]:
  "newlines [] = 0" "newlines (s @ t) = newlines s + newlines t"
  "newlines (c # s) = (if c = newline then 1 else 0) + newlines s"
  by (simp_all add: newlines_def)

lemma newlines_nonneg: "0 \<le> newlines s"
  by (simp add: newlines_def)

lemma newlines_0: "newlines s = 0 \<longleftrightarrow> newline \<notin> set s"
  by (auto simp: newlines_def filter_empty_conv)

text \<open>The scan from the end of \<open>s @ t\<close>, when \<open>t\<close> has been passed.\<close>

lemma scan_back_few:
  "coun + newlines s < goal \<Longrightarrow> scan_back (s @ t) goal (length s) coun = (coun + newlines s, None)"
proof (induction s arbitrary: t coun rule: rev_induct)
  case (snoc c s)
  have "newlines s \<ge> 0" by (rule newlines_nonneg)
  with snoc show ?case using snoc.IH[of "coun + (if c = newline then 1 else 0)" "c # t"]
    by (auto simp: Let_def nth_append)
qed simp

lemma scan_back_found:
  assumes "coun + newlines u + 1 = goal"
  shows "scan_back (s @ newline # u @ t) goal (length (s @ newline # u)) coun = (goal, Some (length s))"
  using assms
proof (induction u arbitrary: t coun rule: rev_induct)
  case Nil
  then show ?case by (simp add: nth_append)
next
  case (snoc c u)
  let ?S = "s @ newline # (u @ [c]) @ t" and ?coun = "coun + (if c = newline then 1 else 0)"
  define n where "n = length (s @ newline # u)"
  have "?coun \<noteq> goal" using snoc.prems newlines_nonneg[of u] by auto
  moreover have "?S ! n = c" by (simp add: n_def nth_append)
  ultimately have "scan_back ?S goal (Suc n) coun = scan_back ?S goal n ?coun" by (auto simp: Let_def)
  moreover have "scan_back ?S goal n ?coun = (goal, Some (length s))"
    using snoc.IH[of ?coun "c # t"] snoc.prems by (simp add: n_def)
  moreover have "length (s @ newline # u @ [c]) = Suc n" by (simp add: n_def)
  ultimately show ?case by metis
qed

lemma newlines_unlines [simp]: "\<forall>l \<in> set ls. newline \<notin> set l \<Longrightarrow> newlines (unlines ls) = int (length ls)"
  by (induction ls) (auto simp: newlines_0)

definition no_failure :: tail_calls where
  "no_failure = \<lparr>tl_setvbuf = True, tl_fadvise = True, tl_read = True, tl_write = True, tl_close = True\<rparr>"

lemma tail_write_lines:
  assumes ls: "\<forall>l \<in> set ls. newline \<notin> set l" and r: "newline \<notin> set r" and n: "num < 2147483647"
  shows "tail_write True True (int num) (unlines ls @ r) d =
    (if num \<le> length ls then (Ok (), d\<lparr>stdout := stdout d @ unlines (drop (length ls - num) ls) @ r\<rparr>)
     else (Exit 1, d\<lparr>stdout := stdout d @ ''num is too big''\<rparr>))"
proof -
  have add: "int_add (int num) 1 = Ok (int num + 1)" using n by (simp add: int_add_def int_range_def INT_MAX_def INT_MIN_def)
  have all: "newlines (unlines ls @ r) = int (length ls)" using ls r by (simp add: newlines_0)
  show ?thesis
  proof (cases "num < length ls")
    case False
    then have "scan_back (unlines ls @ r) (int num + 1) (length (unlines ls @ r)) 0 = (int (length ls), None)"
      using scan_back_few[of 0 "unlines ls @ r" "int num + 1" "[]"] all by simp
    then show ?thesis using False by (auto simp: tail_write_def add cmd_simps)
  next
    case True
    define k where "k = length ls - num - 1"
    define ks where "ks = take k ls"
    define l where "l = ls ! k"
    define ms where "ms = drop (length ls - num) ls"
    have split: "ls = ks @ l # ms" unfolding ks_def l_def ms_def k_def
      using True id_take_nth_drop[of "length ls - num - 1" ls] by (simp add: Suc_diff_Suc)
    have m: "length ms = num" using True by (simp add: ms_def)
    let ?s = "unlines ks @ l"
    have b: "unlines ls @ r = ?s @ newline # unlines ms @ r" by (simp add: split)
    have "newlines (unlines ms @ r) = int num" using ls r m by (simp add: newlines_0 split)
    then have "scan_back (unlines ls @ r) (int num + 1) (length (unlines ls @ r)) 0 = (int num + 1, Some (length ?s))"
      using scan_back_found[of 0 "unlines ms @ r" "int num + 1" ?s "[]"] by (simp add: b)
    moreover have "nat (int (length (unlines ks)) + int (length l) + 1) - (length (unlines ks) + length l) = 1" by linarith
    ultimately show ?thesis using True unfolding ms_def[symmetric]
      by (simp add: tail_write_def add b nat_diff_distrib' cmd_simps)
  qed
qed

text \<open>
  tail of a file of less than 4096 bytes, given as lines with a newline each and what follows the
  last newline, prints the last \<open>num\<close> of these lines and the rest: one line too many when the last
  one has no newline.  A file with fewer lines is refused, where tail would show it whole.
\<close>

theorem tail_last_lines:
  assumes "tail_opts (tl argv) (10, False) = ((int num, given), opts, rest)"
    and "argv_at (hd argv # opts @ rest) (if given then 3 else 1) = Ok (Some p)" and "files d p = Some (unlines ls @ r)"
    and "\<forall>l \<in> set ls. newline \<notin> set l" and "newline \<notin> set r" and "num < 2147483647"
    and "length (unlines ls @ r) < BUFF_SIZE"
  shows "tail_main no_failure argv d =
    (if num \<le> length ls then (Ok (), d\<lparr>stdout := stdout d @ unlines (drop (length ls - num) ls) @ r\<rparr>)
     else (Exit 1, d\<lparr>stdout := stdout d @ ''num is too big''\<rparr>))"
  using assms(1-3,7) tail_write_lines[OF assms(4-6), of d] by (simp add: tail_main_def no_failure_def)

theorem tail_last_lines_witness:
  "stdout (snd (tail_main no_failure [''tail'', ''-n'', ''1'', ''f''] \<lparr>files = [''f'' \<mapsto> unlines [''a'', ''b''] @ ''c''], stdout = [], stderr = []\<rparr>))
    = unlines [''b''] @ ''c''"
proof -
  have a: "atoi ''1'' = 1"
    by (simp add: atoi_def strtol_def is_space_def strip_sign_def base_and_rest_def is_digit_in_def digit_val_def
        LONG_MAX_def LONG_MIN_def to_int32_def)
  then have "tail_opts (tl [''tail'', ''-n'', ''1'', ''f'']) (10, False) = ((int 1, True), [''-n'', ''1''], [''f''])"
    by (simp add: kind_of_def)
  from tail_last_lines[OF this, of "''f''" "\<lparr>files = [''f'' \<mapsto> unlines [''a'', ''b''] @ ''c''], stdout = [], stderr = []\<rparr>" "[''a'', ''b'']" "''c''"]
  show ?thesis by (simp add: argv_at_def BUFF_SIZE_def)
qed

end
