(* ===== verification/UpperPipe.thy ===== *)
theory UpperPipe
  imports CProc StepSys
begin

text \<open>
  SP_HW6/44_1.c: a parent sends its standard input through one pipe to a child, which converts it to
  upper case and sends it back through another; the parent writes it to standard output.  Each system
  call of the two loops is one step of \<open>up_step\<close>, so every interleaving is covered, and so are
  failing calls.  The pipes are those of Linux: a read takes what is there, a write of at most
  \<open>PIPE_BUF\<close> bytes is not divided.
\<close>

section \<open>The two processes\<close>

definition BUFSIZ :: nat where "BUFSIZ = 8192"
definition PIPE_BUF :: nat where "PIPE_BUF = 4096"
definition PIPE_SIZE :: nat where "PIPE_SIZE = 65536"

text \<open>
  Where the parent is: before reading its input, writing (how much the call was given, and what is
  left of it), before reading from the second pipe, before writing what it got, behind the loop, or
  ended by a failed call.
\<close>

datatype parent_pc = P_read | P_write nat string | P_get | P_put string | P_done | P_failed

text \<open>The child; \<open>C_undef\<close> is a string that is read past its array.\<close>

datatype child_pc = C_read | C_put nat string | C_done | C_failed | C_undef

text \<open>
  \<open>uoutput\<close> is what the parent's loop writes; the messages of calls that fail (on standard output,
  too) are left out.
\<close>

record upper =
  par :: parent_pc
  chld :: child_pc
  uinput :: string
  pipe1 :: string
  pipe2 :: string
  uoutput :: string

definition up_start :: "string \<Rightarrow> upper" where
  "up_start inp = \<lparr>par = P_read, chld = C_read, uinput = inp, pipe1 = [], pipe2 = [], uoutput = []\<rparr>"

text \<open>\<open>main\<close> up to the two loops; the closing of the unused ends is part of them.\<close>

definition up_main :: "os \<Rightarrow> (nat \<Rightarrow> int option) \<Rightarrow> (upper, proc) cmd" where
  "up_main os calls =
     seqc (checked os [(''pipe'', calls 0), (''pipe2'', calls 1), (''fork'', calls 2)]) (\<lambda>s. ret (up_start (pin s)) s)"

lemma up_main_starts: "up_main os calls p = (Ok s0, q) \<Longrightarrow> s0 = up_start (pin p)"
  unfolding up_main_def by (drule checked_continues) auto

definition toupper :: "char \<Rightarrow> char" where
  "toupper c = (if 97 \<le> (of_char c :: nat) \<and> (of_char c :: nat) \<le> 122 then char_of ((of_char c :: nat) - 32) else c)"

text \<open>
  The child's array after \<open>memset\<close> and a read of \<open>got\<close>: converted, and cut by \<open>strlen\<close>, at the
  first NUL; with a full array and no NUL there is none.
\<close>

definition convert_upper :: "string \<Rightarrow> child_pc" where
  "convert_upper got =
     (if length got \<ge> BUFSIZ \<and> NUL \<notin> set got then C_undef
      else let out = map toupper (takeWhile (\<lambda>c. c \<noteq> NUL) got) in C_put (length out) out)"

definition par_gone :: "upper \<Rightarrow> bool" where
  "par_gone s \<longleftrightarrow> par s = P_done \<or> par s = P_failed"

definition chld_gone :: "upper \<Rightarrow> bool" where
  "chld_gone s \<longleftrightarrow> chld s = C_done \<or> chld s = C_failed"

text \<open>How many bytes of the rest of a \<open>write\<close> of \<open>n\<close> bytes can go into a pipe at once.\<close>

definition can_write :: "nat \<Rightarrow> string \<Rightarrow> string \<Rightarrow> nat \<Rightarrow> bool" where
  "can_write n rest pipe j \<longleftrightarrow> 1 \<le> j \<and> j \<le> length rest \<and> length pipe + j \<le> PIPE_SIZE \<and> (n \<le> PIPE_BUF \<longrightarrow> j = length rest)"

text \<open>
  \<open>m\<close> is the most a read of the standard input gives at once; \<open>fails\<close> says whether calls may
  fail.  A write to a pipe without a reader
  kills the writer; a read from one without a writer gives nothing.
\<close>

inductive up_step :: "nat \<Rightarrow> bool \<Rightarrow> upper \<Rightarrow> upper \<Rightarrow> bool" for m fails where
  p_read: "par s = P_read \<Longrightarrow> 1 \<le> k \<Longrightarrow> k \<le> length (uinput s) \<Longrightarrow> k \<le> m \<Longrightarrow> k \<le> BUFSIZ \<Longrightarrow>
    up_step m fails s (s\<lparr>par := P_write k (take k (uinput s)), uinput := drop k (uinput s)\<rparr>)"
| p_eof: "par s = P_read \<Longrightarrow> uinput s = [] \<Longrightarrow> up_step m fails s (s\<lparr>par := P_done\<rparr>)"
| p_write: "par s = P_write n rest \<Longrightarrow> \<not> chld_gone s \<Longrightarrow> can_write n rest (pipe1 s) j \<Longrightarrow>
    up_step m fails s (s\<lparr>par := (if j = length rest then P_get else P_write n (drop j rest)), pipe1 := pipe1 s @ take j rest\<rparr>)"
| p_killed: "par s = P_write n rest \<Longrightarrow> chld_gone s \<Longrightarrow> up_step m fails s (s\<lparr>par := P_failed\<rparr>)"
| p_get: "par s = P_get \<Longrightarrow> pipe2 s \<noteq> [] \<Longrightarrow>
    up_step m fails s (s\<lparr>par := P_put (take BUFSIZ (pipe2 s)), pipe2 := drop BUFSIZ (pipe2 s)\<rparr>)"
| p_get_end: "par s = P_get \<Longrightarrow> pipe2 s = [] \<Longrightarrow> chld_gone s \<Longrightarrow> up_step m fails s (s\<lparr>par := P_put []\<rparr>)"
| p_put: "par s = P_put got \<Longrightarrow> up_step m fails s (s\<lparr>par := P_read, uoutput := uoutput s @ got\<rparr>)"
| p_fails: "fails \<Longrightarrow> \<not> par_gone s \<Longrightarrow> up_step m fails s (s\<lparr>par := P_failed\<rparr>)"
| c_read: "chld s = C_read \<Longrightarrow> pipe1 s \<noteq> [] \<Longrightarrow>
    up_step m fails s (s\<lparr>chld := convert_upper (take BUFSIZ (pipe1 s)), pipe1 := drop BUFSIZ (pipe1 s)\<rparr>)"
| c_eof: "chld s = C_read \<Longrightarrow> pipe1 s = [] \<Longrightarrow> par_gone s \<Longrightarrow> up_step m fails s (s\<lparr>chld := C_done\<rparr>)"
| c_put_nothing: "chld s = C_put n [] \<Longrightarrow> up_step m fails s (s\<lparr>chld := C_read\<rparr>)"
| c_put: "chld s = C_put n rest \<Longrightarrow> \<not> par_gone s \<Longrightarrow> can_write n rest (pipe2 s) j \<Longrightarrow>
    up_step m fails s (s\<lparr>chld := (if j = length rest then C_read else C_put n (drop j rest)), pipe2 := pipe2 s @ take j rest\<rparr>)"
| c_killed: "chld s = C_put n rest \<Longrightarrow> rest \<noteq> [] \<Longrightarrow> par_gone s \<Longrightarrow> up_step m fails s (s\<lparr>chld := C_failed\<rparr>)"
| c_fails: "fails \<Longrightarrow> chld s = C_read \<or> chld s = C_put n rest \<Longrightarrow> up_step m fails s (s\<lparr>chld := C_failed\<rparr>)"

inductive_cases up_stepE: "up_step m fails s t"

section \<open>Nothing is reordered\<close>

text \<open>What each process holds.\<close>

fun p_out :: "parent_pc \<Rightarrow> string" where
  "p_out (P_write n rest) = rest"
| "p_out _ = []"

fun p_in :: "parent_pc \<Rightarrow> string" where
  "p_in (P_put got) = got"
| "p_in _ = []"

fun c_out :: "child_pc \<Rightarrow> string" where
  "c_out (C_put n rest) = rest"
| "c_out _ = []"

lemma convert_upper_cases:
  assumes "NUL \<notin> set got"
  shows "convert_upper got = (if length got \<ge> BUFSIZ then C_undef else C_put (length got) (map toupper got))"
proof -
  have all: "takeWhile (\<lambda>c. c \<noteq> NUL) got = got" using assms by (induction got) auto
  show ?thesis unfolding convert_upper_def Let_def all using assms by simp
qed

text \<open>
  What is on its way comes out in order; what a process that has ended held is lost, with everything
  behind it.
\<close>

definition waiting :: "upper \<Rightarrow> string" where
  "waiting s = pipe1 s @ p_out (par s) @ uinput s"

definition child_inv :: "upper \<Rightarrow> string \<Rightarrow> bool" where
  "child_inv s rest \<longleftrightarrow> (if chld s = C_failed \<or> chld s = C_undef then True else rest = c_out (chld s) @ map toupper (waiting s))"

definition flow_inv :: "string \<Rightarrow> upper \<Rightarrow> bool" where
  "flow_inv whole s \<longleftrightarrow> NUL \<notin> set (waiting s) \<and>
     (\<exists>rest. map toupper whole = uoutput s @ rest \<and>
       (if par s = P_failed then True else \<exists>rest'. rest = p_in (par s) @ pipe2 s @ rest' \<and> child_inv s rest'))"

lemma waiting_step: "up_step m fails s t \<Longrightarrow> set (waiting t) \<subseteq> set (waiting s)"
  by (erule up_stepE) (auto simp: waiting_def dest: in_set_takeD in_set_dropD)

lemma convert_upper_out:
  "NUL \<notin> set got \<Longrightarrow> convert_upper got \<noteq> C_undef \<Longrightarrow> c_out (convert_upper got) = map toupper got"
  by (simp add: convert_upper_cases split: if_splits)

lemma convert_upper_not_failed [simp]: "convert_upper got \<noteq> C_failed" "convert_upper got \<noteq> C_done" "convert_upper got \<noteq> C_read"
  by (simp_all add: convert_upper_def Let_def)

text \<open>The child alone: what it still has to hand on, apart from what it has written.\<close>

lemma flow_step:
  assumes "up_step m fails s t" and "flow_inv whole s"
  shows "flow_inv whole t"
proof -
  have nul: "NUL \<notin> set (waiting s)" using assms(2) by (simp add: flow_inv_def)
  have nul': "NUL \<notin> set (waiting t)" using waiting_step[OF assms(1)] nul by blast
  have app: "take n xs @ drop n xs @ ys = xs @ ys" for n and xs ys :: string by simp
  show ?thesis
  proof (cases "par s = P_failed")
    case True
    have "uoutput t = uoutput s \<and> par t = P_failed" using assms(1) True by cases auto
    then show ?thesis using nul' assms(2) by (auto simp: flow_inv_def)
  next
    case False
    then obtain rest where r: "map toupper whole = uoutput s @ p_in (par s) @ pipe2 s @ rest" and c: "child_inv s rest"
      using assms(2) by (auto simp: flow_inv_def)
    have "par t = P_failed \<and> uoutput t = uoutput s \<or>
        (\<exists>rest. map toupper whole = uoutput t @ p_in (par t) @ pipe2 t @ rest \<and> child_inv t rest)"
      using assms(1)
    proof cases
      case c_read
      have "NUL \<notin> set (take BUFSIZ (pipe1 s))" using nul by (auto simp: waiting_def dest: in_set_takeD)
      then show ?thesis using r c c_read convert_upper_out
        by (auto simp: child_inv_def waiting_def map_append[symmetric] app simp del: map_append)
    next
      case p_get
      then show ?thesis using r c by (auto simp: child_inv_def waiting_def app intro!: exI[of _ rest])
    next
      case (p_write n out j)
      then show ?thesis using r c by (auto simp: child_inv_def waiting_def can_write_def map_append[symmetric] app simp del: map_append)
    qed (use r c in \<open>auto simp: child_inv_def waiting_def par_gone_def chld_gone_def\<close>)
    then show ?thesis using nul' r by (auto simp: flow_inv_def)
  qed
qed

interpretation flow: kept "up_step m fails" "flow_inv whole" for m fails whole
  by unfold_locales (rule flow_step)

lemma flow_start: "NUL \<notin> set whole \<Longrightarrow> flow_inv whole (up_start whole)"
  by (simp add: flow_inv_def child_inv_def waiting_def up_start_def)

section \<open>Every run ends\<close>

fun parent_left :: "parent_pc \<Rightarrow> nat" where
  "parent_left P_read = 1"
| "parent_left (P_write n rest) = 10 * length rest + 2"
| "parent_left P_get = 3"
| "parent_left (P_put got) = 2 * length got + 2"
| "parent_left P_done = 0"
| "parent_left P_failed = 0"

fun child_left :: "child_pc \<Rightarrow> nat" where
  "child_left C_read = 1"
| "child_left (C_put n rest) = 6 * length rest + 2"
| "child_left C_done = 0"
| "child_left C_failed = 0"
| "child_left C_undef = 0"

definition up_left :: "upper \<Rightarrow> nat" where
  "up_left s = 12 * length (uinput s) + parent_left (par s) + 8 * length (pipe1 s) + child_left (chld s) + 4 * length (pipe2 s)"

lemma convert_upper_left: "got \<noteq> [] \<Longrightarrow> child_left (convert_upper got) \<le> 6 * length got + 2"
  using length_takeWhile_le[of "\<lambda>c. c \<noteq> NUL" got] by (auto simp: convert_upper_def Let_def)

lemma up_left_decreases:
  assumes "up_step m fails s t"
  shows "up_left t < up_left s"
  using assms
proof cases
  case (c_read)
  then obtain c cs where "pipe1 s = c # cs" by (cases "pipe1 s") auto
  then show ?thesis using c_read convert_upper_left[of "take BUFSIZ (pipe1 s)"]
    by (auto simp: up_left_def min_def BUFSIZ_def split: if_splits)
next
  case (p_get)
  then obtain c cs where "pipe2 s = c # cs" by (cases "pipe2 s") auto
  then show ?thesis using p_get by (auto simp: up_left_def min_def BUFSIZ_def)
next
  case (p_fails)
  then show ?thesis by (cases "par s") (auto simp: up_left_def par_gone_def)
qed (auto simp: up_left_def can_write_def min_def)

section \<open>Short reads: one block at a time\<close>

text \<open>
  As long as no block is longer than \<open>PIPE_BUF\<close> there is at most one on its way, and only while
  the parent waits for it.
\<close>

definition blocks :: "upper \<Rightarrow> nat" where
  "blocks s = (if pipe1 s \<noteq> [] then 1 else 0) + (if pipe2 s \<noteq> [] then 1 else 0) + (if \<exists>n out. chld s = C_put n out then 1 else 0)"

definition lock :: "upper \<Rightarrow> bool" where
  "lock s \<longleftrightarrow> NUL \<notin> set (waiting s) \<and> chld s \<noteq> C_undef \<and> length (pipe1 s) \<le> PIPE_BUF \<and>
     (\<forall>n out. chld s = C_put n out \<longrightarrow> n = length out \<and> n \<le> PIPE_BUF \<and> out \<noteq> []) \<and>
     (\<forall>n rest. par s = P_write n rest \<longrightarrow> n = length rest \<and> n \<le> PIPE_BUF \<and> rest \<noteq> []) \<and>
     (par s \<noteq> P_failed \<and> chld s \<noteq> C_failed \<longrightarrow> blocks s = (if par s = P_get then 1 else 0) \<and>
       length (pipe2 s) \<le> PIPE_BUF \<and> (chld s = C_done \<longrightarrow> par s = P_done))"

lemma lock_step:
  assumes "up_step m fails s t" and "lock s" and "m \<le> PIPE_BUF"
  shows "lock t"
proof -
  have nul: "NUL \<notin> set (waiting t)" using waiting_step[OF assms(1)] assms(2) by (auto simp: lock_def)
  show ?thesis using assms(1)
  proof cases
    case c_read
    have short: "take BUFSIZ (pipe1 s) = pipe1 s" "length (pipe1 s) < BUFSIZ"
      using assms(2) by (simp_all add: lock_def PIPE_BUF_def BUFSIZ_def)
    have "NUL \<notin> set (pipe1 s)" using assms(2) by (simp add: lock_def waiting_def)
    then have "convert_upper (pipe1 s) = C_put (length (pipe1 s)) (map toupper (pipe1 s))"
      using short(2) by (simp add: convert_upper_cases)
    then show ?thesis using c_read nul short assms(2) by (auto simp: lock_def blocks_def split: if_splits)
  next
    case p_get
    then show ?thesis using nul assms(2) by (auto simp: lock_def blocks_def PIPE_BUF_def BUFSIZ_def split: if_splits)
  qed (use nul assms(2,3) in \<open>auto simp: lock_def blocks_def can_write_def par_gone_def chld_gone_def split: if_splits\<close>)
qed

interpretation locked: kept "up_step m fails" "\<lambda>s. lock s \<and> m \<le> PIPE_BUF" for m fails
  by unfold_locales (blast intro: lock_step)

lemma lock_start: "NUL \<notin> set inp \<Longrightarrow> lock (up_start inp)"
  by (simp add: lock_def up_start_def waiting_def blocks_def)

lemma no_failure_step:
  assumes "up_step m False s t" and "lock s \<and> par s \<noteq> P_failed \<and> chld s \<noteq> C_failed"
  shows "par t \<noteq> P_failed \<and> chld t \<noteq> C_failed"
  using assms
  by cases (auto simp: lock_def blocks_def chld_gone_def par_gone_def convert_upper_def Let_def split: if_splits)

interpretation unfailing: kept "up_step m False"
  "\<lambda>s. (lock s \<and> m \<le> PIPE_BUF) \<and> par s \<noteq> P_failed \<and> chld s \<noteq> C_failed" for m
  by unfold_locales (blast dest: lock_step no_failure_step)

lemma stuck_gone:
  assumes l: "lock s" and no: "stopped (up_step m False) s" and m: "1 \<le> m"
  shows "par_gone s \<and> chld_gone s"
proof -
  have n: "\<not> up_step m False s t" for t using no by (simp add: stopped_def)
  have par: "par_gone s"
  proof (cases "par s")
    case P_read
    then show ?thesis using n p_eof[of s m False] p_read[of s 1 m False] m
      by (cases "uinput s") (auto simp: BUFSIZ_def)
  next
    case (P_write k rest)
    then have k: "k = length rest" "rest \<noteq> []" "k \<le> PIPE_BUF" using l by (simp_all add: lock_def)
    then have "1 \<le> length rest" by (cases rest) auto
    then have "chld_gone s \<or> can_write k rest (pipe1 s) (length rest)"
      using l P_write k by (auto simp: lock_def chld_gone_def blocks_def can_write_def PIPE_SIZE_def PIPE_BUF_def split: if_splits)
    then show ?thesis using P_write n p_killed[of s k rest m False] p_write[of s k rest "length rest" m False] by blast
  next
    case P_get
    have p2: "pipe2 s = []" using n p_get[of s m False] P_get by blast
    moreover have ng: "\<not> chld_gone s" using n p_get_end[of s m False] P_get p2 by blast
    ultimately have "blocks s = 1" using l P_get by (auto simp: lock_def chld_gone_def)
    then consider "pipe1 s \<noteq> []" "\<forall>k out. chld s \<noteq> C_put k out" | k out where "chld s = C_put k out"
      using p2 by (auto simp: blocks_def split: if_splits)
    then show ?thesis
    proof cases
      case 1
      then have "chld s = C_read" using ng l by (cases "chld s") (auto simp: chld_gone_def lock_def)
      then show ?thesis using n c_read[of s m False] 1 by blast
    next
      case (2 k out)
      then have "k = length out" "k \<le> PIPE_BUF" "out \<noteq> []" using l by (simp_all add: lock_def)
      then have "can_write k out (pipe2 s) (length out)"
        using p2 by (cases out) (auto simp: can_write_def PIPE_SIZE_def PIPE_BUF_def)
      then show ?thesis using n c_put[of s k out "length out" m False] 2 P_get by (auto simp: par_gone_def)
    qed
  next
    case (P_put got)
    then show ?thesis using n p_put[of s got m False] by blast
  qed (simp_all add: par_gone_def)
  moreover have "chld_gone s"
  proof (cases "chld s")
    case C_read
    then show ?thesis using n c_read[of s m False] c_eof[of s m False] par by blast
  next
    case (C_put k out)
    then have "out \<noteq> []" using l by (simp add: lock_def)
    then show ?thesis using n c_killed[of s k out m False] C_put par by blast
  qed (use l in \<open>simp_all add: chld_gone_def lock_def\<close>)
  ultimately show ?thesis by simp
qed

interpretation filtering: finishing "up_step m False" "\<lambda>s. 1 \<le> m \<and> m \<le> PIPE_BUF \<and> lock s" up_left
  "\<lambda>s. par_gone s \<and> chld_gone s" for m
  by unfold_locales (blast intro: lock_step up_left_decreases dest: stuck_gone)+

interpretation upping: measured "up_step m fails" up_left for m fails
  by unfold_locales (rule up_left_decreases)

lemma done_input_step:
  "up_step m fails s t \<Longrightarrow> par s = P_done \<longrightarrow> uinput s = [] \<Longrightarrow> par t = P_done \<longrightarrow> uinput t = []"
  by (erule up_stepE) (auto split: if_splits)

interpretation drained: kept "up_step m fails" "\<lambda>s. par s = P_done \<longrightarrow> uinput s = []" for m fails
  by unfold_locales (rule done_input_step)

section \<open>Properties\<close>

text \<open>
  C36: When no read of the standard input gives more than \<open>PIPE_BUF\<close> bytes (a terminal does not)
  and the input has no NUL: every run has at most \<open>12 n + 2\<close> steps for \<open>n\<close> bytes; neither
  process ever hangs, whatever calls fail; and without failing calls both leave their loops, with
  exactly the input in upper case written.
\<close>

theorem upper_complete:
  assumes "NUL \<notin> set inp" and "1 \<le> m" and "m \<le> PIPE_BUF"
    and "up_main os calls p = (Ok s0, q)" and "inp = pin p" and "(up_step m fails ^^ n) s0 s"
  shows "n \<le> 12 * length inp + 2 \<and> uoutput s = take (length (uoutput s)) (map toupper inp) \<and>
    (if stopped (up_step m False) s then par_gone s \<and> chld_gone s \<and>
       (if fails then True else par s = P_done \<and> chld s = C_done \<and> uoutput s = map toupper inp) else True)"
proof -
  have run: "(up_step m fails ^^ n) (up_start inp) s"
    using assms(5,6) up_main_starts[OF assms(4)] by simp
  then have reach: "(up_step m fails)\<^sup>*\<^sup>* (up_start inp) s" by (rule relpowp_imp_rtranclp)
  have l: "lock s" using locked.reach[OF reach] lock_start[OF assms(1)] assms(3) by blast
  have f: "flow_inv inp s" by (rule flow.reach[OF reach flow_start[OF assms(1)]])
  have n: "n \<le> 12 * length inp + 2"
    using upping.run_bound[OF run] by (simp add: up_left_def up_start_def)
  obtain rest where "map toupper inp = uoutput s @ rest" using f by (auto simp: flow_inv_def)
  then have pre: "uoutput s = take (length (uoutput s)) (map toupper inp)" by simp
  have "par s = P_done \<and> chld s = C_done \<and> uoutput s = map toupper inp" if "\<not> fails" "stopped (up_step m False) s"
  proof -
    have ends: "par s = P_done" "chld s = C_done"
      using unfailing.reach[of m "up_start inp" s] reach that stuck_gone[OF l that(2) assms(2)] lock_start[OF assms(1)] assms(3)
      by (auto simp: par_gone_def chld_gone_def up_start_def)
    have e: "pipe1 s = [] \<and> pipe2 s = []" using l ends by (auto simp: lock_def blocks_def split: if_splits)
    have u: "uinput s = []" using drained.reach[OF reach] ends by (simp add: up_start_def)
    show ?thesis using f ends e u by (auto simp: flow_inv_def child_inv_def waiting_def)
  qed
  then show ?thesis using n pre stuck_gone[OF l _ assms(2)] by auto
qed


lemma p_write_all:
  "par s = P_write n rest \<Longrightarrow> \<not> chld_gone s \<Longrightarrow> rest \<noteq> [] \<Longrightarrow> length (pipe1 s) + length rest \<le> PIPE_SIZE \<Longrightarrow>
   up_step m fails s (s\<lparr>par := P_get, pipe1 := pipe1 s @ rest\<rparr>)"
  using p_write[of s n rest "length rest" m fails] by (cases rest) (auto simp: can_write_def)

lemma c_put_all:
  "chld s = C_put n rest \<Longrightarrow> \<not> par_gone s \<Longrightarrow> rest \<noteq> [] \<Longrightarrow> length (pipe2 s) + length rest \<le> PIPE_SIZE \<Longrightarrow>
   up_step m fails s (s\<lparr>chld := C_read, pipe2 := pipe2 s @ rest\<rparr>)"
  using c_put[of s n rest "length rest" m fails] by (cases rest) (auto simp: can_write_def)




lemma toupper_a: "toupper (CHR ''a'') = CHR ''A''"
  by code_simp

lemmas up_Suc = run_Suc[of "up_step m fails" for m fails]


text \<open>One byte from the input to the output.\<close>

definition one_up :: upper where
  "one_up = \<lparr>par = P_done, chld = C_done, uinput = [], pipe1 = [], pipe2 = [], uoutput = ''A''\<rparr>"

lemma one_up_run: "(up_step 1 False ^^ 8) (up_start ''a'') one_up"
proof -
  let ?s0 = "up_start ''a''"
  let ?s1 = "?s0\<lparr>par := P_write 1 ''a'', uinput := []\<rparr>"
  let ?s2 = "?s1\<lparr>par := P_get, pipe1 := ''a''\<rparr>"
  let ?s3 = "?s2\<lparr>chld := C_put 1 ''A'', pipe1 := []\<rparr>"
  let ?s4 = "?s3\<lparr>chld := C_read, pipe2 := ''A''\<rparr>"
  let ?s5 = "?s4\<lparr>par := P_put ''A'', pipe2 := []\<rparr>"
  let ?s6 = "?s5\<lparr>par := P_read, uoutput := ''A''\<rparr>"
  let ?s7 = "?s6\<lparr>par := P_done\<rparr>"
  note d = up_start_def par_gone_def chld_gone_def PIPE_SIZE_def
  have B: "take BUFSIZ [x] = [x]" "drop BUFSIZ [x] = []" for x :: char by (simp_all add: BUFSIZ_def)
  have 1: "up_step 1 False ?s0 ?s1" using p_read[of ?s0 1 1 False] by (simp add: d BUFSIZ_def)
  have 2: "up_step 1 False ?s1 ?s2" using p_write_all[of ?s1 1 "''a''" 1 False] by (simp add: d)
  have 3: "up_step 1 False ?s2 ?s3"
    using c_read[of ?s2 1 False] by (simp add: d B convert_upper_cases toupper_a BUFSIZ_def)
  have 4: "up_step 1 False ?s3 ?s4" using c_put_all[of ?s3 1 "''A''" 1 False] by (simp add: d)
  have 5: "up_step 1 False ?s4 ?s5" using p_get[of ?s4 1 False] by (simp add: d B)
  have 6: "up_step 1 False ?s5 ?s6" using p_put[of ?s5 "''A''" 1 False] by (simp add: d)
  have 7: "up_step 1 False ?s6 ?s7" using p_eof[of ?s6 1 False] by (simp add: d)
  have 8: "up_step 1 False ?s7 one_up" using c_eof[of ?s7 1 False] by (simp add: d one_up_def)
  have eight: "8 = Suc (Suc (Suc (Suc (Suc (Suc (Suc (Suc 0)))))))" by simp
  show ?thesis unfolding eight
    by (rule up_Suc[OF 1] up_Suc[OF 2] up_Suc[OF 3] up_Suc[OF 4] up_Suc[OF 5]
        up_Suc[OF 6] up_Suc[OF 7] up_Suc[OF 8] relpowp_0_I)+
qed

theorem upper_complete_witness: "8 \<le> 12 * length ''a'' + (2 :: nat) \<and> uoutput one_up = map toupper ''a''"
proof -
  have "stopped (up_step 1 False) one_up" by (auto simp: stopped_def one_up_def par_gone_def elim!: up_stepE)
  moreover have "up_main exact_os (\<lambda>_. None) (start_proc ''a'') = (Ok (up_start ''a''), start_proc ''a'')"
    by (simp add: up_main_def start_proc_def)
  ultimately show ?thesis
    using upper_complete[OF _ _ _ _ _ one_up_run, where p = "start_proc ''a''" and inp = "''a''"]
    by (simp add: PIPE_BUF_def start_proc_def)
qed

end
