(* ===== verification/Signals.thy ===== *)
theory Signals
  imports CProc StepSys
begin

text \<open>
  SP_HW7: 22_3.c, a parent and a child that send each other a signal in turn, and 22_4.c, the System V
  signal functions (\<open>sigset\<close>, \<open>sighold\<close>, ...) built on the POSIX ones.
\<close>

section \<open>22_3.c: a signal back and forth\<close>

definition err_exit :: "string \<Rightarrow> ('a, proc) cmd" where
  "err_exit s = seqc (printf (s @ [newline])) (exitc 1)"

text \<open>
  \<open>main\<close> up to the \<open>switch\<close>: the number of rounds.  \<open>calls\<close> tells whether \<open>sigaction\<close>,
  \<open>sigprocmask\<close> and \<open>fork\<close> succeed.
\<close>

definition ping_begin :: "(nat \<Rightarrow> bool) \<Rightarrow> string list \<Rightarrow> (int, proc) cmd" where
  "ping_begin calls argv =
     (if length argv \<noteq> 2 then seqc (printf (''Usage: <file> exec_nums'' @ [newline])) (exitc 1)
      else if \<not> calls 0 then err_exit ''sigaction''
      else if \<not> calls 1 then err_exit ''sigprocmask''
      else if \<not> calls 2 then err_exit ''fork''
      else ret (atoi (argv ! 1)))"

text \<open>
  Where the two loops are, with their counters.  Both processes block the signal, so it stays pending
  until \<open>sigwaitinfo\<close> takes it; it is pending once, however often it is sent.
\<close>

datatype pa_pc = Pa_wait nat | Pa_kill nat | Pa_exit
datatype ch_pc = Ch_kill nat | Ch_wait nat | Ch_exit | Ch_failed

record ping =
  pa :: pa_pc
  ch :: ch_pc
  pa_pending :: bool
  ch_pending :: bool
  pa_got :: nat
  ch_got :: nat

definition ping_start :: ping where
  "ping_start = \<lparr>pa = Pa_wait 0, ch = Ch_kill 0, pa_pending = False, ch_pending = False, pa_got = 0, ch_got = 0\<rparr>"

text \<open>
  \<open>exec_nums\<close> is what \<open>atoi\<close> makes of the argument.  When the parent has gone, \<open>getppid\<close> is
  the pid of init, which may not be signalled.  Both processes end with \<open>exit (1)\<close>.
\<close>

inductive ping_step :: "int \<Rightarrow> ping \<Rightarrow> ping \<Rightarrow> bool" for exec_nums where
  pa_wait: "pa s = Pa_wait i \<Longrightarrow> int i < exec_nums \<Longrightarrow> pa_pending s \<Longrightarrow>
    ping_step exec_nums s (s\<lparr>pa := Pa_kill i, pa_pending := False, pa_got := Suc (pa_got s)\<rparr>)"
| pa_end: "pa s = Pa_wait i \<Longrightarrow> exec_nums \<le> int i \<Longrightarrow> ping_step exec_nums s (s\<lparr>pa := Pa_exit\<rparr>)"
| pa_kill: "pa s = Pa_kill i \<Longrightarrow> ping_step exec_nums s (s\<lparr>pa := Pa_wait (Suc i), ch_pending := True\<rparr>)"
| ch_kill: "ch s = Ch_kill i \<Longrightarrow> int i < exec_nums \<Longrightarrow> pa s \<noteq> Pa_exit \<Longrightarrow>
    ping_step exec_nums s (s\<lparr>ch := Ch_wait i, pa_pending := True\<rparr>)"
| ch_orphan: "ch s = Ch_kill i \<Longrightarrow> int i < exec_nums \<Longrightarrow> pa s = Pa_exit \<Longrightarrow> ping_step exec_nums s (s\<lparr>ch := Ch_failed\<rparr>)"
| ch_wait: "ch s = Ch_wait i \<Longrightarrow> ch_pending s \<Longrightarrow>
    ping_step exec_nums s (s\<lparr>ch := Ch_kill (Suc i), ch_pending := False, ch_got := Suc (ch_got s)\<rparr>)"
| ch_end: "ch s = Ch_kill i \<Longrightarrow> exec_nums \<le> int i \<Longrightarrow> ping_step exec_nums s (s\<lparr>ch := Ch_exit\<rparr>)"

inductive_cases ping_stepE: "ping_step n s t"

text \<open>What the child prints, from the two times it took.\<close>

definition elapsed_line :: "int \<Rightarrow> int \<times> int \<Rightarrow> int \<times> int \<Rightarrow> string" where
  "elapsed_line exec_nums start fin =
     ''The time elapsed after sending signals '' @ dec exec_nums @ '' times between parent and child : ''
     @ dec (fst fin - fst start) @ ''(sec) or '' @ dec (snd fin - snd start) @ ''(microsec)'' @ [newline]"

text \<open>The end of the child: behind its loop, or after the failed \<open>kill\<close>.\<close>

definition ping_child_end :: "ping \<Rightarrow> int \<Rightarrow> int \<times> int \<Rightarrow> int \<times> int \<Rightarrow> (unit, proc) cmd" where
  "ping_child_end s exec_nums start fin =
     (if ch s = Ch_failed then err_exit ''kill'' else seqc (printf (elapsed_line exec_nums start fin)) (exitc 1))"

text \<open>The two processes in step; after the last round the child can still be about to take its signal.\<close>

definition ping_inv :: "nat \<Rightarrow> ping \<Rightarrow> bool" where
  "ping_inv N s \<longleftrightarrow>
     (\<exists>i \<le> N. (ch s = Ch_kill i \<and> pa s = Pa_wait i \<and> \<not> pa_pending s \<and> \<not> ch_pending s \<and> pa_got s = i \<and> ch_got s = i)
       \<or> (i < N \<and> ch s = Ch_wait i \<and> pa s = Pa_wait i \<and> pa_pending s \<and> \<not> ch_pending s \<and> pa_got s = i \<and> ch_got s = i)
       \<or> (i < N \<and> ch s = Ch_wait i \<and> pa s = Pa_kill i \<and> \<not> pa_pending s \<and> \<not> ch_pending s \<and> pa_got s = Suc i \<and> ch_got s = i)
       \<or> (i < N \<and> ch s = Ch_wait i \<and> (pa s = Pa_wait (Suc i) \<or> pa s = Pa_exit \<and> Suc i = N) \<and> \<not> pa_pending s \<and> ch_pending s
          \<and> pa_got s = Suc i \<and> ch_got s = i))
     \<or> (ch s = Ch_kill N \<or> ch s = Ch_exit) \<and> (pa s = Pa_wait N \<or> pa s = Pa_exit) \<and> \<not> pa_pending s \<and> \<not> ch_pending s
       \<and> pa_got s = N \<and> ch_got s = N"

lemma ping_inv_step:
  assumes "ping_step exec_nums s t" and "ping_inv (nat exec_nums) s"
  shows "ping_inv (nat exec_nums) t"
  using assms by cases (auto simp: ping_inv_def split: if_splits)

lemma ping_inv_start: "ping_inv n ping_start"
  by (auto simp: ping_inv_def ping_start_def)

text \<open>How many steps are left.\<close>

fun pa_left :: "nat \<Rightarrow> pa_pc \<Rightarrow> nat" where
  "pa_left N (Pa_wait i) = 2 * (N - i) + 1"
| "pa_left N (Pa_kill i) = 2 * (N - i) + (if i < N then 0 else 2)"
| "pa_left N Pa_exit = 0"

fun ch_left :: "nat \<Rightarrow> ch_pc \<Rightarrow> nat" where
  "ch_left N (Ch_kill i) = 2 * (N - i) + 1"
| "ch_left N (Ch_wait i) = 2 * (N - i) + (if i < N then 0 else 2)"
| "ch_left N Ch_exit = 0"
| "ch_left N Ch_failed = 0"

definition ping_left :: "int \<Rightarrow> ping \<Rightarrow> nat" where
  "ping_left exec_nums s = pa_left (nat exec_nums) (pa s) + ch_left (nat exec_nums) (ch s)"

lemma ping_left_decreases: "ping_step exec_nums s t \<Longrightarrow> ping_left exec_nums t < ping_left exec_nums s"
  by (erule ping_stepE) (auto simp: ping_left_def)

lemma ping_moves:
  "ping_inv N s \<Longrightarrow> (pa s = Pa_exit \<and> ch s = Ch_exit) \<or> (\<exists>i. ch s = Ch_kill i) \<or> (\<exists>i. pa s = Pa_kill i) \<or>
     (\<exists>i. pa s = Pa_wait i \<and> i < N \<and> pa_pending s) \<or> (\<exists>i. pa s = Pa_wait i \<and> N \<le> i) \<or> (\<exists>i. ch s = Ch_wait i \<and> ch_pending s)"
  by (auto simp: ping_inv_def)

lemma ping_stops:
  assumes i: "ping_inv (nat exec_nums) s" and no: "stopped (ping_step exec_nums) s"
  shows "pa s = Pa_exit \<and> ch s = Ch_exit"
proof -
  have n: "\<not> ping_step exec_nums s t" for t using no by (rule stoppedD)
  have "\<nexists>i. pa s = Pa_kill i" "\<nexists>i. ch s = Ch_kill i"
    using n pa_kill ch_end[of s] ch_kill[of s] ch_orphan[of s] by (metis, metis not_le)
  moreover have "\<nexists>i. pa s = Pa_wait i \<and> i < nat exec_nums \<and> pa_pending s"
    using n pa_wait zless_nat_eq_int_zless by blast
  moreover have "\<nexists>i. pa s = Pa_wait i \<and> nat exec_nums \<le> i" using n pa_end[of s] by (auto simp: nat_le_iff)
  moreover have "\<nexists>i. ch s = Ch_wait i \<and> ch_pending s" using n ch_wait by blast
  ultimately show ?thesis using ping_moves[OF i] by blast
qed

interpretation pingpong: finishing "ping_step exec_nums" "ping_inv (nat exec_nums)" "ping_left exec_nums"
  "\<lambda>s. pa s = Pa_exit \<and> ch s = Ch_exit" for exec_nums
  by unfold_locales (blast intro: ping_inv_step ping_left_decreases dest: ping_stops)+

text \<open>
  C38: The two processes of 22_3 take turns for ever or until they are done: under every interleaving
  the parent has taken as many signals as the child or one more, the child never signals an exited
  parent, no run has more than \<open>4 n + 2\<close> steps for the number \<open>n\<close> on the command line, and where it
  stops both have exited after exactly \<open>n\<close> signals each way (none for a negative number), and the child
  has printed the time: no signal is lost or merged with another.
\<close>

theorem ping_pong:
  assumes "ping_begin calls [prog, dec num] p = (Ok exec_nums, q)" and "int_range num"
    and "(ping_step exec_nums ^^ k) ping_start s"
  shows "exec_nums = num \<and> k \<le> 4 * nat exec_nums + 2 \<and> ch s \<noteq> Ch_failed \<and> ch_got s \<le> pa_got s \<and> pa_got s \<le> Suc (ch_got s) \<and>
    (stopped (ping_step exec_nums) s \<longleftrightarrow> pa s = Pa_exit \<and> ch s = Ch_exit) \<and>
    (if stopped (ping_step exec_nums) s then pa_got s = nat exec_nums \<and> ch_got s = nat exec_nums \<and>
      pout (snd (ping_child_end s exec_nums start fin q)) = pout p @ elapsed_line num start fin else True)"
proof -
  have b: "exec_nums = num" "q = p"
    using assms(1) atoi_dec[OF assms(2)] by (simp_all add: ping_begin_def err_exit_def cmd_simps split: if_splits)
  have i: "ping_inv (nat exec_nums) s" using pingpong.reach_power[OF assms(3) ping_inv_start] .
  have k: "k \<le> 4 * nat exec_nums + 2"
    using pingpong.run_bound[OF assms(3)] by (simp add: ping_left_def ping_start_def)
  have turns: "ch s \<noteq> Ch_failed \<and> ch_got s \<le> pa_got s \<and> pa_got s \<le> Suc (ch_got s)"
    using i by (auto simp: ping_inv_def)
  have said: "pout (snd (ping_child_end s exec_nums start fin q)) = pout p @ elapsed_line num start fin"
    using turns b by (simp add: ping_child_end_def cmd_simps)
  show ?thesis
  proof (cases "stopped (ping_step exec_nums) s")
    case True
    then have e: "pa s = Pa_exit \<and> ch s = Ch_exit" using ping_stops[OF i] by blast
    then have "pa_got s = nat exec_nums \<and> ch_got s = nat exec_nums" using i by (auto simp: ping_inv_def)
    then show ?thesis using True e k turns said b(1) by simp
  next
    case False
    then have "\<not> (pa s = Pa_exit \<and> ch s = Ch_exit)" by (auto simp: stopped_def elim!: ping_stepE)
    then show ?thesis using False k turns b(1) by simp
  qed
qed

text \<open>One round.\<close>

definition ping_end :: ping where
  "ping_end = \<lparr>pa = Pa_exit, ch = Ch_exit, pa_pending = False, ch_pending = False, pa_got = 1, ch_got = 1\<rparr>"

lemmas ping_Suc = run_Suc[of "ping_step n" for n]

lemma ping_one: "(ping_step 1 ^^ 6) ping_start ping_end"
proof -
  let ?s1 = "ping_start\<lparr>ch := Ch_wait 0, pa_pending := True\<rparr>"
  let ?s2 = "ping_start\<lparr>ch := Ch_wait 0, pa := Pa_kill 0, pa_got := 1\<rparr>"
  let ?s3 = "?s2\<lparr>pa := Pa_wait 1, ch_pending := True\<rparr>"
  let ?s4 = "?s3\<lparr>ch := Ch_kill 1, ch_pending := False, ch_got := 1\<rparr>"
  let ?s5 = "?s4\<lparr>pa := Pa_exit\<rparr>"
  have 1: "ping_step 1 ping_start ?s1" using ch_kill[of ping_start 0 1] by (simp add: ping_start_def)
  have 2: "ping_step 1 ?s1 ?s2" using pa_wait[of ?s1 0 1] by (simp add: ping_start_def)
  have 3: "ping_step 1 ?s2 ?s3" using pa_kill[of ?s2 0 1] by (simp add: ping_start_def)
  have 4: "ping_step 1 ?s3 ?s4" using ch_wait[of ?s3 0 1] by (simp add: ping_start_def)
  have 5: "ping_step 1 ?s4 ?s5" using pa_end[of ?s4 1 1] by (simp add: ping_start_def)
  have 6: "ping_step 1 ?s5 ping_end" using ch_end[of ?s5 1 1] by (simp add: ping_start_def ping_end_def)
  have six: "6 = Suc (Suc (Suc (Suc (Suc (Suc 0)))))" by simp
  show ?thesis unfolding six
    by (rule ping_Suc[OF 1] ping_Suc[OF 2] ping_Suc[OF 3] ping_Suc[OF 4] ping_Suc[OF 5] ping_Suc[OF 6] relpowp_0_I)+
qed

theorem ping_pong_witness: "stopped (ping_step 1) ping_end \<and> (6 :: nat) \<le> 4 * nat 1 + 2"
proof -
  have "ping_begin (\<lambda>_. True) [''22_3'', dec 1] (start_proc []) = (Ok 1, start_proc [])"
    using atoi_dec[of 1] by (simp add: ping_begin_def int_range_def INT_MAX_def INT_MIN_def)
  from ping_pong[OF this _ ping_one] show ?thesis
    by (simp add: ping_end_def int_range_def INT_MAX_def INT_MIN_def)
qed

section \<open>22_4.c: the System V functions\<close>

text \<open>
  The signal mask and the dispositions of the process.  Signals are numbered from 1 to 64, two of them
  belong to the C library; \<open>SIGKILL\<close> and \<open>SIGSTOP\<close> are never blocked, ignored or caught.
\<close>

datatype disposition = Dfl | Ign | Handler

record sigs =
  mask :: "int set"
  disps :: "int \<Rightarrow> disposition"
  sout :: string

definition signal_no :: "int \<Rightarrow> bool" where
  "signal_no sig \<longleftrightarrow> 1 \<le> sig \<and> sig \<le> 64 \<and> sig \<noteq> 32 \<and> sig \<noteq> 33"

definition uncatchable :: "int set" where
  "uncatchable = {9, 19}"

text \<open>\<open>sigaddset\<close> and \<open>sigdelset\<close> leave the set alone when the number is wrong; nobody looks.\<close>

definition sigaddset :: "int set \<Rightarrow> int \<Rightarrow> int set" where
  "sigaddset S sig = (if signal_no sig then insert sig S else S)"

definition sigdelset :: "int set \<Rightarrow> int \<Rightarrow> int set" where
  "sigdelset S sig = (if signal_no sig then S - {sig} else S)"

definition sigfillset :: "int set" where
  "sigfillset = {sig. signal_no sig}"

definition sig_block :: "int set \<Rightarrow> (unit, sigs) cmd" where
  "sig_block S = modifyc (\<lambda>s. s\<lparr>mask := mask s \<union> (S - uncatchable)\<rparr>)"

definition sig_setmask :: "int set \<Rightarrow> (unit, sigs) cmd" where
  "sig_setmask S = modifyc (\<lambda>s. s\<lparr>mask := S - uncatchable\<rparr>)"

definition sys_sigaction :: "int \<Rightarrow> disposition \<Rightarrow> (bool, sigs) cmd" where
  "sys_sigaction sig d s =
     (if signal_no sig \<and> sig \<notin> uncatchable then (Ok True, s\<lparr>disps := (disps s)(sig := d)\<rparr>) else (Ok False, s))"

definition sprint :: "string \<Rightarrow> (unit, sigs) cmd" where
  "sprint str = modifyc (\<lambda>s. s\<lparr>sout := sout s @ str\<rparr>)"

text \<open>
  A function that returns gives \<open>Some\<close> of its value.  \<open>pause\<close> and \<open>sigsuspend\<close> return when a
  handler has run, and this program installs none: a call of them is \<open>None\<close>, a process that waits
  until a signal ends it.
\<close>

definition pause :: "(int option, sigs) cmd" where
  "pause = ret None"

definition mysigset :: "int \<Rightarrow> string \<Rightarrow> (int option, sigs) cmd" where
  "mysigset sig disp =
     (if disp = ''SIG_DFL'' then
        bindc (sys_sigaction sig Dfl) (\<lambda>ok.
          if \<not> ok then seqc (sprint (''sigaction in mysigset'' @ [newline])) (exitc 1)
          else seqc (sprint (dec sig @ ''(sig_num) has been reset to default now'' @ [newline])) pause)
      else if disp = ''SIG_IGNORE'' then
        bindc (sys_sigaction sig Ign) (\<lambda>ok.
          if \<not> ok then seqc (sprint (''sigaction in mysigset'' @ [newline])) (exitc 1)
          else seqc (sprint (dec sig @ ''(sig_num) has been ignored now'' @ [newline])) pause)
      else if disp = ''SIG_HOLD'' then
        seqc (sig_block (sigaddset {} sig))
          (seqc (sprint (dec sig @ ''(sig_num) has been blocked now'' @ [newline])) pause)
      else ret (Some (- 1)))"

definition mysighold :: "int \<Rightarrow> (int option, sigs) cmd" where
  "mysighold sig = seqc (sig_block (sigaddset {} sig)) (ret (Some 0))"

definition mysigrelse :: "int \<Rightarrow> (int option, sigs) cmd" where
  "mysigrelse sig = seqc (sig_setmask (sigdelset sigfillset sig)) (ret (Some 0))"

definition mysigignore :: "int \<Rightarrow> (int option, sigs) cmd" where
  "mysigignore sig =
     bindc (sys_sigaction sig Ign) (\<lambda>ok.
       if \<not> ok then seqc (sprint (''sigaction in mysigignore'' @ [newline])) (ret (Some (- 1))) else ret (Some 0))"

text \<open>\<open>sigsuspend\<close> waits with another mask, which is in place as long as the process waits.\<close>

definition mysigpause :: "int \<Rightarrow> (int option, sigs) cmd" where
  "mysigpause sig = seqc (sig_setmask (sigaddset {} sig)) pause"

text \<open>
  \<open>main\<close> with what \<open>scanf\<close> reads: a number and a word (\<open>None\<close> when there is none, and the variable
  has no value).  Both arrays have ten bytes.  \<open>Some n\<close> is a return with status \<open>n\<close>.
\<close>

definition sig_cmd :: "string \<Rightarrow> string \<Rightarrow> (int option, sigs) cmd \<Rightarrow> string \<Rightarrow> (int option, sigs) cmd" where
  "sig_cmd question name call report =
     seqc (sprint question) (bindc call (\<lambda>r. case r of
         None \<Rightarrow> ret None
       | Some n \<Rightarrow> if n = - 1 then seqc (sprint (name @ [newline])) (exitc 1) else seqc (sprint report) pause))"

definition sig_main :: "string list \<Rightarrow> int option \<Rightarrow> string option \<Rightarrow> (int option, sigs) cmd" where
  "sig_main argv number word =
     (if length argv \<noteq> 2 then seqc (sprint (''Usage: <file> fun_name'' @ [newline])) (exitc 1)
      else let f = argv ! 1 in
      if length f \<ge> 10 then undefc Buffer_overflow
      else if f = ''sigset'' then
        seqc (sprint ''Please enter the sig_num (e.g. 2 for SIGINT):Please enter disp(SIG_DFL/SIG_IGNORE/SIG_HOLD):'')
        (case word of None \<Rightarrow> undefc Uninit_read | Some disp \<Rightarrow>
         if length disp \<ge> 10 then undefc Buffer_overflow
         else case number of
           None \<Rightarrow> undefc Uninit_read
         | Some sig \<Rightarrow>
             if sig = 9 \<or> sig = 19
             then seqc (sprint (''The dispositions for SIGKILL and SIGSTOP cannot be changed.'' @ [newline])) (exitc 1)
             else bindc (mysigset sig disp) (\<lambda>r. case r of
                 None \<Rightarrow> ret None
               | Some n \<Rightarrow> if n = - 1 then seqc (sprint (''wrong disp[]'' @ [newline])) (exitc 1) else ret (Some 0)))
      else if f \<notin> {''sighold'', ''sigrelse'', ''sigignore'', ''sigpause''} then ret (Some 0)
      else case number of
        None \<Rightarrow> undefc Uninit_read
      | Some sig \<Rightarrow>
          if f = ''sighold'' then
            sig_cmd ''Please enter the sig_num (e.g. 2 for SIGINT) to add in in process's mask:'' ''mysighold''
              (mysighold sig) (''Successfully add sig'' @ dec sig @ '' in process's mask'' @ [newline])
          else if f = ''sigrelse'' then
            sig_cmd ''Please enter the sig_num (e.g. 2 for SIGINT) to been remove from process's mask:'' ''mysigrelse''
              (mysigrelse sig) (''Successfully remove sig'' @ dec sig @ '' from process's mask'' @ [newline])
          else if f = ''sigignore'' then
            sig_cmd ''Please enter the sig_num (e.g. 2 for SIGINT), which will be set to SIG_IGN:'' ''mysigignore''
              (mysigignore sig) (''Successfully set sig'' @ dec sig @ '' to SIG_IGN'' @ [newline])
          else
            sig_cmd ''Please enter the sig_num to block (e.g. 2 for SIGINT):'' ''mysigpause''
              (mysigpause sig) (''Successfully block sig'' @ dec sig @ [newline]))"



text \<open>
  The program returns only for a name it does not know.  \<open>SIG_IGNORE\<close>, one of the three words
  its prompt offers, is one byte too long for the array it is read into; every other request ends with
  status 1 or leaves the process waiting for a signal that ends it, since no handler is ever installed
  and the calls behind \<open>pause\<close> are never reached.
\<close>

theorem sig_main_waits:
  "(case fst (sig_main [prog, f] (Some sig) (Some word) s) of
      Ok (Some n) \<Rightarrow> n = 0 \<and> f \<notin> {''sigset'', ''sighold'', ''sigrelse'', ''sigignore'', ''sigpause''}
    | Ok None \<Rightarrow> f \<in> {''sigset'', ''sighold'', ''sigrelse'', ''sigignore'', ''sigpause''}
    | Exit n \<Rightarrow> n = 1 \<and> f \<in> {''sigset'', ''sigignore''}
    | Exec p as \<Rightarrow> False
    | Killed k \<Rightarrow> False
    | Undef u \<Rightarrow> u = Buffer_overflow \<and> (10 \<le> length f \<or> f = ''sigset'' \<and> 10 \<le> length word))
   \<and> fst (sig_main [prog, ''sigset''] (Some sig) (Some ''SIG_IGNORE'') s) = Undef Buffer_overflow"
proof -
  have set: "(\<exists>t. mysigset sig word s = (Ok None, t)) \<or> (\<exists>t. mysigset sig word s = (Ok (Some (- 1)), t)) \<or>
      (\<exists>t. mysigset sig word s = (Exit 1, t))" for s
    by (simp add: mysigset_def pause_def sys_sigaction_def sprint_def sig_block_def bindc_def seqc_def)
  have ign: "(\<exists>t. mysigignore sig s = (Ok (Some (- 1)), t)) \<or> (\<exists>t. mysigignore sig s = (Ok (Some 0), t))" for s
    by (simp add: mysigignore_def sys_sigaction_def sprint_def bindc_def seqc_def)
  have others: "\<exists>t. mysighold sig s = (Ok (Some 0), t)" "\<exists>t. mysigrelse sig s = (Ok (Some 0), t)"
      "\<exists>t. mysigpause sig s = (Ok None, t)" for s
    by (simp_all add: mysighold_def mysigrelse_def mysigpause_def pause_def sig_block_def sig_setmask_def)
  let ?s = "\<lambda>q. s\<lparr>sout := sout s @ q\<rparr>"
  have cmd: "sig_cmd q nm c rp s = (case c (?s q) of
        (Ok None, t) \<Rightarrow> (Ok None, t)
      | (Ok (Some n), t) \<Rightarrow> if n = - 1 then (Exit 1, t\<lparr>sout := sout t @ nm @ [newline]\<rparr>) else (Ok None, t\<lparr>sout := sout t @ rp\<rparr>)
      | (Exit n, t) \<Rightarrow> (Exit n, t) | (Exec p as, t) \<Rightarrow> (Exec p as, t) | (Undef u, t) \<Rightarrow> (Undef u, t) | (Killed k, t) \<Rightarrow> (Killed k, t))" for q nm c rp
    by (simp add: sig_cmd_def sprint_def bindc_def seqc_def pause_def split: prod.split outcome.split option.split)
  have over: "fst (sig_main [prog, ''sigset''] (Some sig) (Some ''SIG_IGNORE'') s) = Undef Buffer_overflow"
    by (simp add: sig_main_def sprint_def)
  consider "10 \<le> length f" | "f = ''sigset''" | "f = ''sighold''" | "f = ''sigrelse''" | "f = ''sigignore''" | "f = ''sigpause''"
    | "length f < 10" "f \<notin> {''sigset'', ''sighold'', ''sigrelse'', ''sigignore'', ''sigpause''}" by fastforce
  then show ?thesis
  proof cases
    case 2
    have "fst (sig_main [prog, ''sigset''] (Some sig) (Some word) s) \<in>
        (if 10 \<le> length word then {Undef Buffer_overflow} else {Ok None, Exit 1})"
      using set[of "?s ''Please enter the sig_num (e.g. 2 for SIGINT):Please enter disp(SIG_DFL/SIG_IGNORE/SIG_HOLD):''"]
      by (elim disjE exE) (simp_all add: sig_main_def sprint_def)
    then show ?thesis using over 2 by (auto split: if_splits)
  next
    case 3
    have "fst (sig_main [prog, ''sighold''] (Some sig) (Some word) s) \<in> {Ok None}"
      using others(1)[of "?s ''Please enter the sig_num (e.g. 2 for SIGINT) to add in in process's mask:''"]
      by (elim disjE exE) (simp_all add: sig_main_def cmd)
    then show ?thesis using over 3 by auto
  next
    case 4
    have "fst (sig_main [prog, ''sigrelse''] (Some sig) (Some word) s) \<in> {Ok None}"
      using others(2)[of "?s ''Please enter the sig_num (e.g. 2 for SIGINT) to been remove from process's mask:''"]
      by (elim disjE exE) (simp_all add: sig_main_def cmd)
    then show ?thesis using over 4 by auto
  next
    case 5
    have "fst (sig_main [prog, ''sigignore''] (Some sig) (Some word) s) \<in> {Ok None, Exit 1}"
      using ign[of "?s ''Please enter the sig_num (e.g. 2 for SIGINT), which will be set to SIG_IGN:''"]
      by (elim disjE exE) (simp_all add: sig_main_def cmd)
    then show ?thesis using over 5 by auto
  next
    case 6
    have "fst (sig_main [prog, ''sigpause''] (Some sig) (Some word) s) \<in> {Ok None}"
      using others(3)[of "?s ''Please enter the sig_num to block (e.g. 2 for SIGINT):''"]
      by (elim disjE exE) (simp_all add: sig_main_def cmd)
    then show ?thesis using over 6 by auto
  qed (use over in \<open>auto simp: sig_main_def\<close>)
qed

end
