(* ===== verification/SmallPrograms.thy ===== *)
theory SmallPrograms
  imports ShellExecFacts
begin

text \<open>
  The small programs of SP_HW5/Part1 (mycat.c, printdir.c, hostinfo.c, mydate.c, pipe_ls.c) and the
  FIFO test of SP_HW8/44_7.
\<close>

section \<open>mycat, printdir, hostinfo\<close>

definition mycat :: "(string \<Rightarrow> string option) \<Rightarrow> bool \<Rightarrow> string list \<Rightarrow> (unit, proc) cmd" where
  "mycat files closes argv =
     (if length argv \<noteq> 2 then seqc (printf (''Usage: mycat filename'' @ [newline])) (exitc 1)
      else case files (argv ! 1) of
        None \<Rightarrow> seqc (printf ''fopen'') (exitc 1)
      | Some c \<Rightarrow> seqc (printf (show_lines 1024 c))
          (if closes then ret () else seqc (printf ''close'') (exitc 1)))"

text \<open>\<open>getcwd (NULL, 0)\<close> allocates the block that \<open>free\<close> gives back.\<close>

definition printdir :: "os \<Rightarrow> (unit, proc) cmd" where
  "printdir os = bindc tick (\<lambda>t. case os_getcwd os t of
       None \<Rightarrow> seqc (set_errno os t) (seqc (perror os ''getcwd'') (exitc 1))
     | Some d \<Rightarrow> seqc (modifyc (\<lambda>s. s\<lparr>plive := Suc (plive s)\<rparr>)) (seqc (printf (d @ [newline])) free))"

text \<open>
  \<open>gethostname\<close> fails when the name and its NUL do not fit; a failed \<open>uname\<close> leaves the
  structure as it was, and it is printed all the same.
\<close>

definition hostinfo :: "os \<Rightarrow> string option \<Rightarrow> int \<Rightarrow> (unit, proc) cmd" where
  "hostinfo os release hid = bindc tick (\<lambda>t.
     case os_hostname os t of
       Some h \<Rightarrow> (if length h \<ge> 128 then seqc (set_errno os t) (seqc (perror os (''gethostname'' @ [newline])) (exitc 1))
         else seqc (printf (''hostname: '' @ h @ [newline]))
          (case release of
             None \<Rightarrow> bindc tick (\<lambda>t. seqc (set_errno os t) (seqc (perror os ''uname'') (undefc Uninit_read)))
           | Some r \<Rightarrow> seqc (printf (r @ [newline]))
              (if hid = - 1 then bindc tick (\<lambda>t. seqc (set_errno os t) (seqc (perror os (''gethostid'' @ [newline])) (exitc 1)))
               else seqc (printf (''hostid: '' @ dec hid @ [newline])) (exitc 0))))
     | None \<Rightarrow> seqc (set_errno os t) (seqc (perror os (''gethostname'' @ [newline])) (exitc 1)))"

section \<open>mydate\<close>

text \<open>The fields of \<open>struct tm\<close> that the format uses, as \<open>localtime\<close> fills them in.\<close>

record tm =
  tm_mon :: nat
  tm_mday :: nat
  tm_wday :: nat
  tm_year :: int
  tm_hour :: nat
  tm_min :: nat

definition tm_ok :: "tm \<Rightarrow> bool" where
  "tm_ok t \<longleftrightarrow> tm_mon t < 12 \<and> 1 \<le> tm_mday t \<and> tm_mday t \<le> 31 \<and> tm_wday t < 7 \<and> tm_hour t < 24 \<and> tm_min t < 60 \<and>
     int_range (tm_year t)"

definition months :: "string list" where
  "months = [''Jan'', ''Feb'', ''Mar'', ''Apr'', ''May'', ''Jun'', ''Jul'', ''Aug'', ''Sep'', ''Oct'', ''Nov'', ''Dec'']"

definition weekdays :: "string list" where
  "weekdays = [''Sun'', ''Mon'', ''Tue'', ''Wed'', ''Thu'', ''Fri'', ''Sat'']"

definition two_digits :: "nat \<Rightarrow> string" where
  "two_digits n = (if n < 10 then ''0'' @ dec_nat n else dec_nat n)"

text \<open>\<open>%b %d (%a), %Y %I:%M %p\<close> in the C locale\<close>

definition date_text :: "tm \<Rightarrow> string" where
  "date_text t = months ! tm_mon t @ '' '' @ two_digits (tm_mday t) @ '' ('' @ weekdays ! tm_wday t @ ''), ''
     @ dec (tm_year t + 1900) @ '' '' @ two_digits (if tm_hour t mod 12 = 0 then 12 else tm_hour t mod 12) @ '':''
     @ two_digits (tm_min t) @ (if tm_hour t < 12 then '' AM'' else '' PM'')"

text \<open>\<open>strftime\<close> gives 0 when the text and its NUL do not fit into the array.\<close>

definition mydate :: "tm option \<Rightarrow> (unit, proc) cmd" where
  "mydate local = (case local of
       None \<Rightarrow> undefc Null_deref
     | Some t \<Rightarrow> if length (date_text t) \<ge> 40 then seqc (printf ''strftime returned 0'') (exitc 1)
         else printf (date_text t @ [newline]))"

section \<open>pipe_ls\<close>

text \<open>The child, which starts from the state of the parent.\<close>

definition ls_child :: "os \<Rightarrow> nat \<Rightarrow> nat \<Rightarrow> (unit, proc) cmd" where
  "ls_child os r w =
     bindc (sys_close r) (\<lambda>ok. if \<not> ok then seqc (printf ''close 1'') (exitc 1) else
     seqc (dup2 w 1)
     (bindc (sys_close w) (\<lambda>ok. if \<not> ok then seqc (printf ''close 2'') (exitc 1) else
     bindc tick (\<lambda>t. if os_exec os t ''ls'' then liftc (Exec ''ls'' [''ls'', ''-l''])
       else seqc (set_errno os t) (seqc (perror os ''execlp'') (exitc 1))))))"

text \<open>
  The parent reads once, whatever has come (\<open>got\<close>), into an array that holds \<open>buf\<close> and is not
  terminated.
\<close>

definition ls_parent :: "os \<Rightarrow> string \<Rightarrow> string \<Rightarrow> int \<Rightarrow> nat \<Rightarrow> nat \<Rightarrow> (unit, proc) cmd" where
  "ls_parent os got buf pid r w =
     bindc (sys_close w) (\<lambda>ok. if \<not> ok then seqc (printf ''close 2'') (exitc 1) else
     bindc (liftc (cstr (got @ drop (length got) buf))) (\<lambda>str.
     seqc (printf (str @ [newline]))
     (bindc (sys_close r) (\<lambda>ok. if \<not> ok then seqc (printf ''close 1'') (exitc 1) else
     bindc (waitpid os pid) (\<lambda>st.
       if st = None then seqc (perror os ''waitpid'') (exitc 1) else ret ())))))"

definition pipe_ls :: "os \<Rightarrow> string \<Rightarrow> string \<Rightarrow> proc \<Rightarrow> ended \<times> ended list" where
  "pipe_ls os got buf s =
     (case bindc (sys_pipe os) (\<lambda>p. case p of
             None \<Rightarrow> seqc (perror os ''pipe'') (exitc 1)
           | Some (r, w) \<Rightarrow> bindc tick (\<lambda>t.
               if os_fork os t = - 1
               then seqc (set_errno os t) (seqc (perror os ''fork'') (\<lambda>s. (Exit (perrno s), s)))
               else ret (os_fork os t, r, w))) s of
        (Ok (pid, r, w), s1) \<Rightarrow> (ls_parent os got buf pid r w s1, [ls_child os r w s1])
      | (e, s1) \<Rightarrow> ((obind e (\<lambda>_. Ok ()), s1), []))"

section \<open>44_7: a FIFO without blocking\<close>

definition FIFO_FILE :: string where "FIFO_FILE = ''44_7_fifo_file''"
definition test_size :: nat where "test_size = 256"

definition write_msg :: string where
  "write_msg = ''Test msg is coming, watch out. MF!'' @ [newline, newline]"

text \<open>
  The calls on a FIFO opened with \<open>O_NONBLOCK\<close>.  Opening for writing needs a reader; reading
  from an empty FIFO with a writer fails, and so does a write (of no more than \<open>PIPE_BUF\<close> bytes)
  that does not fit into the capacity \<open>cap\<close>.
\<close>

definition nb_open_write :: "nat \<Rightarrow> bool" where
  "nb_open_write readers \<longleftrightarrow> 0 < readers"

definition nb_read :: "nat \<Rightarrow> nat \<Rightarrow> string \<Rightarrow> (string \<times> string) option" where
  "nb_read writers n q = (if q = [] \<and> 0 < writers then None else Some (take n q, drop n q))"

definition nb_write :: "nat \<Rightarrow> string \<Rightarrow> string \<Rightarrow> string option" where
  "nb_write cap msg q = (if length q + length msg \<le> cap then Some (q @ msg) else None)"

text \<open>\<open>while (write (wfd, write_msg, strlen (write_msg)) != -1) {}\<close>\<close>

function fill_fifo :: "nat \<Rightarrow> string \<Rightarrow> string" where
  "fill_fifo cap q = (case nb_write cap write_msg q of None \<Rightarrow> q | Some q' \<Rightarrow> fill_fifo cap q')"
  by pat_completeness auto
termination
  by (relation "measure (\<lambda>(cap, q). cap - length q)") (auto simp: nb_write_def write_msg_def split: if_splits)

declare fill_fifo.simps [simp del]

text \<open>
  \<open>main\<close>: the calls that may fail are 0 \<open>remove\<close> (or there was no file), 1 \<open>mkfifo\<close>, 2 the
  \<open>open\<close> for reading, 3 the \<open>write\<close> to standard output, and 4 and 5 the two \<open>close\<close>.  When
  call 3 fails the array is printed, which has no NUL behind the message.  The result is what is left in
  the FIFO.
\<close>

definition fifo_end :: "(nat \<Rightarrow> bool) \<Rightarrow> string \<Rightarrow> (string, proc) cmd" where
  "fifo_end calls q =
     (if \<not> calls 4 then seqc (printf ''close wfd'') (exitc 1)
      else if \<not> calls 5 then seqc (printf ''close rfd'') (exitc 1)
      else ret q)"

definition fifo_transfer :: "nat \<Rightarrow> (nat \<Rightarrow> bool) \<Rightarrow> (string, proc) cmd" where
  "fifo_transfer cap calls =
     (case nb_write cap write_msg [] of
        None \<Rightarrow> seqc (printf (''Failed to write '' @ write_msg @ '' into '' @ FIFO_FILE)) (exitc 1)
      | Some q \<Rightarrow> (case nb_read 1 test_size q of
          None \<Rightarrow> seqc (printf (''Failed to read from '' @ FIFO_FILE)) (exitc 1)
        | Some (got, q') \<Rightarrow>
            if \<not> calls 3 then undefc Uninit_read
            else seqc (printf got)
              (seqc (printf (''write() don't wait for FIFO to have space to write in under NONBLOCK. If no space to write in(''
                   @ FIFO_FILE @ '' is full), it fails.'' @ [newline, newline]))
                (fifo_end calls (fill_fifo cap q')))))"

definition fifo_test :: "nat \<Rightarrow> (nat \<Rightarrow> bool) \<Rightarrow> (string, proc) cmd" where
  "fifo_test cap calls =
     (if \<not> calls 0 then seqc (printf (''remove '' @ FIFO_FILE @ '' failed'')) (exitc 1)
      else if \<not> calls 1 then seqc (printf (''mkfifo '' @ FIFO_FILE)) (exitc 1)
      else seqc (printf (''make '' @ FIFO_FILE @ '' success'' @ [newline, newline]))
      (seqc (if nb_open_write 0 then ret ()
         else printf (''Read end of '' @ FIFO_FILE @ '' is closed now. Failed to open write end.'' @ [newline, newline]))
      (if \<not> calls 2 then seqc (printf (''Failed to open read end of '' @ FIFO_FILE)) (exitc 1)
       else if \<not> nb_open_write 1 then seqc (printf (''Failed to open write end of '' @ FIFO_FILE)) (exitc 1)
       else seqc (printf (''read / write end of '' @ FIFO_FILE @ '' is opened with NONBLOCK flags now.'' @ [newline, newline]))
         (seqc (if nb_read 1 test_size [] = None then printf (''Read failed: no data in '' @ FIFO_FILE @ '' yet'' @ [newline, newline])
             else ret ())
         (fifo_transfer cap calls)))))"

section \<open>Properties\<close>

text \<open>
  mycat writes a file without NULs byte for byte, and of any other file each line, cut into pieces
  of 1023 characters, up to its first NUL.
\<close>

theorem mycat_copies:
  assumes "files f = Some c"
  shows "mycat files closes [prog, f] s = (if closes then (Ok (), s\<lparr>pout := pout s @ show_lines 1024 c\<rparr>)
      else (Exit 1, s\<lparr>pout := pout s @ show_lines 1024 c @ ''close''\<rparr>))
    \<and> (if NUL \<in> set c then True else show_lines 1024 c = c)"
  using assms show_lines_all[of 1024 c] by (simp add: mycat_def cmd_simps)

theorem mycat_copies_witness: "pout (snd (mycat [''f'' \<mapsto> ''ab''] True [''mycat'', ''f''] (start_proc []))) = ''ab''"
  using mycat_copies[of "[''f'' \<mapsto> ''ab'']" "''f''" "''ab''" True "''mycat''" "start_proc []"] by (simp add: start_proc_def)

lemma dec_nat_length: "n < 10 ^ Suc k \<Longrightarrow> length (dec_nat n) \<le> Suc k"
proof (induction k arbitrary: n)
  case 0
  then show ?case by (simp add: dec_nat.simps[of n])
next
  case (Suc k)
  show ?case
  proof (cases "n < 10")
    case False
    have "n div 10 < 10 ^ Suc k" using Suc.prems by (simp add: div_less_iff_less_mult)
    then show ?thesis using Suc.IH[of "n div 10"] False by (simp add: dec_nat.simps[of n])
  qed (simp add: dec_nat.simps[of n])
qed

lemma dec_length: "\<bar>x\<bar> < 10 ^ Suc k \<Longrightarrow> length (dec x) \<le> Suc (Suc k)"
proof -
  assume a: "\<bar>x\<bar> < 10 ^ Suc k"
  then have "nat \<bar>x\<bar> < 10 ^ Suc k" by (metis abs_ge_zero nat_less_iff of_nat_numeral of_nat_power)
  then show ?thesis using dec_nat_length[of "nat \<bar>x\<bar>" k] by (auto simp: dec_def)
qed

text \<open>
  mydate always prints the date: for every time that \<open>localtime\<close> can give, whatever its year,
  the text has at most 34 characters, so \<open>strftime\<close> never gives 0 for the array of 40.
\<close>

theorem mydate_fits:
  assumes "tm_ok t"
  shows "length (date_text t) \<le> 34 \<and> mydate (Some t) s = (Ok (), s\<lparr>pout := pout s @ date_text t @ [newline]\<rparr>)"
proof -
  have two: "length (two_digits n) \<le> 2" if "n < 100" for n
    using dec_nat_length[of n 1] dec_nat_length[of n 0] that by (simp add: two_digits_def)
  have m: "length (months ! i) = 3" if "i < 12" for i
    using that by (auto simp: months_def less_Suc_eq numeral_eq_Suc)
  have w: "length (weekdays ! i) = 3" if "i < 7" for i
    using that by (auto simp: weekdays_def less_Suc_eq numeral_eq_Suc)
  have "\<bar>tm_year t + 1900\<bar> < 10000000000"
    using assms by (simp add: tm_ok_def int_range_def INT_MIN_def INT_MAX_def abs_less_iff)
  then have "length (dec (tm_year t + 1900)) \<le> 11"
    using dec_length[of "tm_year t + 1900" 9] by simp
  moreover define h where "h = (if tm_hour t mod 12 = 0 then 12 else tm_hour t mod 12)"
  moreover have "tm_hour t mod 12 < 12" by simp
  then have "h < 100" unfolding h_def by (auto simp del: mod_less_divisor)
  ultimately have "length (date_text t) \<le> 34"
    using assms two[of "tm_mday t"] two[of "tm_min t"] two[of h] m[of "tm_mon t"] w[of "tm_wday t"]
    unfolding date_text_def h_def[symmetric] by (simp add: tm_ok_def)
  then show ?thesis by (simp add: mydate_def)
qed

theorem mydate_fits_witness:
  "length (date_text \<lparr>tm_mon = 0, tm_mday = 5, tm_wday = 1, tm_year = 124, tm_hour = 0, tm_min = 7\<rparr>) \<le> 34"
  using mydate_fits[of "\<lparr>tm_mon = 0, tm_mday = 5, tm_wday = 1, tm_year = 124, tm_hour = 0, tm_min = 7\<rparr>"]
  by (simp add: tm_ok_def int_range_def INT_MIN_def INT_MAX_def)

text \<open>
  pipe_ls runs \<open>ls -l\<close> with its standard output on the pipe and no other end of it, waits for
  exactly that child, and has no end left open itself.  But it prints what one \<open>read\<close> gave,
  followed by whatever was in the array up to a NUL; when there is none, because the read filled the
  array or the stack was not clear, it prints memory behind the array.
\<close>

theorem pipe_ls_prints:
  assumes "sys_pipe os s = (Ok (Some (r, w)), s1)" and "pfds s 0 \<noteq> None" and "pfds s 1 \<noteq> None"
    and "os_fork os (ticks s1) \<noteq> - 1" and "os_exec os (Suc (ticks s1)) ''ls''" and "os_wait os (Suc (ticks s1)) = Some st"
    and "nul_free got"
  shows "case pipe_ls os got buf s of ((e, t), cs) \<Rightarrow>
      (\<exists>p. cs = [(Exec ''ls'' [''ls'', ''-l''], p)] \<and> pfds p = (pfds s)(1 := Some (PipeW (ticks s)))) \<and>
      (if NUL \<in> set (drop (length got) buf)
       then e = Ok () \<and> pout t = pout s @ got @ takeWhile (\<lambda>c. c \<noteq> NUL) (drop (length got) buf) @ [newline]
         \<and> pevents t = pevents s @ [EvWait (os_fork os (ticks s1))] \<and> pfds t = pfds s
       else e = Undef Out_of_bounds)"
proof -
  note p = sys_pipe_fds[OF assms(1)]
  have s1: "pout s1 = pout s" "pevents s1 = pevents s"
    using assms(1) by (auto simp: sys_pipe_def Let_def split: if_splits option.splits)
  have "r \<noteq> 1" "w \<noteq> 1" using p(1,2) assms(3) by metis+
  have m: "bindc (sys_pipe os) (\<lambda>p. case p of
             None \<Rightarrow> seqc (perror os ''pipe'') (exitc 1)
           | Some (r, w) \<Rightarrow> bindc tick (\<lambda>t.
               if os_fork os t = - 1
               then seqc (set_errno os t) (seqc (perror os ''fork'') (\<lambda>s. (Exit (perrno s), s)))
               else ret (os_fork os t, r, w))) s = (Ok (os_fork os (ticks s1), r, w), s1\<lparr>ticks := Suc (ticks s1)\<rparr>)"
    using assms(1,4) by simp
  have tw: "takeWhile (\<lambda>c. c \<noteq> NUL) (got @ drop (length got) buf) = got @ takeWhile (\<lambda>c. c \<noteq> NUL) (drop (length got) buf)"
    by (rule takeWhile_append2) (use assms(7) in \<open>auto simp: nul_free_def\<close>)
  have c: "cstr (got @ drop (length got) buf) = (if NUL \<in> set (drop (length got) buf)
      then Ok (got @ takeWhile (\<lambda>c. c \<noteq> NUL) (drop (length got) buf)) else Undef Out_of_bounds)"
    unfolding cstr_def tw using assms(7) by (simp add: nul_free_def)
  have child: "\<exists>q. ls_child os r w (s1\<lparr>ticks := Suc (ticks s1)\<rparr>) = (Exec ''ls'' [''ls'', ''-l''], q)
      \<and> pfds q = (pfds s)(1 := Some (PipeW (ticks s)))"
    using p assms(5) \<open>r \<noteq> 1\<close> \<open>w \<noteq> 1\<close> by (auto simp: ls_child_def sys_close_def dup2_def fun_eq_iff)
  have "(pfds s1)(w := None, r := None) = pfds s" using p by (auto simp: fun_eq_iff)
  then show ?thesis using child p assms(6) s1
    by (auto simp: pipe_ls_def m ls_parent_def sys_close_def c waitpid_def)
qed

text \<open>
  The FIFO test prints that the first open for writing and the first read fail and the message it
  sends itself, and then fills the FIFO: for every capacity that holds the message the loop ends, with
  room for less than one message.
\<close>

lemma fill_fifo_bounds: "length q \<le> cap \<Longrightarrow> length (fill_fifo cap q) \<le> cap \<and> cap < length (fill_fifo cap q) + length write_msg"
proof (induction cap q rule: fill_fifo.induct)
  case (1 cap q)
  then show ?case by (cases "nb_write cap write_msg q") (auto simp: fill_fifo.simps[of cap q] nb_write_def split: if_splits)
qed

theorem fifo_test_output:
  assumes "length write_msg \<le> cap"
  shows "case fifo_test cap (\<lambda>_. True) s of (r, t) \<Rightarrow>
    (\<exists>q. r = Ok q \<and> length q \<le> cap \<and> cap < length q + length write_msg) \<and>
    pout t = pout s @ ''make '' @ FIFO_FILE @ '' success'' @ [newline, newline]
      @ ''Read end of '' @ FIFO_FILE @ '' is closed now. Failed to open write end.'' @ [newline, newline]
      @ ''read / write end of '' @ FIFO_FILE @ '' is opened with NONBLOCK flags now.'' @ [newline, newline]
      @ ''Read failed: no data in '' @ FIFO_FILE @ '' yet'' @ [newline, newline] @ write_msg
      @ ''write() don't wait for FIFO to have space to write in under NONBLOCK. If no space to write in(''
      @ FIFO_FILE @ '' is full), it fails.'' @ [newline, newline]"
proof -
  have t: "take test_size write_msg = write_msg" "drop test_size write_msg = []"
    by (simp_all add: test_size_def write_msg_def)
  have n: "write_msg \<noteq> []" by (simp add: write_msg_def)
  show ?thesis using assms fill_fifo_bounds[of "[]" cap] n
    by (auto simp: fifo_test_def fifo_transfer_def fifo_end_def nb_open_write_def nb_read_def nb_write_def t)
qed

theorem pipe_ls_prints_witness:
  "pout (snd (fst (pipe_ls exact_os ''total 0'' (replicate 1024 NUL) (start_proc [])))) = ''total 0'' @ [newline]"
proof -
  have "free_fd std_fds = Some 3"
    by (auto simp: free_fd_def find_Some_iff std_fds_def less_Suc_eq intro!: exI[of _ 3])
  moreover have "free_fd (std_fds(3 := Some (PipeR 0))) = Some 4"
    by (auto simp: free_fd_def find_Some_iff std_fds_def intro!: exI[of _ 4])
  ultimately have "sys_pipe exact_os (start_proc []) = (Ok (Some (3, 4)), snd (sys_pipe exact_os (start_proc [])))"
    by (simp add: sys_pipe_def start_proc_def exact_os_def Let_def)
  from pipe_ls_prints[OF this, where st = "Exited 0" and got = "''total 0''" and buf = "replicate 1024 NUL"]
  show ?thesis by (auto simp: start_proc_def std_fds_def exact_os_def nul_free_def split: prod.splits)
qed

theorem fifo_test_output_witness:
  "fst (fifo_test 65536 (\<lambda>_. True) (start_proc [])) \<in> range Ok"
  using fifo_test_output[of 65536 "start_proc []"] by (auto simp: write_msg_def split: prod.splits)

end
