(* ===== verification/Spec2Isabelle.thy ===== *)
theory Spec2Isabelle
  imports ShellMain ShmAttach ShmSpec ShmMain FifoSpec MqFile XferSpec RingBuf TextDict ProcTree Popen FileCopy UpperPipe
    Signals SmallPrograms
begin

text \<open>
  The programs of a course in Linux network and system programming, verified.

  The repository is a collection of separate C programs, one directory under src/ for each homework:
  a shell in two versions (SP_HW3, SP_HW5/Part2), a dictionary that grows from a text file to Unix,
  TCP and UDP sockets and shared memory (SP_HW5/Part3, SP_HW11, SP_HW12), three servers for sequence
  numbers (SP_HW8, SP_HW9/52_3), transfers through message queues, semaphores and queued signals
  (SP_HW9, SP_HW10), and smaller exercises on files, /proc, pipes, signals and popen.

  How C is modelled.  \<open>CBase\<close>: a C function is a HOL function into \<open>outcome\<close> (\<open>Ok\<close>
  a value, \<open>Exit\<close> a status, \<open>Exec\<close> a program, \<open>Killed\<close> by a signal, or \<open>Undef\<close> with
  what ISO C leaves undefined), or a command on an explicit state, \<open>cmd\<close>.  \<open>CString\<close> and \<open>CNum\<close>:
  arrays are lists of all their bytes, C strings the bytes before the first NUL; strcmp, strtok, strtol,
  atoi, fgets and decimal output are defined as the C library computes them.  \<open>CProc\<close>: a process is
  the record \<open>proc\<close> (input, output, errno, descriptors, heap blocks, calls that others notice), and
  what the kernel decides is the parameter \<open>os\<close>, a record of functions of the number of calls made so
  far, so every call may fail at any time.  A fork gives two processes that start in the same state;
  functions that fork return how each of them ends.  A pointer vector is a list of slots, each a string,
  null or not yet written; integers are \<open>int\<close> with an explicit range check where C's are signed,
  and words where they are unsigned.

  The shells.  \<open>ShellParse\<close>: parse and free_argv of both parse.c, with every allocation and its
  size; correctness, the round trip, the overflow of SP_HW3 and the leak.  \<open>ShellBuiltin\<close>: the tables and
  functions of both builtin.c.  \<open>ShellExec\<close>: is_background.c, run_command.c, redirect_in.c,
  redirect_out.c, pipe_present.c and pipe_command.c; \<open>ShellExecFacts\<close>: what they do on
  null-terminated vectors, the descriptors of a pipeline's processes, and that no pipeline ever starts a
  program.  \<open>ShellMain\<close>: the loop of both shell.c over the interface \<open>command_shell\<close>.

  The dictionary.  \<open>DictFile\<close>: the records of dict.h, lookup5.c (the same file in
  SP_HW11/part2 and part3) and bsearch; \<open>DictMain\<close>:
  main.c over the interface \<open>dict_service\<close>; \<open>DictNet\<close> and \<open>DictNetFacts\<close>: lookup7.c,
  lookup8.c, lookup9.c and the three socket servers, each client a dictionary service again
  (sublocales of \<open>dict_server\<close>); \<open>DictProps\<close>: the properties on files of entries, up to the
  equivalence of the remote programs with the local one.  \<open>ShmDict\<close> and \<open>ShmProps\<close>:
  lookup6.c and shm_server.c of SP_HW12 as a step relation on semaphores and shared memory, with
  types, mutual exclusion, absence of deadlock and two races; \<open>ShmLive\<close>: every request is finished, in
  at most ten steps; \<open>ShmSpec\<close>: together the processes do exactly what an abstract dictionary
  without processes does; \<open>ShmMain\<close>: main.c of SP_HW12 as processes over that system, and the equivalence of
  one such program with the local one; \<open>ShmAttach\<close>: how server and clients find each other by their
  keys.  \<open>TextDict\<close>: convert.c, lookup1.c and main.c of SP_HW5/Part3.

  Sequence numbers.  \<open>GetNum\<close>: get_num.c and error_functions.c; \<open>SeqNum\<close>: the servers and
  clients over FIFOs (SP_HW8/44_6), System V queues (46_2) and POSIX queues (SP_HW9/52_3), as functions of
  the requests received; \<open>FifoRace\<close>: the FIFO service as processes that interleave; \<open>FifoSpec\<close>: it
  is exactly an atomic allocator of numbers.

  Other communication.  \<open>MqFile\<close>: the file transfer of SP_HW9/52_3; \<open>SemXfer\<close>: 54_1, and
  \<open>XferSpec\<close>: it is exactly a buffer with one place;
  \<open>RingBuf\<close>: SP_HW10; \<open>UpperPipe\<close> and \<open>Popen\<close>: 44_1.c and 44_2.c of SP_HW6;
  \<open>Signals\<close>: SP_HW7.

  Files and /proc.  \<open>FileCopy\<close>: SP_HW1, SP_HW2 and SP_HW9/49_1; \<open>ProcList\<close> and \<open>ProcTree\<close>:
  SP_HW4; \<open>SmallPrograms\<close>: SP_HW5/Part1 and SP_HW8/44_7.

  Step relations.  Where programs run at the same time each system call or access to shared memory is one
  step of an inductive relation (\<open>shm_step\<close>, \<open>fifo_step\<close>, \<open>xfer_step\<close>, \<open>ring_step\<close>,
  \<open>up_step\<close>, \<open>ping_step\<close>, \<open>main_step\<close>), safety is an invariant proved by rule induction on the reachable
  states, and termination a measure that every step decreases: the interfaces \<open>kept\<close>,
  \<open>measured\<close>, \<open>finishing\<close> and \<open>guarded\<close> of \<open>StepSys\<close>, one of which every one of them interprets.
  Refinement is a simulation, up to steps that do nothing in the abstract system (\<open>refining\<close>), and for
  \<open>shm_step\<close>, \<open>fifo_step\<close> and \<open>xfer_step\<close> the converse too (\<open>realising\<close>), so the reachable abstract
  states are the same.

  Bounds and fuel.  All loops are total functions with a measure.  There are two exceptions: the depth of
  the recursion of \<open>dfs_loop\<close> is an argument, the size of the stack, and the property about it
  holds for every stack that takes the deepest chain of processes; and the endless loop of
  SP_HW5/Part3/main.c is run for a number of rounds, with a property for all numbers.  The bounds of the
  step relations, such as \<open>12 n + 2\<close> steps for \<open>n\<close> bytes in \<open>UpperPipe\<close>, are proved.

  Not modelled.  The table ename.c.inc and the text of the floating-point loss rate of SP_HW10 (parameters);
  a semop that fails because the objects of SP_HW12 were removed by hand; prompts on standard error; a failing close in the sequence-number servers; the
  buffering of standard output across a fork or an _exit; signals that interrupt a call; partial writes
  to files by tee, tail and 44_1.  Only declarations, makefiles and data are left out whole.
\<close>

end
